(* ===== verification/Prelude.thy ===== *)
theory Prelude
  imports Main "HOL-Library.Word"
begin

unbundle bit_operations_syntax

text \<open>
  Shared ground of the development: the C integer types of the i386 target, the result
  type of operations that can panic, pointer chains (C's singly linked lists) and the
  lemmas on lists and words that several components use.

  Lemma collections: \<open>kres_simps\<close> evaluates the result monad, \<open>chain_simps\<close> rewrites
  pointer chains.
\<close>

named_theorems kres_simps "evaluation of the result monad"
named_theorems chain_simps "pointer chains"

section \<open>C integer types of the i386 target\<close>

type_synonym u8 = "8 word"
type_synonym u16 = "16 word"
type_synonym u32 = "32 word"
type_synonym u64 = "64 word"

text \<open>A byte of a C string: \<open>char\<close> is signed on i386, its raw bits are these eight.\<close>

abbreviation byte_of :: "char \<Rightarrow> u8" where
  "byte_of c \<equiv> of_char c"

section \<open>Results: panics and undefined behaviour as values\<close>

text \<open>
  \<open>Panic\<close> is a call of \<open>panic()\<close> (which never returns), with its message. \<open>Undefined\<close> is an
  access the C program makes outside an object; \<open>Page_Fault\<close> is an access the MMU refuses;
  \<open>Nesting\<close> is the exhaustion of a recursion bound.
\<close>

datatype kerror = Panic string | Undefined string | Page_Fault u32 | Nesting

type_synonym 'a kres = "kerror + 'a"

definition kbind :: "'a kres \<Rightarrow> ('a \<Rightarrow> 'b kres) \<Rightarrow> 'b kres" where
  "kbind m f = (case m of Inl e \<Rightarrow> Inl e | Inr x \<Rightarrow> f x)"

definition panic_if :: "bool \<Rightarrow> string \<Rightarrow> unit kres" where
  "panic_if c msg = (if c then Inl (Panic msg) else Inr ())"

definition kassert :: "bool \<Rightarrow> string \<Rightarrow> unit kres" where
  "kassert c txt = panic_if (\<not> c) (''KASSERT failed: '' @ txt)"

lemma kbind_Inl [simp, kres_simps]: "kbind (Inl e) f = Inl e"
  by (simp add: kbind_def)

lemma kbind_Inr [simp, kres_simps]: "kbind (Inr x) f = f x"
  by (simp add: kbind_def)

lemma kbind_eq_Inr: "kbind m f = Inr y \<longleftrightarrow> (\<exists>x. m = Inr x \<and> f x = Inr y)"
  by (cases m) auto

lemma kbind_assoc: "kbind (kbind m f) g = kbind m (\<lambda>x. kbind (f x) g)"
  by (cases m) auto

lemma kbind_cong [fundef_cong]:
  "m = m' \<Longrightarrow> (\<And>x. m' = Inr x \<Longrightarrow> f x = g x) \<Longrightarrow> kbind m f = kbind m' g"
  by (cases m') auto

lemma panic_if_False [simp, kres_simps]: "panic_if False msg = Inr ()"
  by (simp add: panic_if_def)

lemma panic_if_True [simp, kres_simps]: "panic_if True msg = Inl (Panic msg)"
  by (simp add: panic_if_def)

lemma panic_if_eq_Inr [simp]: "panic_if c msg = Inr u \<longleftrightarrow> \<not> c"
  by (simp add: panic_if_def)

lemma kassert_True [simp, kres_simps]: "kassert True txt = Inr ()"
  by (simp add: kassert_def)

lemma kassert_False [simp, kres_simps]:
  "kassert False txt = Inl (Panic (''KASSERT failed: '' @ txt))"
  by (simp add: kassert_def)

lemma kassert_eq_Inr [simp]: "kassert c txt = Inr u \<longleftrightarrow> c"
  by (simp add: kassert_def)

section \<open>Pointer chains\<close>

text \<open>
  \<open>chain nx p xs\<close>: following the next-pointers \<open>nx\<close> from \<open>p\<close> visits exactly the nodes \<open>xs\<close>
  and then reaches the null pointer 0.
\<close>

fun chain :: "(u32 \<Rightarrow> u32) \<Rightarrow> u32 \<Rightarrow> u32 list \<Rightarrow> bool" where
  "chain nx p [] \<longleftrightarrow> p = 0"
| "chain nx p (x # xs) \<longleftrightarrow> p = x \<and> x \<noteq> 0 \<and> chain nx (nx x) xs"

lemma chain_null [simp, chain_simps]: "chain nx 0 xs \<longleftrightarrow> xs = []"
  by (cases xs) auto

lemma chain_nonnull:
  "p \<noteq> 0 \<Longrightarrow> chain nx p xs \<longleftrightarrow> (\<exists>ys. xs = p # ys \<and> chain nx (nx p) ys)"
  by (cases xs) auto

lemma chain_functional: "chain nx p xs \<Longrightarrow> chain nx p ys \<Longrightarrow> xs = ys"
proof (induction xs arbitrary: p ys)
  case Nil
  then show ?case by (cases ys) auto
next
  case (Cons x xs)
  then show ?case by (cases ys) auto
qed

lemma chain_suffix: "chain nx p (xs @ y # ys) \<Longrightarrow> chain nx y (y # ys)"
  by (induction xs arbitrary: p) auto

lemma chain_head_fresh: "chain nx p (x # xs) \<Longrightarrow> x \<notin> set xs"
proof
  assume c: "chain nx p (x # xs)" and "x \<in> set xs"
  then obtain as bs where xs: "xs = as @ x # bs" by (meson split_list)
  from c xs have "chain nx x (x # as @ x # bs)" and "chain nx p (x # as @ x # bs)"
    by auto
  moreover have "chain nx x (x # bs)"
    using chain_suffix [of nx p "x # as" x bs] calculation by simp
  ultimately have "x # as @ x # bs = x # bs"
    using chain_functional by blast
  then show False by simp
qed

lemma chain_distinct: "chain nx p xs \<Longrightarrow> distinct xs"
proof (induction xs arbitrary: p)
  case (Cons x xs)
  then show ?case using chain_head_fresh by auto
qed simp

lemma chain_nonzero: "chain nx p xs \<Longrightarrow> 0 \<notin> set xs"
  by (induction xs arbitrary: p) auto

lemma chain_upd_other [simp]:
  "a \<notin> set xs \<Longrightarrow> chain (nx(a := v)) p xs = chain nx p xs"
  by (induction xs arbitrary: p) auto

lemma chain_cong: "(\<And>x. x \<in> set xs \<Longrightarrow> nx x = ny x) \<Longrightarrow> chain nx p xs = chain ny p xs"
  by (induction xs arbitrary: p) auto

text \<open>Linking a fresh last node behind the old one.\<close>

lemma chain_snoc_link:
  assumes "chain nx p (xs @ [l])" and "n \<noteq> 0" and "n \<notin> set xs" and "n \<noteq> l" and "nx n = 0"
  shows "chain (nx(l := n)) p (xs @ [l, n])"
  using assms
proof (induction xs arbitrary: p)
  case (Cons x xs)
  from Cons.prems(1) have "x \<noteq> l"
    using chain_distinct [OF Cons.prems(1)] by auto
  with Cons show ?case by auto
qed auto

lemma chain_last_next: "chain nx p (xs @ [l]) \<Longrightarrow> nx l = 0"
  by (induction xs arbitrary: p) auto

lemma chain_inner_next: "chain nx p (xs @ [y, z] @ ys) \<Longrightarrow> nx y = z"
  by (induction xs arbitrary: p) auto

section \<open>Words\<close>

lemma unat_lt_2p: "unat (x :: u32) < 4294967296"
  using unsigned_less [where w = x] by simp

lemma u32_add_no_wrap:
  "unat (a :: u32) + unat b < 4294967296 \<Longrightarrow> unat (a + b) = unat a + unat b"
  by (simp add: unat_word_ariths)

lemma u32_sub_no_wrap: "unat (b :: u32) \<le> unat a \<Longrightarrow> unat (a - b) = unat a - unat b"
  by (simp add: unat_sub word_le_nat_alt)

lemma unat_of_nat_u32: "a < 4294967296 \<Longrightarrow> unat (of_nat a :: u32) = a"
  by (simp add: unat_of_nat)

lemma u32_add_of_nat:
  assumes "unat (a :: u32) + n < 4294967296"
  shows "unat (a + of_nat n) = unat a + n"
proof -
  have "unat (of_nat n :: u32) = n" using assms by (intro unat_of_nat_u32) simp
  then show ?thesis using assms u32_add_no_wrap [of a "of_nat n"] by simp
qed

lemma u32_of_nat_inj:
  "a < 4294967296 \<Longrightarrow> b < 4294967296 \<Longrightarrow> (of_nat a :: u32) = of_nat b \<longleftrightarrow> a = b"
  by (metis unat_of_nat_u32)

lemma unat_minus_one_u32 [simp]: "unat (- 1 :: u32) = 4294967295"
  by (simp add: unsigned_minus_1_eq_mask mask_eq_exp_minus_1)

lemma u32_ones: "(0xFFFFFFFF :: u32) = - 1"
  by simp

lemma unat_drop_bit_u32: "unat (drop_bit n (w :: u32)) = unat w div 2 ^ n"
  unfolding unat_drop_bit_eq by (rule drop_bit_eq_div)

lemma ucast_of_nat: "ucast (w :: u32) = of_nat (unat w)"
  by simp

lemma unat_and_0xFFF: "unat (w AND 0xFFF :: u32) = unat w mod 4096"
proof -
  have "(0xFFF :: u32) = mask 12" by (simp add: mask_eq_exp_minus_1)
  then have "unat (w AND 0xFFF) = unat (take_bit 12 w)" by (simp only: take_bit_eq_mask)
  also have "\<dots> = take_bit 12 (unat w)" by (simp only: unsigned_take_bit_eq)
  finally show ?thesis by (simp add: take_bit_eq_mod)
qed

end
