(* ===== verification/Printf.thy ===== *)
theory Printf
  imports Prelude "HOL-Library.Char_ord"
begin

text \<open>
  \<open>klibc/stdio/vsprintf.c\<close> and \<open>sprintf.c\<close>. A C string is the list of its bytes before the NUL;
  the local conversion buffer \<open>char buf[512]\<close> is a list of 512 characters which the conversions
  index as the code does. The destination buffer is the output list itself: the C code does not
  bound it. Reading an argument that is not there, or of the wrong kind, is undefined behaviour.
\<close>

datatype varg = VInt u32 | VStr string

definition BUF_LEN :: nat where
  "BUF_LEN = 512"

text \<open>The C string a buffer holds.\<close>

definition cstring_of :: "string \<Rightarrow> string" where
  "cstring_of buf = takeWhile (\<lambda>c. c \<noteq> CHR 0x00) buf"

section \<open>Number conversions\<close>

definition dec_digit :: "u32 \<Rightarrow> char" where
  "dec_digit d = char_of (unat d + 48)"

definition hex_array :: string where
  "hex_array = ''0123456789ABCDEF''"

definition hex_digit :: "u32 \<Rightarrow> char" where
  "hex_digit d = hex_array ! unat d"

text \<open>The \<open>do ... while (value > 0)\<close> loop that \<open>ultoa\<close> and \<open>ultox\<close> share, with the base and the digit.\<close>

function put_digits :: "u32 \<Rightarrow> (u32 \<Rightarrow> char) \<Rightarrow> u32 \<Rightarrow> nat \<Rightarrow> string \<Rightarrow> nat \<times> string" where
  "put_digits base digit value num_digits buf =
     (let buf' = buf[num_digits := digit (value mod base)]; value' = value div base
      in if value' > 0 \<and> base > 1 then put_digits base digit value' (Suc num_digits) buf'
         else (Suc num_digits, buf'))"
  by pat_completeness auto
termination
proof (relation "measure (\<lambda>(base, digit, value, n, buf). unat value)", simp)
  fix base v :: u32 and digit :: "u32 \<Rightarrow> char" and n :: nat and buf x y
  assume y: "y = v div base" and g: "0 < y \<and> 1 < base"
  then have "unat v div unat base \<noteq> 0" and "1 < unat base"
    by (auto simp: word_less_nat_alt unat_div_distrib)
  moreover have "unat v \<noteq> 0" using calculation by (auto intro: ccontr)
  ultimately have "unat v div unat base < unat v" by simp
  then show "((base, digit, y, Suc n, x), base, digit, v, n, buf)
      \<in> measure (\<lambda>(base, digit, v, n, buf). unat v)"
    using y by (simp add: unat_div_distrib)
qed

declare put_digits.simps [simp del]

function swap_digits :: "nat \<Rightarrow> nat \<Rightarrow> string \<Rightarrow> string" where
  "swap_digits i num_digits buf =
     (if i < num_digits div 2
      then (let swap = num_digits - (i + 1); tmp = buf ! i
            in swap_digits (Suc i) num_digits (buf[i := buf ! swap, swap := tmp]))
      else buf)"
  by pat_completeness auto
termination
  by (relation "measure (\<lambda>(i, n, buf). n - i)") auto

declare swap_digits.simps [simp del]

definition ultoa :: "u32 \<Rightarrow> string \<Rightarrow> string" where
  "ultoa value buf =
     (case put_digits 10 dec_digit value 0 buf of
        (num_digits, buf') \<Rightarrow> (swap_digits 0 num_digits buf')[num_digits := CHR 0x00])"

text \<open>\<open>-value\<close> wraps at the smallest integer, as it does on the target.\<close>

definition ltoa :: "u32 \<Rightarrow> string \<Rightarrow> string" where
  "ltoa value buf =
     (if sint value < 0 then CHR ''-'' # ultoa (- value) (tl buf) else ultoa value buf)"

definition ultox :: "u32 \<Rightarrow> string \<Rightarrow> string" where
  "ultox value buf =
     CHR ''0'' # CHR ''x'' #
     (case put_digits 16 hex_digit value 0 (drop 2 buf) of
        (num_digits, buf') \<Rightarrow> (swap_digits 0 num_digits buf')[num_digits := CHR 0x00])"

section \<open>The format interpreter\<close>

definition zero_buf :: string where
  "zero_buf = replicate BUF_LEN (CHR 0x00)"

text \<open>One conversion: the text it writes and the arguments left.\<close>

fun convert :: "char \<Rightarrow> varg list \<Rightarrow> (string \<times> varg list) kres" where
  "convert f args =
     (if f = CHR ''s'' then
        (case args of VStr s # args' \<Rightarrow> Inr (cstring_of s, args') | _ \<Rightarrow> Inl (Undefined ''va_arg''))
      else if f = CHR ''c'' then
        (case args of VInt c # args' \<Rightarrow> Inr ([char_of (unat c mod 256)], args')
         | _ \<Rightarrow> Inl (Undefined ''va_arg''))
      else if f = CHR ''d'' \<or> f = CHR ''i'' then
        (case args of VInt v # args' \<Rightarrow> Inr (cstring_of (ltoa v zero_buf), args')
         | _ \<Rightarrow> Inl (Undefined ''va_arg''))
      else if f = CHR ''u'' then
        (case args of VInt v # args' \<Rightarrow> Inr (cstring_of (ultoa v zero_buf), args')
         | _ \<Rightarrow> Inl (Undefined ''va_arg''))
      else if f = CHR ''x'' \<or> f = CHR ''p'' then
        (case args of VInt v # args' \<Rightarrow> Inr (cstring_of (ultox v zero_buf), args')
         | _ \<Rightarrow> Inl (Undefined ''va_arg''))
      else if f = CHR ''b'' then
        (case args of VInt b # args' \<Rightarrow> Inr (if b \<noteq> 0 then ''true'' else ''false'', args')
         | _ \<Rightarrow> Inl (Undefined ''va_arg''))
      else Inr ([f], args))"

text \<open>The loop ends at the NUL of the format, also behind a percent sign.\<close>

fun vsprintf_text :: "string \<Rightarrow> varg list \<Rightarrow> string kres" where
  "vsprintf_text [] args = Inr []"
| "vsprintf_text (c # fmt) args =
     (if c = CHR 0x00 then Inr []
      else if c = CHR ''%'' then
        (case fmt of
           [] \<Rightarrow> Inr []
         | f # fmt' \<Rightarrow>
             if f = CHR 0x00 then Inr []
             else
               kbind (convert f args) (\<lambda>(out, args').
               kbind (vsprintf_text fmt' args') (\<lambda>rest. Inr (out @ rest))))
      else kbind (vsprintf_text fmt args) (\<lambda>rest. Inr (c # rest)))"

text \<open>The bytes left in \<open>str\<close>, the closing NUL included, and the returned length.\<close>

definition vsprintf :: "string \<Rightarrow> varg list \<Rightarrow> (string \<times> nat) kres" where
  "vsprintf fmt args =
     kbind (vsprintf_text fmt args) (\<lambda>out. Inr (out @ [CHR 0x00], length out))"

text \<open>\<open>sprintf\<close>, as its callers use it: the C string it leaves in the buffer.\<close>

definition sprintf :: "string \<Rightarrow> varg list \<Rightarrow> string kres" where
  "sprintf fmt args = kbind (vsprintf fmt args) (\<lambda>(str, n). Inr (cstring_of str))"

text \<open>\<open>vprintf\<close> prints from a local buffer of \<open>BUF_LEN\<close> bytes, which the text and its NUL must fit.\<close>

definition vprintf_buf :: "string \<Rightarrow> varg list \<Rightarrow> string kres" where
  "vprintf_buf fmt args =
     kbind (vsprintf fmt args) (\<lambda>(buf, n).
     if length buf > BUF_LEN then Inl (Undefined ''vprintf: buf[BUF_LEN] overrun'') else Inr buf)"

section \<open>Digits of a number, least significant first\<close>

function rdigits :: "nat \<Rightarrow> nat \<Rightarrow> nat list" where
  "rdigits b n = n mod b # (if n div b = 0 \<or> b < 2 then [] else rdigits b (n div b))"
  by pat_completeness auto
termination
  by (relation "measure snd") (auto intro!: div_less_dividend intro: ccontr)

declare rdigits.simps [simp del]

lemma rdigits_value: "2 \<le> b \<Longrightarrow> foldr (\<lambda>d acc. acc * b + d) (rdigits b n) 0 = n"
proof (induction b n rule: rdigits.induct)
  case (1 b n)
  then show ?case
    by (cases "n div b = 0") (simp_all add: rdigits.simps [of b n] div_eq_0_iff)
qed

lemma rdigits_below: "0 < b \<Longrightarrow> d \<in> set (rdigits b n) \<Longrightarrow> d < b"
proof (induction b n rule: rdigits.induct)
  case (1 b n)
  then show ?case by (auto simp: rdigits.simps [of b n] split: if_splits)
qed

lemma length_rdigits_le: "n < b ^ Suc k \<Longrightarrow> length (rdigits b n) \<le> Suc k"
proof (induction k arbitrary: n)
  case 0
  then show ?case by (simp add: rdigits.simps [of b n])
next
  case (Suc k)
  show ?case
  proof (cases "n div b = 0 \<or> b < 2")
    case True
    then show ?thesis by (simp add: rdigits.simps [of b n])
  next
    case False
    have "n div b < b ^ Suc k"
      using Suc.prems False by (simp add: less_mult_imp_div_less mult.commute)
    with Suc.IH have "length (rdigits b (n div b)) \<le> Suc k" by blast
    then show ?thesis by (simp add: rdigits.simps [of b n])
  qed
qed

lemma rdigits_nonempty: "rdigits b n \<noteq> []"
  by (simp add: rdigits.simps [of b n])

lemma rdigits_last: "0 < n \<Longrightarrow> 2 \<le> b \<Longrightarrow> last (rdigits b n) \<noteq> 0"
proof (induction b n rule: rdigits.induct)
  case (1 b n)
  then show ?case
    by (cases "n div b = 0") (auto simp: rdigits.simps [of b n] rdigits_nonempty div_eq_0_iff)
qed

section \<open>The loops of the conversions\<close>

lemma put_digits_eq:
  "1 < b \<Longrightarrow> n + length (rdigits (unat b) (unat v)) \<le> length buf \<Longrightarrow>
   put_digits b dg v n buf =
     (n + length (rdigits (unat b) (unat v)),
      take n buf @ map (\<lambda>d. dg (of_nat d)) (rdigits (unat b) (unat v)) @
      drop (n + length (rdigits (unat b) (unat v))) buf)"
proof (induction b dg v n buf rule: put_digits.induct)
  case (1 b dg v n buf)
  have b: "2 \<le> unat b" using "1.prems"(1) by (simp add: word_less_nat_alt)
  have digit: "dg (v mod b) = dg (of_nat (unat v mod unat b))"
    by (simp add: unat_mod_distrib [symmetric])
  have n: "n < length buf"
    using "1.prems"(2) by (simp add: rdigits.simps [of "unat b" "unat v"] split: if_splits)
  show ?case
  proof (cases "v div b = 0")
    case True
    then have "rdigits (unat b) (unat v) = [unat v mod unat b]"
      by (simp add: rdigits.simps unat_div_distrib [symmetric])
    with True n show ?thesis
      by (simp add: put_digits.simps [of b dg v] digit upd_conv_take_nth_drop)
  next
    case False
    then have nz: "0 < v div b" by (simp add: word_gt_0)
    have "unat v div unat b \<noteq> 0"
      using False by (simp add: unat_div_distrib [symmetric] unat_eq_zero)
    then have rd: "rdigits (unat b) (unat v) =
        unat v mod unat b # rdigits (unat b) (unat (v div b))"
      using b by (simp add: rdigits.simps [of "unat b" "unat v"] unat_div_distrib)
    let ?buf = "buf[n := dg (v mod b)]"
    have "put_digits b dg (v div b) (Suc n) ?buf =
        (Suc n + length (rdigits (unat b) (unat (v div b))),
         take (Suc n) ?buf @ map (\<lambda>d. dg (of_nat d)) (rdigits (unat b) (unat (v div b))) @
         drop (Suc n + length (rdigits (unat b) (unat (v div b)))) ?buf)"
      using "1.IH" [OF refl refl] "1.prems" nz rd by simp
    then show ?thesis
      using nz "1.prems"(1) n
      by (simp add: put_digits.simps [of b dg v] rd digit upd_conv_take_nth_drop add.commute)
  qed
qed

lemma length_swap_digits [simp]: "length (swap_digits i k buf) = length buf"
proof (induction i k buf rule: swap_digits.induct)
  case (1 i k buf)
  then show ?case by (simp add: swap_digits.simps [of i k buf] Let_def)
qed

lemma swap_digits_nth:
  "k \<le> length buf \<Longrightarrow> j < length buf \<Longrightarrow>
   swap_digits i k buf ! j = (if i \<le> j \<and> j + i < k then buf ! (k - 1 - j) else buf ! j)"
proof (induction i k buf rule: swap_digits.induct)
  case (1 i k buf)
  show ?case
  proof (cases "i < k div 2")
    case True
    define w where "w = k - (i + 1)"
    define b where "b = buf[i := buf ! w, w := buf ! i]"
    have ix: "i < length buf" "w < length buf" "i < w" "k - 1 - i = w" "k - 1 - w = i"
      using True "1.prems" by (auto simp: w_def)
    have b_nth: "b ! x = (if x = w then buf ! i else if x = i then buf ! w else buf ! x)" for x
      using ix by (simp add: b_def nth_list_update)
    have "swap_digits i k buf = swap_digits (Suc i) k b"
      using True by (simp add: swap_digits.simps [of i k buf] Let_def b_def w_def)
    then have step: "swap_digits i k buf ! j =
        (if Suc i \<le> j \<and> j + Suc i < k then b ! (k - 1 - j) else b ! j)"
      using "1.IH" [OF True refl refl] "1.prems" by (simp add: b_def w_def)
    consider "j = i" | "j = w" | "i < j" "j < w" | "j < i \<or> w < j" using ix by linarith
    then show ?thesis
    proof cases
      case 1
      have "i + i < k" using True by simp
      with 1 show ?thesis unfolding step using ix by (simp add: b_nth)
    next
      case 2
      have "w + Suc i = k" and "w + i < k" using ix by (auto simp: w_def)
      with 2 show ?thesis unfolding step using ix by (simp add: b_nth)
    next
      case 3
      then have "k - 1 - j \<noteq> w" "k - 1 - j \<noteq> i" "Suc i \<le> j" "j + Suc i < k"
        by (auto simp: w_def)
      then show ?thesis unfolding step by (simp add: b_nth)
    next
      case 4
      then have "\<not> (i \<le> j \<and> j + i < k)" "j \<noteq> w" "j \<noteq> i" using ix by (auto simp: w_def)
      then show ?thesis unfolding step using ix by (auto simp: b_nth)
    qed
  next
    case False
    then have "swap_digits i k buf = buf" by (simp add: swap_digits.simps)
    moreover have "k - 1 - j = j" if "i \<le> j" "j + i < k"
      using False that by arith
    ultimately show ?thesis by auto
  qed
qed

lemma swap_digits_rev: "k \<le> length buf \<Longrightarrow> swap_digits 0 k buf = rev (take k buf) @ drop k buf"
  by (rule nth_equalityI) (auto simp: swap_digits_nth nth_append rev_nth)

text \<open>Conversion of a number in a buffer that is large enough: the digits, then a NUL.\<close>

lemma put_swap_digits:
  assumes "1 < b" and "length (rdigits (unat b) (unat v)) < length buf"
  shows "(case put_digits b dg v 0 buf of
      (k, buf') \<Rightarrow> (swap_digits 0 k buf')[k := CHR 0x00]) =
    map (\<lambda>d. dg (of_nat d)) (rev (rdigits (unat b) (unat v))) @ CHR 0x00 #
    drop (Suc (length (rdigits (unat b) (unat v)))) buf"
proof -
  let ?ds = "rdigits (unat b) (unat v)" and ?f = "\<lambda>d. dg (of_nat d)"
  have "swap_digits 0 (length ?ds) (map ?f ?ds @ drop (length ?ds) buf) =
      map ?f (rev ?ds) @ drop (length ?ds) buf"
    by (subst swap_digits_rev) (simp_all add: rev_map)
  moreover have "(drop (length ?ds) buf)[0 := CHR 0x00] = CHR 0x00 # drop (Suc (length ?ds)) buf"
    using assms(2) by (cases "drop (length ?ds) buf") (auto simp: drop_Suc dest: arg_cong [of _ _ tl] simp: tl_drop)
  ultimately show ?thesis
    using assms by (simp add: put_digits_eq list_update_append)
qed

section \<open>What a conversion prints\<close>

definition dec_text :: "nat \<Rightarrow> string" where
  "dec_text n = map (\<lambda>d. char_of (d + 48)) (rev (rdigits 10 n))"

definition hex_text :: "nat \<Rightarrow> string" where
  "hex_text n = map (\<lambda>d. hex_array ! d) (rev (rdigits 16 n))"

text \<open>Reading a decimal numeral back.\<close>

definition read_dec :: "string \<Rightarrow> nat" where
  "read_dec = foldl (\<lambda>acc c. acc * 10 + (of_char c - 48)) 0"

lemma u32_digits_le:
  "length (rdigits 10 (unat (v :: u32))) \<le> 10" "length (rdigits 16 (unat v)) \<le> 8"
  using length_rdigits_le [of "unat v" 10 9] length_rdigits_le [of "unat v" 16 7] unat_lt_2p [of v]
  by simp_all

lemma char_of_nonzero: "d < 10 \<Longrightarrow> char_of (d + 48 :: nat) \<noteq> CHR 0x00"
proof
  assume "d < 10" "char_of (d + 48) = CHR 0x00"
  then have "of_char (char_of (d + 48) :: char) = (0 :: nat)" by simp
  with \<open>d < 10\<close> show False by simp
qed

lemma hex_array_nonzero: "d < 16 \<Longrightarrow> hex_array ! d \<noteq> CHR 0x00"
proof -
  assume "d < 16"
  then have "hex_array ! d \<in> set hex_array" by (intro nth_mem) (simp add: hex_array_def)
  then show ?thesis by (auto simp: hex_array_def)
qed

lemma dec_text_no_nul: "c \<in> set (dec_text n) \<Longrightarrow> c \<noteq> CHR 0x00"
  using rdigits_below [of 10 _ n] char_of_nonzero by (force simp: dec_text_def)

lemma hex_text_no_nul: "c \<in> set (hex_text n) \<Longrightarrow> c \<noteq> CHR 0x00"
  using rdigits_below [of 16 _ n] hex_array_nonzero by (force simp: hex_text_def)

lemma cstring_of_prefix: "(\<And>c. c \<in> set s \<Longrightarrow> c \<noteq> CHR 0x00) \<Longrightarrow> cstring_of (s @ CHR 0x00 # r) = s"
  by (simp add: cstring_of_def takeWhile_append2)

lemma cstring_of_Cons:
  "cstring_of (c # s) = (if c = CHR 0x00 then [] else c # cstring_of s)"
  by (simp add: cstring_of_def)

lemma cstring_of_id: "(\<And>c. c \<in> set s \<Longrightarrow> c \<noteq> CHR 0x00) \<Longrightarrow> cstring_of s = s"
  by (simp add: cstring_of_def takeWhile_eq_all_conv)

lemma map_digits_cong:
  "(\<And>d. d < b \<Longrightarrow> f d = g d) \<Longrightarrow> 0 < b \<Longrightarrow> map f (rev (rdigits b n)) = map g (rev (rdigits b n))"
  using rdigits_below by (intro map_cong) auto

lemma ultoa_text: "10 < length buf \<Longrightarrow> cstring_of (ultoa v buf) = dec_text (unat v)"
proof -
  assume "10 < length buf"
  then have "ultoa v buf = map (\<lambda>d. dec_digit (of_nat d)) (rev (rdigits 10 (unat v))) @ CHR 0x00 #
      drop (Suc (length (rdigits 10 (unat v)))) buf"
    unfolding ultoa_def using u32_digits_le(1) [of v]
    by (subst put_swap_digits) simp_all
  also have "map (\<lambda>d. dec_digit (of_nat d)) (rev (rdigits 10 (unat v))) = dec_text (unat v)"
    unfolding dec_text_def
    by (rule map_digits_cong) (simp_all add: dec_digit_def unat_of_nat_u32)
  finally show ?thesis using dec_text_no_nul by (simp add: cstring_of_prefix)
qed

lemma ultox_text: "10 < length buf \<Longrightarrow> cstring_of (ultox v buf) = ''0x'' @ hex_text (unat v)"
proof -
  assume len: "10 < length buf"
  have "map (\<lambda>d. hex_digit (of_nat d)) (rev (rdigits 16 (unat v))) = hex_text (unat v)"
    unfolding hex_text_def by (rule map_digits_cong) (simp_all add: hex_digit_def unat_of_nat_u32)
  then have "ultox v buf = ''0x'' @ hex_text (unat v) @ CHR 0x00 #
      drop (Suc (length (rdigits 16 (unat v)))) (drop 2 buf)"
    unfolding ultox_def using u32_digits_le(2) [of v] len
    by (subst put_swap_digits) simp_all
  then show ?thesis
    using hex_text_no_nul by (simp add: cstring_of_def takeWhile_append2)
qed

lemma ltoa_text:
  "11 < length buf \<Longrightarrow> cstring_of (ltoa v buf) =
   (if sint v < 0 then CHR ''-'' # dec_text (unat (- v)) else dec_text (unat v))"
  using ultoa_text [of "tl buf" "- v"] by (simp add: ltoa_def ultoa_text cstring_of_Cons)

lemma read_dec_dec_text: "read_dec (dec_text n) = n"
proof -
  have "foldr (\<lambda>c acc. acc * 10 + (of_char c - 48)) (map (\<lambda>d. char_of (d + 48)) ds) 0 =
      foldr (\<lambda>d acc. acc * 10 + d) ds (0 :: nat)" if "\<forall>d\<in>set ds. d < 10" for ds
    using that by (induction ds) auto
  then have "foldr (\<lambda>c acc. acc * 10 + (of_char c - 48)) (map (\<lambda>d. char_of (d + 48)) (rdigits 10 n)) 0 = n"
    using rdigits_below [of 10 _ n] rdigits_value [of 10 n] by simp
  then show ?thesis
    by (simp add: read_dec_def dec_text_def foldl_conv_foldr rev_map)
qed

definition read_int :: "string \<Rightarrow> int" where
  "read_int t = (if t \<noteq> [] \<and> hd t = CHR ''-'' then - int (read_dec (tl t)) else int (read_dec t))"

lemma dec_text_head: "hd (dec_text n) \<noteq> CHR ''-''" and dec_text_nonempty: "dec_text n \<noteq> []"
proof -
  have "c \<noteq> CHR ''-''" if "c \<in> set (dec_text n)" for c
  proof
    assume "c = CHR ''-''"
    with that obtain d :: nat where d: "CHR ''-'' = (char_of (d + 48) :: char)" "d < 10"
      using rdigits_below [of 10 _ n] by (auto simp: dec_text_def)
    have "of_char (CHR ''-'') = (of_char (char_of (d + 48) :: char) :: nat)"
      using d(1) by (rule arg_cong)
    then have "45 = (d + 48) mod 256" by simp
    with d(2) have "45 = d + 48" by simp
    then show False by simp
  qed
  moreover show ne: "dec_text n \<noteq> []"
    using rdigits_nonempty [of 10 n] by (simp add: dec_text_def)
  ultimately show "hd (dec_text n) \<noteq> CHR ''-''" using hd_in_set by blast
qed

lemma sint_u32: "sint (v :: u32) = uint v - (if bit v 31 then 4294967296 else 0)"
proof -
  have "take_bit 32 (uint v) = uint v"
    by (rule take_bit_int_eq_self) (use uint_lt2p [of v] in simp_all)
  then show ?thesis
    by (simp add: sint_uint signed_take_bit_eq_take_bit_minus bit_unsigned_iff)
qed

lemma neg_sint_unat: "sint (v :: u32) < 0 \<Longrightarrow> int (unat (- v)) = - sint v"
proof -
  assume neg: "sint v < 0"
  have "uint v < 4294967296" using uint_lt2p [of v] by simp
  moreover have "v \<noteq> 0" using neg by auto
  then have "0 < uint v" by (simp add: word_neq_0_conv word_less_def)
  ultimately have s: "sint v = uint v - 4294967296" "0 < uint v"
    using neg by (auto simp: sint_u32 split: if_splits)
  have "uint (- v) = (- uint v) mod 4294967296" by (simp add: uint_word_ariths)
  also have "\<dots> = 4294967296 - uint v"
    using s(2) \<open>uint v < _\<close> by (simp add: zmod_zminus1_eq_if)
  finally show ?thesis using s(1) by simp
qed

section \<open>Properties\<close>

text \<open>\<open>%u\<close> prints a number in at most ten digits, and reading the digits back gives the number.\<close>

lemma ultoa_roundtrip:
  "read_dec (cstring_of (ultoa v zero_buf)) = unat v \<and> length (cstring_of (ultoa v zero_buf)) \<le> 10"
proof -
  have "cstring_of (ultoa v zero_buf) = dec_text (unat v)"
    by (rule ultoa_text) (simp add: zero_buf_def BUF_LEN_def)
  then show ?thesis using u32_digits_le(1) [of v] by (simp add: read_dec_dec_text) (simp add: dec_text_def)
qed

text \<open>C38. \<open>%d\<close> prints the two's complement value of its argument, the smallest integer included,
  and its text fits in eleven bytes of the conversion buffer.\<close>

theorem ltoa_roundtrip:
  "read_int (cstring_of (ltoa v zero_buf)) = sint v \<and> length (cstring_of (ltoa v zero_buf)) \<le> 11"
proof -
  have t: "cstring_of (ltoa v zero_buf) =
      (if sint v < 0 then CHR ''-'' # dec_text (unat (- v)) else dec_text (unat v))"
    by (rule ltoa_text) (simp add: zero_buf_def BUF_LEN_def)
  have len: "length (dec_text (unat w)) \<le> 10" for w :: u32
    using u32_digits_le(1) [of w] by (simp add: dec_text_def)
  show ?thesis
  proof (cases "sint v < 0")
    case True
    then show ?thesis
      using len [of "- v"] neg_sint_unat [of v] by (simp add: t read_int_def read_dec_dec_text)
  next
    case False
    then have "sint v = int (unat v)"
      using uint_lt2p [of v] by (auto simp: sint_u32 split: if_splits)
    moreover have "read_int (dec_text (unat v)) = int (read_dec (dec_text (unat v)))"
      using dec_text_head [of "unat v"] dec_text_nonempty [of "unat v"]
      by (simp add: read_int_def)
    ultimately show ?thesis using False len [of v] by (simp add: t read_dec_dec_text)
  qed
qed

text \<open>
  The pieces a format can be made of, the format string and the arguments they stand for, and
  the text each one should print.
\<close>

datatype piece =
    Plain string | Str string | Chr char | Signed u32 | Unsigned u32 | Hex u32 | Boolean u32

definition piece_format :: "piece \<Rightarrow> string" where
  "piece_format x = (case x of Plain t \<Rightarrow> t | Str t \<Rightarrow> ''%s'' | Chr c \<Rightarrow> ''%c'' | Signed v \<Rightarrow> ''%d''
     | Unsigned v \<Rightarrow> ''%u'' | Hex v \<Rightarrow> ''%x'' | Boolean v \<Rightarrow> ''%b'')"

definition piece_args :: "piece \<Rightarrow> varg list" where
  "piece_args x = (case x of Plain t \<Rightarrow> [] | Str t \<Rightarrow> [VStr t] | Chr c \<Rightarrow> [VInt (of_nat (of_char c))]
     | Signed v \<Rightarrow> [VInt v] | Unsigned v \<Rightarrow> [VInt v] | Hex v \<Rightarrow> [VInt v] | Boolean v \<Rightarrow> [VInt v])"

definition piece_text :: "piece \<Rightarrow> string" where
  "piece_text x = (case x of Plain t \<Rightarrow> t | Str t \<Rightarrow> t | Chr c \<Rightarrow> [c]
     | Signed v \<Rightarrow> (if sint v < 0 then CHR ''-'' # dec_text (unat (- v)) else dec_text (unat v))
     | Unsigned v \<Rightarrow> dec_text (unat v) | Hex v \<Rightarrow> ''0x'' @ hex_text (unat v)
     | Boolean v \<Rightarrow> (if v \<noteq> 0 then ''true'' else ''false''))"

definition piece_ok :: "piece \<Rightarrow> bool" where
  "piece_ok x = (case x of Plain t \<Rightarrow> CHR ''%'' \<notin> set t \<and> CHR 0x00 \<notin> set t | Str t \<Rightarrow> CHR 0x00 \<notin> set t | _ \<Rightarrow> True)"

lemma vsprintf_plain:
  "CHR ''%'' \<notin> set t \<Longrightarrow> CHR 0x00 \<notin> set t \<Longrightarrow>
   vsprintf_text (t @ fmt) args = kbind (vsprintf_text fmt args) (\<lambda>rest. Inr (t @ rest))"
proof (induction t)
  case Nil
  then show ?case by (cases "vsprintf_text fmt args") simp_all
next
  case (Cons c t)
  then show ?case by (cases "vsprintf_text fmt args") auto
qed

lemma convert_piece:
  "piece_ok x \<Longrightarrow> (\<forall>t. x \<noteq> Plain t) \<Longrightarrow>
   \<exists>f. piece_format x = [CHR ''%'', f] \<and> f \<noteq> CHR 0x00 \<and> convert f (piece_args x @ args) = Inr (piece_text x, args)"
proof (cases x)
  case (Str t)
  moreover assume "piece_ok x"
  ultimately have "cstring_of t = t" by (intro cstring_of_id) (auto simp: piece_ok_def)
  with Str show ?thesis by (simp add: piece_format_def piece_args_def piece_text_def)
next
  case (Chr c)
  have "(of_char c :: nat) < 256"
    using of_char_mod_256 [of c, where ?'a = nat] mod_less_divisor [of 256 "of_char c :: nat"] by simp
  then have "(of_char c :: nat) < 4294967296" by (rule less_trans) simp
  then have "unat (of_nat (of_char c) :: u32) = of_char c" by (rule unat_of_nat_u32)
  with Chr show ?thesis by (simp add: piece_format_def piece_args_def piece_text_def)
qed (simp_all add: piece_format_def piece_args_def piece_text_def zero_buf_def BUF_LEN_def
      ultoa_text ultox_text ltoa_text)

section \<open>An upper bound for the length of the text\<close>

definition conversion_width :: "char \<Rightarrow> string \<Rightarrow> nat" where
  "conversion_width f out = (if f \<in> {CHR ''d'', CHR ''i'', CHR ''u'', CHR ''x'', CHR ''p''} then 11 else length out)"

fun format_width :: "string \<Rightarrow> varg list \<Rightarrow> nat" where
  "format_width [] args = 0"
| "format_width (c # fmt) args =
     (if c = CHR ''%'' then
        (case fmt of [] \<Rightarrow> 0
         | f # fmt' \<Rightarrow>
             (case convert f args of Inl e \<Rightarrow> 0
              | Inr (out, args') \<Rightarrow> conversion_width f out + format_width fmt' args'))
      else Suc (format_width fmt args))"

lemma number_widths:
  "length (cstring_of (ltoa v zero_buf)) \<le> 11" "length (cstring_of (ultoa v zero_buf)) \<le> 11"
  "length (cstring_of (ultox v zero_buf)) \<le> 11"
  using u32_digits_le [of v] u32_digits_le(1) [of "- v"]
  by (simp_all add: ltoa_text ultoa_text ultox_text zero_buf_def BUF_LEN_def dec_text_def hex_text_def)

lemma convert_width: "convert f args = Inr (out, args') \<Longrightarrow> length out \<le> conversion_width f out"
  by (cases args; cases "hd args"; cases "f \<in> {CHR ''d'', CHR ''i'', CHR ''u'', CHR ''x'', CHR ''p''}")
    (auto simp: conversion_width_def number_widths split: if_splits)

lemma vsprintf_width: "vsprintf_text fmt args = Inr out \<Longrightarrow> length out \<le> format_width fmt args"
proof (induction fmt args arbitrary: out rule: vsprintf_text.induct)
  case (2 c fmt args)
  consider "c = CHR 0x00" | "c = CHR ''%''" "fmt = []" | fmt' where "c = CHR ''%''" "fmt = CHR 0x00 # fmt'"
    | f fmt' where "c = CHR ''%''" "fmt = f # fmt'" "f \<noteq> CHR 0x00" | "c \<noteq> CHR 0x00" "c \<noteq> CHR ''%''"
    by (cases fmt) auto
  then show ?case
  proof cases
    case 4
    then obtain o1 args' rest where *: "convert f args = Inr (o1, args')" "vsprintf_text fmt' args' = Inr rest" "out = o1 @ rest"
      using 2(3) by (auto simp: kbind_eq_Inr simp del: convert.simps)
    from convert_width [OF *(1)] 2(1) [OF _ 4(1,2,3) *(1) refl *(2)] 4 * show ?thesis
      by (simp del: convert.simps)
  next
    case 5
    then obtain rest where "vsprintf_text fmt args = Inr rest" "out = c # rest" using 2(3) by (auto simp: kbind_eq_Inr)
    with 2(2) [OF 5] 5(2) show ?thesis by simp
  qed (use 2(3) in auto)
qed simp

lemma vprintf_buf_fits:
  assumes "vsprintf_text fmt args = Inr out" "format_width fmt args < BUF_LEN"
  shows "vprintf_buf fmt args = Inr (out @ [CHR 0x00])"
  using vsprintf_width [OF assms(1)] assms by (simp add: vprintf_buf_def vsprintf_def)

lemma vprintf_buf_exists:
  "\<exists>out. vsprintf_text fmt args = Inr out \<Longrightarrow> format_width fmt args < 512 \<Longrightarrow> \<exists>buf. vprintf_buf fmt args = Inr buf"
  using vprintf_buf_fits by (auto simp: BUF_LEN_def)

lemma vsprintf_text_pieces:
  "list_all piece_ok xs \<Longrightarrow> vsprintf_text (concat (map piece_format xs)) (concat (map piece_args xs)) =
    Inr (concat (map piece_text xs))"
proof (induction xs)
  case (Cons x xs)
  show ?case
  proof (cases "\<exists>t. x = Plain t")
    case True
    with Cons show ?thesis
      by (auto simp: piece_ok_def piece_format_def piece_args_def piece_text_def vsprintf_plain)
  next
    case False
    with Cons.prems convert_piece [of x "concat (map piece_args xs)"] obtain f where
      "piece_format x = [CHR ''%'', f]" "f \<noteq> CHR 0x00"
      and "convert f (piece_args x @ concat (map piece_args xs)) =
        Inr (piece_text x, concat (map piece_args xs))" by auto
    with Cons show ?thesis by (simp del: convert.simps)
  qed
qed simp

lemma cstring_of_digits [simp]:
  "cstring_of (dec_text n @ r) = dec_text n @ cstring_of r" "cstring_of (hex_text n @ r) = hex_text n @ cstring_of r"
  using dec_text_no_nul hex_text_no_nul by (simp_all add: cstring_of_def takeWhile_append2)

text \<open>C33. \<open>vsprintf\<close> interprets a format made of plain text and conversions: given the arguments the
  conversions call for, it never reads past them, writes the texts of the pieces in order, and
  returns the number of bytes it wrote in front of the closing NUL.\<close>

theorem vsprintf_pieces:
  assumes "list_all piece_ok xs"
  shows "vsprintf (concat (map piece_format xs)) (concat (map piece_args xs)) =
    Inr (concat (map piece_text xs) @ [CHR 0x00], length (concat (map piece_text xs)))"
  using vsprintf_text_pieces [OF assms] by (simp add: vsprintf_def)

theorem vsprintf_pieces_witness:
  "vsprintf ''n=%d s=%s'' [VInt (- 7), VStr ''ok''] =
    Inr (concat (map piece_text [Plain ''n='', Signed (- 7), Plain '' s='', Str ''ok'']) @ [CHR 0x00],
      length (concat (map piece_text [Plain ''n='', Signed (- 7), Plain '' s='', Str ''ok''])))"
  using vsprintf_pieces [of "[Plain ''n='', Signed (- 7), Plain '' s='', Str ''ok'']"]
  by (simp add: piece_ok_def piece_format_def piece_args_def)

end
