(* ===== verification/Machine.thy ===== *)
theory Machine
  imports Printf
begin

text \<open>
  The machine the kernel talks to: the bytes it writes to I/O ports (in program order), the
  interrupt flag of EFLAGS, and the messages it sends to the console through \<open>printf\<close> and
  \<open>worry\<close>. Every file with static variables extends this record with its own; the functions of
  a file are polymorphic in the later extensions, so they act on the whole kernel state.

  \<open>asm_ioport_outb\<close>, \<open>sti\<close>, \<open>cli\<close> and the EFLAGS read are assembly; they appear here as the
  record updates they perform on this state.
\<close>

datatype console_msg = Printed string | Worried string

record machine =
  out_log :: "(u16 \<times> u8) list"
  con_log :: "console_msg list"
  if_flag :: bool

definition ioport_outb :: "u16 \<Rightarrow> u8 \<Rightarrow> 'a machine_scheme \<Rightarrow> 'a machine_scheme" where
  "ioport_outb port val s = s\<lparr>out_log := out_log s @ [(port, val)]\<rparr>"

definition worry :: "string \<Rightarrow> 'a machine_scheme \<Rightarrow> 'a machine_scheme" where
  "worry msg s = s\<lparr>con_log := con_log s @ [Worried msg]\<rparr>"

definition worry_if :: "bool \<Rightarrow> string \<Rightarrow> 'a machine_scheme \<Rightarrow> 'a machine_scheme" where
  "worry_if c msg s = (if c then worry msg s else s)"

definition printf :: "string \<Rightarrow> varg list \<Rightarrow> 'a machine_scheme \<Rightarrow> ('a machine_scheme) kres" where
  "printf fmt args s = kbind (vprintf_buf fmt args) (\<lambda>buf. Inr (s\<lparr>con_log := con_log s @ [Printed (cstring_of buf)]\<rparr>))"

lemma printf_prints:
  assumes "\<exists>out. vsprintf_text fmt args = Inr out" "format_width fmt args < 512"
  shows "\<exists>msg. printf fmt args s = Inr (s\<lparr>con_log := con_log s @ [Printed msg]\<rparr>)"
  using vprintf_buf_exists [OF assms] by (auto simp: printf_def)

section \<open>Interrupt flag (\<open>int_enabled\<close>, \<open>int_enable\<close>, \<open>int_disable\<close>)\<close>

definition int_enabled :: "'a machine_scheme \<Rightarrow> bool" where
  "int_enabled s = if_flag s"

definition int_enable :: "'a machine_scheme \<Rightarrow> ('a machine_scheme) kres" where
  "int_enable s = kbind (kassert (\<not> int_enabled s) ''!int_enabled()'') (\<lambda>_. Inr (s\<lparr>if_flag := True\<rparr>))"

definition int_disable :: "'a machine_scheme \<Rightarrow> ('a machine_scheme) kres" where
  "int_disable s = kbind (kassert (int_enabled s) ''int_enabled()'') (\<lambda>_. Inr (s\<lparr>if_flag := False\<rparr>))"

section \<open>Reading the port log\<close>

text \<open>The last byte written to a port: what a write-only device register holds.\<close>

definition last_out :: "u16 \<Rightarrow> (u16 \<times> u8) list \<Rightarrow> u8 option" where
  "last_out port log = map_of (rev log) port"

lemma last_out_snoc [simp]:
  "last_out p (log @ [(q, v)]) = (if p = q then Some v else last_out p log)"
  by (simp add: last_out_def)

lemma last_out_Nil [simp]: "last_out p [] = None"
  by (simp add: last_out_def)

lemma out_log_worry [simp]: "out_log (worry msg s) = out_log s"
  by (simp add: worry_def)

end
