(* ===== verification/IrqMask.thy ===== *)
theory IrqMask
  imports Machine
begin

text \<open>
  The IRQ masks of \<open>kernel/arch/i386/interrupt.c\<close> and the critical regions of
  \<open>kernel/include/kernel/interrupt.h\<close>, which mask the timer IRQ: the cached \<open>irq_mask\<close>, its
  synchronisation with the two interrupt controllers, and the contract that the other drivers
  rely on, as the locale \<open>critical_region\<close>.
\<close>

record pic = machine +
  irq_mask :: u16

definition PIC_MASTER_CMD :: u16 where "PIC_MASTER_CMD = 0x20"
definition PIC_MASTER_DATA :: u16 where "PIC_MASTER_DATA = PIC_MASTER_CMD + 1"
definition PIC_SLAVE_CMD :: u16 where "PIC_SLAVE_CMD = 0xA0"
definition PIC_SLAVE_DATA :: u16 where "PIC_SLAVE_DATA = PIC_SLAVE_CMD + 1"

lemmas pic_ports = PIC_MASTER_CMD_def PIC_MASTER_DATA_def PIC_SLAVE_CMD_def PIC_SLAVE_DATA_def

definition VALID_IRQ :: "u8 \<Rightarrow> bool" where "VALID_IRQ irq \<longleftrightarrow> irq < 16"
definition IRQ_PIT :: u8 where "IRQ_PIT = 0"
definition IRQ_KBD :: u8 where "IRQ_KBD = 1"

definition IRQ_MASK_MASTER :: "u16 \<Rightarrow> u8" where "IRQ_MASK_MASTER m = ucast (m AND 0xFF)"
definition IRQ_MASK_SLAVE :: "u16 \<Rightarrow> u8" where "IRQ_MASK_SLAVE m = ucast (drop_bit 8 m AND 0xFF)"

definition irq_bit :: "u8 \<Rightarrow> u16" where "irq_bit irq = push_bit (unat irq) 1"

section \<open>Operations\<close>

definition set_raw_mask :: "u16 \<Rightarrow> 'a pic_scheme \<Rightarrow> 'a pic_scheme" where
  "set_raw_mask msk s =
     (if irq_mask s = msk then s
      else
        (let master_mask = IRQ_MASK_MASTER msk; slave_mask = IRQ_MASK_SLAVE msk;
             s1 = (if master_mask \<noteq> IRQ_MASK_MASTER (irq_mask s)
                   then ioport_outb PIC_MASTER_DATA master_mask s else s);
             s2 = (if slave_mask \<noteq> IRQ_MASK_SLAVE (irq_mask s)
                   then ioport_outb PIC_SLAVE_DATA slave_mask s1 else s1)
         in s2\<lparr>irq_mask := msk\<rparr>))"

definition int_mask_irq :: "u8 \<Rightarrow> 'a pic_scheme \<Rightarrow> (bool \<times> 'a pic_scheme) kres" where
  "int_mask_irq irq s =
     kbind (kassert (VALID_IRQ irq) ''VALID_IRQ(irq)'') (\<lambda>_.
     kbind (kassert (irq \<noteq> 2) ''irq != 2'') (\<lambda>_.
     (if irq_mask s AND irq_bit irq \<noteq> 0 then
        kbind (sprintf (''masking already masked IRQ %u'' @ [CHR 0x0A]) [VInt (ucast irq)]) (\<lambda>buf.
        Inr (False, worry buf s))
      else Inr (True, set_raw_mask (irq_mask s OR irq_bit irq) s))))"

definition int_unmask_irq :: "u8 \<Rightarrow> 'a pic_scheme \<Rightarrow> (bool \<times> 'a pic_scheme) kres" where
  "int_unmask_irq irq s =
     kbind (kassert (VALID_IRQ irq) ''VALID_IRQ(irq)'') (\<lambda>_.
     kbind (kassert (irq \<noteq> 2) ''irq != 2'') (\<lambda>_.
     (if irq_mask s AND irq_bit irq = 0 then
        kbind (sprintf (''masking already masked IRQ %u'' @ [CHR 0x0A]) [VInt (ucast irq)]) (\<lambda>buf.
        Inr (False, worry buf s))
      else Inr (True, set_raw_mask (irq_mask s AND NOT (irq_bit irq)) s))))"

definition int_irq_enabled :: "u8 \<Rightarrow> 'a pic_scheme \<Rightarrow> bool kres" where
  "int_irq_enabled irq s =
     kbind (kassert (VALID_IRQ irq) ''VALID_IRQ(irq)'') (\<lambda>_. Inr (irq_mask s AND irq_bit irq = 0))"

text \<open>Entering and leaving a critical region: the timer IRQ is masked in between.\<close>

definition int_lock_region :: "'a pic_scheme \<Rightarrow> (bool \<times> 'a pic_scheme) kres" where
  "int_lock_region s =
     kbind (int_irq_enabled IRQ_PIT s) (\<lambda>lock.
     kbind (if lock then int_mask_irq IRQ_PIT s else Inr (False, s)) (\<lambda>(_, s').
     Inr (lock, s')))"

definition int_unlock_region :: "bool \<Rightarrow> 'a pic_scheme \<Rightarrow> ('a pic_scheme) kres" where
  "int_unlock_region lock s =
     (if lock then kbind (int_unmask_irq IRQ_PIT s) (\<lambda>(_, s'). Inr s') else Inr s)"

text \<open>Initialisation of the two controllers: the ICW sequence, then everything masked but the cascade.\<close>

definition remap_pic :: "'a pic_scheme \<Rightarrow> 'a pic_scheme" where
  "remap_pic s =
     (let s1 = ioport_outb PIC_MASTER_CMD 0x11 s; s2 = ioport_outb PIC_SLAVE_CMD 0x11 s1;
          s3 = ioport_outb PIC_MASTER_DATA 0x20 s2; s4 = ioport_outb PIC_SLAVE_DATA 0x28 s3;
          s5 = ioport_outb PIC_MASTER_DATA 0x04 s4; s6 = ioport_outb PIC_SLAVE_DATA 0x02 s5;
          s7 = ioport_outb PIC_MASTER_DATA 0x01 s6; s8 = ioport_outb PIC_SLAVE_DATA 0x01 s7;
          s9 = ioport_outb PIC_MASTER_DATA 0xFB s8; s10 = ioport_outb PIC_SLAVE_DATA 0xFF s9
      in s10\<lparr>irq_mask := 0xFFFB\<rparr>)"

section \<open>Which IRQs are masked\<close>

definition irq_enabled :: "u8 \<Rightarrow> 'a pic_scheme \<Rightarrow> bool" where
  "irq_enabled irq s \<longleftrightarrow> \<not> bit (irq_mask s) (unat irq)"

lemma and_irq_bit: "(m AND irq_bit irq = 0) \<longleftrightarrow> (unat irq < 16 \<longrightarrow> \<not> bit m (unat irq))"
  by (subst bit_eq_iff) (auto simp: irq_bit_def bit_simps)

lemma bit_irq_bit: "bit (irq_bit irq) n \<longleftrightarrow> n = unat irq \<and> n < 16"
  by (auto simp: irq_bit_def bit_simps)

lemma VALID_IRQ_unat: "VALID_IRQ irq \<longleftrightarrow> unat irq < 16"
  by (simp add: VALID_IRQ_def word_less_nat_alt)

lemma set_raw_mask_simps [simp]:
  "irq_mask (set_raw_mask m s) = m"
  "con_log (set_raw_mask m s) = con_log s"
  "if_flag (set_raw_mask m s) = if_flag s"
  "pic.more (set_raw_mask m s) = pic.more s"
  by (simp_all add: set_raw_mask_def ioport_outb_def Let_def)

lemma set_raw_mask_id [simp]: "set_raw_mask (irq_mask s) s = s"
  by (simp add: set_raw_mask_def)

lemma sprintf_irq: "\<exists>buf. sprintf (''masking already masked IRQ %u'' @ [CHR 0x0A]) [VInt v] = Inr buf"
  by (simp add: sprintf_def vsprintf_def zero_buf_def BUF_LEN_def ultoa_text)

lemma int_mask_irq_masks:
  assumes "VALID_IRQ irq" "irq \<noteq> 2" "irq_enabled irq s"
  shows "int_mask_irq irq s = Inr (True, set_raw_mask (irq_mask s OR irq_bit irq) s)"
  using assms by (simp add: int_mask_irq_def and_irq_bit VALID_IRQ_unat irq_enabled_def)

lemma int_unmask_irq_unmasks:
  assumes "VALID_IRQ irq" "irq \<noteq> 2" "\<not> irq_enabled irq s"
  shows "int_unmask_irq irq s = Inr (True, set_raw_mask (irq_mask s AND NOT (irq_bit irq)) s)"
  using assms by (simp add: int_unmask_irq_def and_irq_bit VALID_IRQ_unat irq_enabled_def)

lemma irq_bit_PIT: "irq_bit IRQ_PIT = 1" and valid_PIT: "VALID_IRQ IRQ_PIT" "IRQ_PIT \<noteq> 2"
  by (simp_all add: irq_bit_def IRQ_PIT_def VALID_IRQ_def)

text \<open>The state inside a critical region, and after leaving one.\<close>

definition locked :: "'a pic_scheme \<Rightarrow> 'a pic_scheme" where
  "locked s = (if irq_enabled IRQ_PIT s then set_raw_mask (irq_mask s OR 1) s else s)"

definition unlocked :: "bool \<Rightarrow> 'a pic_scheme \<Rightarrow> 'a pic_scheme" where
  "unlocked lock s = (if lock then set_raw_mask (irq_mask s AND NOT 1) s else s)"

lemma irq_enabled_locked [simp]: "\<not> irq_enabled IRQ_PIT (locked s)"
  by (auto simp: locked_def irq_enabled_def IRQ_PIT_def bit_simps)

lemma irq_enabled_unlocked [simp]:
  "\<not> irq_enabled IRQ_PIT s \<Longrightarrow> irq_enabled IRQ_PIT (unlocked lock s) = lock"
  by (auto simp: unlocked_def irq_enabled_def IRQ_PIT_def bit_simps)

lemma int_lock_region_eq: "int_lock_region s = Inr (irq_enabled IRQ_PIT s, locked s)"
proof -
  have "int_irq_enabled IRQ_PIT s = Inr (irq_enabled IRQ_PIT s)"
    using valid_PIT by (auto simp: int_irq_enabled_def and_irq_bit VALID_IRQ_unat irq_enabled_def)
  then show ?thesis
    using int_mask_irq_masks [OF valid_PIT, of s]
    by (simp add: int_lock_region_def locked_def irq_bit_PIT)
qed

lemma int_unlock_region_eq:
  "\<not> irq_enabled IRQ_PIT s \<Longrightarrow> int_unlock_region lock s = Inr (unlocked lock s)"
  using int_unmask_irq_unmasks [OF valid_PIT, of s]
  by (simp add: int_unlock_region_def unlocked_def irq_bit_PIT)

lemma irq_enabled_cong: "irq_mask s = irq_mask t \<Longrightarrow> irq_enabled irq s = irq_enabled irq t"
  by (simp add: irq_enabled_def)

lemma unlocked_mask:
  "irq_mask t = irq_mask (locked s) \<Longrightarrow> irq_mask (unlocked (irq_enabled IRQ_PIT s) t) = irq_mask s"
  by (auto simp: unlocked_def locked_def irq_enabled_def IRQ_PIT_def bit_simps
      intro!: bit_eqI intro: gr0I)

text \<open>A region whose code leaves the mask as it found it restores the mask.\<close>

lemma region_mask_restored:
  assumes "irq_mask t = irq_mask (locked s)"
  shows "int_unlock_region (irq_enabled IRQ_PIT s) t = Inr (unlocked (irq_enabled IRQ_PIT s) t)"
    and "irq_mask (unlocked (irq_enabled IRQ_PIT s) t) = irq_mask s"
proof -
  have "\<not> irq_enabled IRQ_PIT t"
    using irq_enabled_cong [OF assms] irq_enabled_locked by blast
  then show "int_unlock_region (irq_enabled IRQ_PIT s) t = Inr (unlocked (irq_enabled IRQ_PIT s) t)"
    by (rule int_unlock_region_eq)
qed (rule unlocked_mask [OF assms])

section \<open>Critical regions as an interface\<close>

text \<open>
  What the drivers rely on: entering returns whether the timer was enabled and disables it;
  leaving from a disabled state re-enables it exactly when told so.
\<close>

locale critical_region =
  fixes lock :: "'s \<Rightarrow> (bool \<times> 's) kres"
    and unlock :: "bool \<Rightarrow> 's \<Rightarrow> 's kres"
    and enabled :: "'s \<Rightarrow> bool"
  assumes lock_law: "\<exists>s'. lock s = Inr (enabled s, s') \<and> \<not> enabled s'"
    and unlock_law: "\<not> enabled s \<Longrightarrow> \<exists>s'. unlock b s = Inr s' \<and> (enabled s' \<longleftrightarrow> b)"
begin

lemma lock_cases:
  obtains s' where "lock s = Inr (enabled s, s')" and "\<not> enabled s'"
  using lock_law by blast

lemma region_balanced:
  assumes body: "\<And>t r t'. \<not> enabled t \<Longrightarrow> body t = Inr (r, t') \<Longrightarrow> \<not> enabled t'"
    and run: "kbind (lock s) (\<lambda>(l, s1). kbind (body s1) (\<lambda>(r, s2).
      kbind (unlock l s2) (\<lambda>s3. Inr (r, s3)))) = Inr (r, s')"
  shows "enabled s' = enabled s"
proof -
  obtain s1 where l: "lock s = Inr (enabled s, s1)" and d: "\<not> enabled s1" by (rule lock_cases)
  from run l obtain s2 where b: "body s1 = Inr (r, s2)" and u: "unlock (enabled s) s2 = Inr s'"
    by (auto simp: kbind_eq_Inr)
  from body [OF d b] unlock_law [of s2 "enabled s"] u show ?thesis by auto
qed

text \<open>A region nested in another one ends with the timer still disabled.\<close>

lemma region_nested:
  assumes body: "\<And>t r t'. \<not> enabled t \<Longrightarrow> body t = Inr (r, t') \<Longrightarrow> \<not> enabled t'"
    and "\<not> enabled s"
    and "kbind (lock s) (\<lambda>(l, s1). kbind (body s1) (\<lambda>(r, s2).
      kbind (unlock l s2) (\<lambda>s3. Inr (r, s3)))) = Inr (r, s')"
  shows "\<not> enabled s'"
  using region_balanced [OF body assms(3)] assms(2) by simp

end

interpretation pit_region: critical_region int_lock_region int_unlock_region "irq_enabled IRQ_PIT"
  by unfold_locales (auto simp: int_lock_region_eq int_unlock_region_eq)

section \<open>The cached mask and the controllers\<close>

text \<open>Both data ports last received the byte of the cached mask that belongs to them.\<close>

definition pic_synced :: "'a pic_scheme \<Rightarrow> bool" where
  "pic_synced s \<longleftrightarrow>
     last_out PIC_MASTER_DATA (out_log s) = Some (IRQ_MASK_MASTER (irq_mask s)) \<and>
     last_out PIC_SLAVE_DATA (out_log s) = Some (IRQ_MASK_SLAVE (irq_mask s))"

lemma pic_synced_set_raw_mask: "pic_synced s \<Longrightarrow> pic_synced (set_raw_mask m s)"
  by (auto simp: pic_synced_def set_raw_mask_def ioport_outb_def Let_def pic_ports)

lemma pic_synced_worry [simp]: "pic_synced (worry msg s) = pic_synced s"
  by (simp add: pic_synced_def worry_def)

lemma pic_synced_remap: "pic_synced (remap_pic s)"
  by (simp add: pic_synced_def remap_pic_def Let_def ioport_outb_def pic_ports IRQ_MASK_MASTER_def
      IRQ_MASK_SLAVE_def last_out_def)

text \<open>The calls other files make.\<close>

inductive pic_step :: "'a pic_scheme \<Rightarrow> 'a pic_scheme \<Rightarrow> bool" where
  mask: "int_mask_irq irq s = Inr (r, t) \<Longrightarrow> pic_step s t"
| unmask: "int_unmask_irq irq s = Inr (r, t) \<Longrightarrow> pic_step s t"
| lock: "int_lock_region s = Inr (r, t) \<Longrightarrow> pic_step s t"
| unlock: "int_unlock_region l s = Inr t \<Longrightarrow> pic_step s t"

inductive pic_reachable :: "'a pic_scheme \<Rightarrow> bool" where
  init: "pic_reachable (remap_pic s)"
| step: "pic_reachable s \<Longrightarrow> pic_step s t \<Longrightarrow> pic_reachable t"

definition cascade_open :: "'a pic_scheme \<Rightarrow> bool" where
  "cascade_open s \<longleftrightarrow> irq_enabled 2 s"

lemma int_mask_irq_result:
  "int_mask_irq irq s = Inr (r, t) \<Longrightarrow>
   irq \<noteq> 2 \<and> ((\<exists>msg. t = worry msg s) \<or> t = set_raw_mask (irq_mask s OR irq_bit irq) s)"
  by (auto simp: int_mask_irq_def kbind_eq_Inr split: if_splits)

lemma int_unmask_irq_result:
  "int_unmask_irq irq s = Inr (r, t) \<Longrightarrow>
   irq \<noteq> 2 \<and> ((\<exists>msg. t = worry msg s) \<or> t = set_raw_mask (irq_mask s AND NOT (irq_bit irq)) s)"
  by (auto simp: int_unmask_irq_def kbind_eq_Inr split: if_splits)

lemma pic_step_effect:
  assumes "pic_step s t"
  shows "t = s \<or> (\<exists>msg. t = worry msg s) \<or>
    (\<exists>irq. irq \<noteq> 2 \<and> (t = set_raw_mask (irq_mask s OR irq_bit irq) s \<or>
      t = set_raw_mask (irq_mask s AND NOT (irq_bit irq)) s))"
  using assms
proof cases
  case (mask irq r)
  then show ?thesis using int_mask_irq_result by blast
next
  case (unmask irq r)
  then show ?thesis using int_unmask_irq_result by blast
next
  case (lock r)
  then show ?thesis using valid_PIT irq_bit_PIT by (auto simp: int_lock_region_eq locked_def)
next
  case (unlock l)
  then show ?thesis
    using int_unmask_irq_result by (fastforce simp: int_unlock_region_def kbind_eq_Inr split: if_splits)
qed

section \<open>Properties\<close>

text \<open>C22. Whatever sequence of mask, unmask, lock and unlock calls follows the initialisation of the
  controllers, the mask registers of the two chips hold exactly the cached \<open>irq_mask\<close>, and the
  cascade line (IRQ 2) is never masked.\<close>

theorem pic_stays_synced:
  assumes "pic_reachable s"
  shows "pic_synced s \<and> cascade_open s"
  using assms
proof (induction rule: pic_reachable.induct)
  case (init s)
  have "cascade_open (remap_pic s)"
    by (simp add: cascade_open_def irq_enabled_def remap_pic_def Let_def)
  with pic_synced_remap show ?case by blast
next
  case (step s t)
  have "unat irq \<noteq> 2" if "irq \<noteq> 2" for irq :: u8
    using that by (simp add: word_unat_eq_iff)
  then have "irq_enabled 2 (set_raw_mask (irq_mask s OR irq_bit irq) s)"
    and "irq_enabled 2 (set_raw_mask (irq_mask s AND NOT (irq_bit irq)) s)" if "irq \<noteq> 2" for irq
    using that step.IH by (auto simp: cascade_open_def irq_enabled_def bit_simps bit_irq_bit)
  then have "cascade_open t"
    using pic_step_effect [OF step.hyps(2)] step.IH
    by (auto simp: cascade_open_def irq_enabled_def worry_def)
  moreover have "pic_synced t"
    using pic_step_effect [OF step.hyps(2)] step.IH by (auto intro: pic_synced_set_raw_mask)
  ultimately show ?case by simp
qed

definition pic_zero :: pic where
  "pic_zero = \<lparr>out_log = [], con_log = [], if_flag = False, irq_mask = 0\<rparr>"

theorem pic_stays_synced_witness:
  "pic_synced (unlocked True (locked (set_raw_mask 0xFFFA (remap_pic pic_zero)))) \<and>
   cascade_open (unlocked True (locked (set_raw_mask 0xFFFA (remap_pic pic_zero))))"
proof (rule pic_stays_synced)
  let ?s = "remap_pic pic_zero"
  have "irq_mask ?s = 0xFFFB" by (simp add: remap_pic_def Let_def)
  then have "int_unmask_irq IRQ_PIT ?s = Inr (True, set_raw_mask 0xFFFA ?s)"
    by (subst int_unmask_irq_unmasks) (simp_all add: VALID_IRQ_def irq_enabled_def IRQ_PIT_def irq_bit_def)
  then have 1: "pic_reachable (set_raw_mask 0xFFFA ?s)"
    by (blast intro: pic_reachable.intros pic_step.intros)
  then have 2: "pic_reachable (locked (set_raw_mask 0xFFFA ?s))"
    using int_lock_region_eq by (blast intro: pic_reachable.intros pic_step.intros)
  then show "pic_reachable (unlocked True (locked (set_raw_mask 0xFFFA ?s)))"
    using int_unlock_region_eq [OF irq_enabled_locked]
    by (blast intro: pic_reachable.intros pic_step.intros)
qed

text \<open>C21. A critical region is balanced: if the code inside leaves the timer IRQ masked, then after
  leaving the region the timer IRQ is masked exactly if it was masked before entering, so nested
  regions re-enable it only at the outermost exit.\<close>

theorem critical_region_balanced:
  fixes s s' :: "'a pic_scheme"
  assumes "\<And>t r t'. \<not> irq_enabled IRQ_PIT t \<Longrightarrow> body t = Inr (r, t') \<Longrightarrow> \<not> irq_enabled IRQ_PIT t'"
    and "kbind (int_lock_region s) (\<lambda>(l, s1). kbind (body s1) (\<lambda>(r, s2).
      kbind (int_unlock_region l s2) (\<lambda>s3. Inr (r, s3)))) = Inr (r, s')"
  shows "irq_enabled IRQ_PIT s' = irq_enabled IRQ_PIT s"
  using assms by (rule pit_region.region_balanced)

theorem critical_region_balanced_witness:
  "irq_enabled IRQ_PIT (unlocked (irq_enabled IRQ_PIT pic_zero) (locked pic_zero)) =
   irq_enabled IRQ_PIT pic_zero"
proof (rule critical_region_balanced [where body = "\<lambda>t. Inr ((), t)" and r = "()"])
  show "kbind (int_lock_region pic_zero) (\<lambda>(l, s1). kbind (Inr ((), s1)) (\<lambda>(r, s2).
      kbind (int_unlock_region l s2) (\<lambda>s3. Inr (r, s3)))) =
    Inr ((), unlocked (irq_enabled IRQ_PIT pic_zero) (locked pic_zero))"
    by (simp add: int_lock_region_eq int_unlock_region_eq)
qed auto

end
