(* ===== verification/Tty.thy ===== *)
theory Tty
  imports IrqMask
begin

text \<open>
  \<open>kernel/arch/i386/tty.c\<close> and the console output of \<open>klibc/stdio\<close> on top of it: a 24 by 80 text
  screen in video memory, its cursor, scrolling and the hardware cursor. Video memory is a map
  from the index into the \<open>uint16_t\<close> buffer to the cell; the buffer's address \<open>tty_buf\<close> only
  matters to \<open>tty_remap\<close> (theory \<open>Paging\<close>). Every function enters a critical region.
\<close>

record tty = pic +
  tty_buf :: u32
  vga :: "u32 \<Rightarrow> u16"
  tty_row :: u32
  tty_col :: u32
  tty_initialized :: bool

definition VGA_WIDTH :: u32 where "VGA_WIDTH = 80"
definition VGA_HEIGHT :: u32 where "VGA_HEIGHT = 24"

definition TTY_COLOR_SCREEN :: u8 where "TTY_COLOR_SCREEN = 0x1F"
definition TTY_COLOR_PANIC :: u8 where "TTY_COLOR_PANIC = 0x4F"
definition TTY_COLOR_WORRY :: u8 where "TTY_COLOR_WORRY = 0xE8"

lemmas tty_consts = VGA_WIDTH_def VGA_HEIGHT_def TTY_COLOR_SCREEN_def

lemma unat_vga [simp]: "unat VGA_WIDTH = 80" "unat VGA_HEIGHT = 24" "unat (VGA_WIDTH * VGA_HEIGHT) = 1920"
  by (simp_all add: tty_consts)

text \<open>A cell: the character in the low byte, the colours in the high byte.\<close>

definition encode_cell :: "u32 \<Rightarrow> u8 \<Rightarrow> u16" where
  "encode_cell c color = ucast c OR push_bit 8 (ucast color)"

definition clear_char :: u16 where
  "clear_char = encode_cell 0x20 TTY_COLOR_SCREEN"

section \<open>Local functions\<close>

definition update_cursor :: "'a tty_scheme \<Rightarrow> ('a tty_scheme) kres" where
  "update_cursor s =
     kbind (int_lock_region s) (\<lambda>(lock, s1).
     let current_location = (ucast (tty_row s1 * VGA_WIDTH + tty_col s1) :: u16);
         s2 = ioport_outb 0x3D4 14 s1;
         s3 = ioport_outb 0x3D5 (ucast (drop_bit 8 current_location)) s2;
         s4 = ioport_outb 0x3D4 15 s3;
         s5 = ioport_outb 0x3D5 (ucast current_location) s4
     in int_unlock_region lock s5)"

text \<open>The two loops of \<open>scroll\<close>: \<open>n\<close> iterations are left, \<open>line\<close> and \<open>x\<close> are the loop variables.\<close>

primrec scroll_copy :: "nat \<Rightarrow> u32 \<Rightarrow> (u32 \<Rightarrow> u16) \<Rightarrow> u32 \<Rightarrow> u16" where
  "scroll_copy 0 line buf = buf"
| "scroll_copy (Suc n) line buf = scroll_copy n (line + 1) (buf(line := buf (line + VGA_WIDTH)))"

primrec fill_line :: "nat \<Rightarrow> u32 \<Rightarrow> u32 \<Rightarrow> u16 \<Rightarrow> (u32 \<Rightarrow> u16) \<Rightarrow> u32 \<Rightarrow> u16" where
  "fill_line 0 base x cell buf = buf"
| "fill_line (Suc n) base x cell buf = fill_line n base (x + 1) cell (buf(base + x := cell))"

definition scroll :: "'a tty_scheme \<Rightarrow> ('a tty_scheme) kres" where
  "scroll s =
     kbind (int_lock_region s) (\<lambda>(lock, s1).
     let buf1 = scroll_copy (unat (VGA_WIDTH * VGA_HEIGHT)) 0 (vga s1);
         buf2 = fill_line (unat VGA_WIDTH) (VGA_WIDTH * (VGA_HEIGHT - 1)) 0 clear_char buf1;
         s2 = s1\<lparr>vga := buf2, tty_row := tty_row s1 - 1\<rparr>
     in int_unlock_region lock s2)"

section \<open>Public functions\<close>

primrec clear_rows :: "nat \<Rightarrow> u32 \<Rightarrow> (u32 \<Rightarrow> u16) \<Rightarrow> u32 \<Rightarrow> u16" where
  "clear_rows 0 y buf = buf"
| "clear_rows (Suc n) y buf =
     clear_rows n (y + 1) (fill_line (unat VGA_WIDTH) (y * VGA_WIDTH) 0 clear_char buf)"

definition tty_clear :: "'a tty_scheme \<Rightarrow> ('a tty_scheme) kres" where
  "tty_clear s =
     kbind (int_lock_region s) (\<lambda>(lock, s1).
     kbind (update_cursor (s1\<lparr>tty_col := 0, tty_row := 0\<rparr>)) (\<lambda>s2.
     int_unlock_region lock (s2\<lparr>vga := clear_rows (unat VGA_HEIGHT) 0 (vga s2)\<rparr>)))"

definition tty_init :: "'a tty_scheme \<Rightarrow> ('a tty_scheme) kres" where
  "tty_init s =
     (let s1 = worry_if (tty_initialized s) ''tty driver is already initialized'' s
      in kbind (tty_clear s1) (\<lambda>s2. Inr (s2\<lparr>tty_initialized := True\<rparr>)))"

text \<open>\<open>if (++tty_row == VGA_HEIGHT) scroll();\<close>\<close>

definition next_row :: "'a tty_scheme \<Rightarrow> ('a tty_scheme) kres" where
  "next_row s =
     (let s1 = s\<lparr>tty_row := tty_row s + 1\<rparr>
      in if tty_row s1 = VGA_HEIGHT then scroll s1 else Inr s1)"

definition tty_putchar_color :: "u32 \<Rightarrow> u8 \<Rightarrow> 'a tty_scheme \<Rightarrow> (u32 \<times> 'a tty_scheme) kres" where
  "tty_putchar_color c color s =
     kbind (int_lock_region s) (\<lambda>(lock, s1).
     let encoded_char = encode_cell c color in
     kbind
       (if c = 10 then next_row (s1\<lparr>tty_col := 0\<rparr>)
        else if c = 9 then
          (let s2 = s1\<lparr>tty_col := tty_col s1 + 4\<rparr>
           in if tty_col s2 \<ge> VGA_WIDTH then next_row (s2\<lparr>tty_col := 0\<rparr>) else Inr s2)
        else
          (let s2 = s1\<lparr>vga := (vga s1)(tty_row s1 * VGA_WIDTH + tty_col s1 := encoded_char)\<rparr>;
               s3 = s2\<lparr>tty_col := tty_col s2 + 1\<rparr>
           in if tty_col s3 = VGA_WIDTH then next_row (s3\<lparr>tty_col := 0\<rparr>) else Inr s3)) (\<lambda>s4.
     kbind (update_cursor s4) (\<lambda>s5.
     kbind (int_unlock_region lock s5) (\<lambda>s6.
     Inr (c, s6)))))"

definition tty_putchar :: "u32 \<Rightarrow> 'a tty_scheme \<Rightarrow> (u32 \<times> 'a tty_scheme) kres" where
  "tty_putchar c s = tty_putchar_color c TTY_COLOR_SCREEN s"

text \<open>\<open>*counter\<close> is a signed \<open>char\<close>, promoted to \<open>int\<close>.\<close>

primrec puts_loop :: "string \<Rightarrow> u8 \<Rightarrow> 'a tty_scheme \<Rightarrow> ('a tty_scheme) kres" where
  "puts_loop [] color s = Inr s"
| "puts_loop (c # str) color s =
     kbind (tty_putchar_color (scast (byte_of c)) color s) (\<lambda>(_, s'). puts_loop str color s')"

text \<open>The string behind a pointer; \<open>None\<close> is the null pointer.\<close>

definition tty_puts_color :: "string option \<Rightarrow> u8 \<Rightarrow> bool \<Rightarrow> 'a tty_scheme \<Rightarrow> (nat \<times> 'a tty_scheme) kres" where
  "tty_puts_color str color newline s =
     kbind (int_lock_region s) (\<lambda>(lock, s1).
     kbind (kassert (str \<noteq> None) ''str != NULL'') (\<lambda>_.
     let text = cstring_of (the str) in
     kbind (puts_loop text color s1) (\<lambda>s2.
     kbind (if newline then kbind (tty_putchar_color 10 color s2) (\<lambda>(_, s3). Inr s3) else Inr s2) (\<lambda>s4.
     kbind (int_unlock_region lock s4) (\<lambda>s5.
     Inr (length text + (if newline then 1 else 0), s5))))))"

definition tty_puts :: "string option \<Rightarrow> bool \<Rightarrow> 'a tty_scheme \<Rightarrow> (nat \<times> 'a tty_scheme) kres" where
  "tty_puts str newline s = tty_puts_color str TTY_COLOR_SCREEN newline s"

section \<open>\<open>klibc/stdio\<close> on the terminal\<close>

definition putchar :: "u32 \<Rightarrow> 'a tty_scheme \<Rightarrow> (u32 \<times> 'a tty_scheme) kres" where
  "putchar ic s = tty_putchar ic s"

definition puts :: "string option \<Rightarrow> 'a tty_scheme \<Rightarrow> (nat \<times> 'a tty_scheme) kres" where
  "puts str s = tty_puts str True s"

definition vprintf :: "string \<Rightarrow> varg list \<Rightarrow> 'a tty_scheme \<Rightarrow> (nat \<times> 'a tty_scheme) kres" where
  "vprintf fmt args s =
     kbind (vprintf_buf fmt args) (\<lambda>buf. tty_puts (Some buf) False s)"

text \<open>\<open>printf\<close> on the terminal; the other components only need the text (theory \<open>Machine\<close>).\<close>

definition tty_printf :: "string \<Rightarrow> varg list \<Rightarrow> 'a tty_scheme \<Rightarrow> (nat \<times> 'a tty_scheme) kres" where
  "tty_printf fmt args s = vprintf fmt args s"

section \<open>Loops over video memory\<close>

lemma scroll_copy_nth:
  "l + n + 80 \<le> 4294967296 \<Longrightarrow> k < 4294967296 \<Longrightarrow>
   scroll_copy n (of_nat l) buf (of_nat k) =
   (if l \<le> k \<and> k < l + n then buf (of_nat (k + 80)) else buf (of_nat k))"
proof (induction n arbitrary: l buf)
  case (Suc n)
  have "of_nat k \<noteq> (of_nat l :: u32)" if "k \<noteq> l"
    using that Suc.prems by (simp add: u32_of_nat_inj)
  moreover have "of_nat (k + 80) \<noteq> (of_nat l :: u32)" if "l < k" "k < Suc (l + n)"
    using that Suc.prems by (subst u32_of_nat_inj) simp_all
  moreover have "scroll_copy n (of_nat (Suc l)) b (of_nat k) =
      (if Suc l \<le> k \<and> k < Suc l + n then b (of_nat (k + 80)) else b (of_nat k))" for b
    using Suc.prems by (intro Suc.IH) simp_all
  ultimately show ?case
    by (cases "k = l") (auto simp: VGA_WIDTH_def add_ac)
qed auto

lemma fill_line_nth:
  "b + x + n \<le> 4294967296 \<Longrightarrow> k < 4294967296 \<Longrightarrow>
   fill_line n (of_nat b) (of_nat x) cell buf (of_nat k) =
   (if b + x \<le> k \<and> k < b + x + n then cell else buf (of_nat k))"
proof (induction n arbitrary: x buf)
  case (Suc n)
  have "of_nat k \<noteq> (of_nat (b + x) :: u32)" if "k \<noteq> b + x"
    using that Suc.prems u32_of_nat_inj [of k "b + x"] by simp
  moreover have "fill_line n (of_nat b) (of_nat (Suc x)) cell f (of_nat k) =
      (if b + Suc x \<le> k \<and> k < b + Suc x + n then cell else f (of_nat k))" for f
    using Suc.prems by (intro Suc.IH) simp_all
  ultimately show ?case by (cases "k = b + x") (auto simp: add_ac)
qed auto

lemma clear_rows_nth:
  "80 * (y + n) \<le> 4294967296 \<Longrightarrow> k < 4294967296 \<Longrightarrow>
   clear_rows n (of_nat y) buf (of_nat k) =
   (if 80 * y \<le> k \<and> k < 80 * (y + n) then clear_char else buf (of_nat k))"
proof (induction n arbitrary: y buf)
  case (Suc n)
  have "fill_line 80 (of_nat y * VGA_WIDTH) 0 clear_char buf (of_nat k) =
      (if 80 * y \<le> k \<and> k < 80 * y + 80 then clear_char else buf (of_nat k))"
    using Suc.prems fill_line_nth [of "80 * y" 0 80 k clear_char buf]
    by (simp add: VGA_WIDTH_def mult.commute)
  moreover have "clear_rows n (of_nat (Suc y)) f (of_nat k) =
      (if 80 * Suc y \<le> k \<and> k < 80 * (Suc y + n) then clear_char else f (of_nat k))" for f
    using Suc.prems by (intro Suc.IH) simp_all
  ultimately show ?case by (auto simp: add.commute)
qed auto

section \<open>The screen as rows of cells\<close>

text \<open>The abstract terminal: 24 rows of 80 cells and a cursor, with list operations only.\<close>

record screen =
  rows :: "u16 list list"
  cur_row :: nat
  cur_col :: nat

definition blank_row :: "u16 list" where
  "blank_row = replicate 80 clear_char"

lemma blank_row_nth [simp]: "length blank_row = 80" "x < 80 \<Longrightarrow> blank_row ! x = clear_char"
  by (simp_all add: blank_row_def)

definition spec_next_row :: "screen \<Rightarrow> screen" where
  "spec_next_row t =
     (if cur_row t + 1 = 24 then t\<lparr>rows := tl (rows t) @ [blank_row], cur_col := 0\<rparr>
      else t\<lparr>cur_row := cur_row t + 1, cur_col := 0\<rparr>)"

definition spec_put :: "u16 \<Rightarrow> screen \<Rightarrow> screen" where
  "spec_put cell t =
     (let t' = t\<lparr>rows := (rows t)[cur_row t := (rows t ! cur_row t)[cur_col t := cell]],
                 cur_col := cur_col t + 1\<rparr>
      in if cur_col t' = 80 then spec_next_row t' else t')"

definition spec_char :: "u32 \<Rightarrow> u8 \<Rightarrow> screen \<Rightarrow> screen" where
  "spec_char c color t =
     (if c = 10 then spec_next_row t
      else if c = 9 then
        (if cur_col t + 4 \<ge> 80 then spec_next_row t else t\<lparr>cur_col := cur_col t + 4\<rparr>)
      else spec_put (encode_cell c color) t)"

text \<open>What the code's state shows.\<close>

definition screen_of :: "'a tty_scheme \<Rightarrow> screen" where
  "screen_of s =
     \<lparr>rows = map (\<lambda>r. map (\<lambda>x. vga s (of_nat (80 * r + x))) [0..<80]) [0..<24],
      cur_row = unat (tty_row s), cur_col = unat (tty_col s)\<rparr>"

definition tty_inv :: "'a tty_scheme \<Rightarrow> bool" where
  "tty_inv s \<longleftrightarrow> tty_row s < VGA_HEIGHT \<and> tty_col s < VGA_WIDTH"

lemma tty_inv_unat: "tty_inv s \<longleftrightarrow> unat (tty_row s) < 24 \<and> unat (tty_col s) < 80"
  by (simp add: tty_inv_def tty_consts word_less_nat_alt)

text \<open>Steps that leave the terminal and the IRQ mask alone.\<close>

definition tty_same :: "'a tty_scheme \<Rightarrow> 'a tty_scheme \<Rightarrow> bool" where
  "tty_same s t \<longleftrightarrow> vga t = vga s \<and> tty_row t = tty_row s \<and> tty_col t = tty_col s \<and> irq_mask t = irq_mask s"

lemma tty_set_raw_mask [simp]:
  "vga (set_raw_mask m s) = vga s" "tty_row (set_raw_mask m s) = tty_row s"
  "tty_col (set_raw_mask m s) = tty_col s" "tty_buf (set_raw_mask m s) = tty_buf s"
  by (simp_all add: set_raw_mask_def ioport_outb_def Let_def)

lemma tty_locked [simp]:
  "vga (locked s) = vga s" "tty_row (locked s) = tty_row s" "tty_col (locked s) = tty_col s"
  "tty_buf (locked s) = tty_buf s"
  by (simp_all add: locked_def)

lemma tty_unlocked [simp]:
  "vga (unlocked l s) = vga s" "tty_row (unlocked l s) = tty_row s" "tty_col (unlocked l s) = tty_col s"
  "tty_buf (unlocked l s) = tty_buf s"
  by (simp_all add: unlocked_def)

lemma update_cursor_same: "\<exists>t. update_cursor s = Inr t \<and> tty_same s t"
  by (simp add: update_cursor_def int_lock_region_eq Let_def ioport_outb_def region_mask_restored
      tty_same_def)

text \<open>Two abstract screens with cells given by a function of the cell number.\<close>

definition grid :: "(nat \<Rightarrow> u16) \<Rightarrow> u16 list list" where
  "grid f = map (\<lambda>r. map (\<lambda>x. f (80 * r + x)) [0..<80]) [0..<24]"

lemma screen_of_grid:
  "screen_of s = \<lparr>rows = grid (\<lambda>k. vga s (of_nat k)), cur_row = unat (tty_row s),
     cur_col = unat (tty_col s)\<rparr>"
  by (simp add: screen_of_def grid_def)

lemma grid_nth [simp]:
  "length (grid f) = 24"
  "r < 24 \<Longrightarrow> length (grid f ! r) = 80"
  "r < 24 \<Longrightarrow> x < 80 \<Longrightarrow> grid f ! r ! x = f (80 * r + x)"
  by (simp_all add: grid_def del: upt_rec_numeral)

lemma grid_eqI:
  assumes "length g = 24" and "\<And>r. r < 24 \<Longrightarrow> length (g ! r) = 80"
    and "\<And>r x. r < 24 \<Longrightarrow> x < 80 \<Longrightarrow> f (80 * r + x) = g ! r ! x"
  shows "grid f = g"
proof (rule nth_equalityI)
  fix r assume "r < length (grid f)"
  then have "r < 24" by simp
  with assms show "grid f ! r = g ! r" by (intro nth_equalityI) simp_all
qed (simp add: assms)

lemma grid_cong: "(\<And>k. k < 1920 \<Longrightarrow> f k = g k) \<Longrightarrow> grid f = grid g"
  by (rule grid_eqI) simp_all

lemma grid_update:
  assumes "r < 24" "c < 80"
  shows "grid (f(80 * r + c := v)) = (grid f)[r := (grid f ! r)[c := v]]"
proof (rule grid_eqI)
  fix i x :: nat assume ix: "i < 24" "x < 80"
  have "(80 * i + x) div 80 = i" "(80 * r + c) div 80 = r" using assms ix by simp_all
  then have "80 * i + x = 80 * r + c \<longleftrightarrow> i = r \<and> x = c" by (metis add_left_cancel)
  then show "(f(80 * r + c := v)) (80 * i + x) = (grid f)[r := (grid f ! r)[c := v]] ! i ! x"
    using assms ix by (cases "i = r") (auto simp: nth_list_update)
next
  fix i :: nat assume "i < 24"
  then show "length ((grid f)[r := (grid f ! r)[c := v]] ! i) = 80"
    using assms by (cases "i = r") simp_all
qed simp

lemma grid_scroll:
  "grid (\<lambda>k. if 1840 \<le> k \<and> k < 1920 then clear_char else f (k + 80)) = tl (grid f) @ [blank_row]"
proof -
  have row: "(tl (grid f) @ [blank_row]) ! r = (if r < 23 then grid f ! Suc r else blank_row)"
    if "r < 24" for r
    using that by (auto simp: nth_append nth_tl)
  show ?thesis
  proof (rule grid_eqI)
    fix r x :: nat assume "r < 24" "x < 80"
    then show "(if 1840 \<le> 80 * r + x \<and> 80 * r + x < 1920 then clear_char else f (80 * r + x + 80)) =
        (tl (grid f) @ [blank_row]) ! r ! x"
      by (cases "r < 23") (auto simp: row add_ac simp del: nth_append)
  qed (auto simp: row)
qed

lemma scroll_screen:
  "\<exists>t. scroll s = Inr t \<and> irq_mask t = irq_mask s \<and> tty_col t = tty_col s \<and>
     tty_row t = tty_row s - 1 \<and> rows (screen_of t) = tl (rows (screen_of s)) @ [blank_row] \<and>
     (\<forall>k. 1920 \<le> k \<longrightarrow> k < 4294967296 \<longrightarrow> vga t (of_nat k) = vga s (of_nat k))"
proof -
  define buf where "buf = fill_line 80 (VGA_WIDTH * (VGA_HEIGHT - 1)) 0 clear_char (scroll_copy 1920 0 (vga s))"
  have buf: "buf (of_nat k) =
      (if 1840 \<le> k \<and> k < 1920 then clear_char
       else if k < 1920 then vga s (of_nat (k + 80)) else vga s (of_nat k))" if "k < 4294967296" for k
    using that fill_line_nth [of 1840 0 80 k clear_char "scroll_copy 1920 0 (vga s)"]
      scroll_copy_nth [of 0 1920 k "vga s"]
    by (simp add: buf_def tty_consts)
  let ?t = "(locked s)\<lparr>vga := buf, tty_row := tty_row s - 1\<rparr>"
  have "scroll s = Inr (unlocked (irq_enabled IRQ_PIT s) ?t)"
    by (simp add: scroll_def int_lock_region_eq Let_def buf_def region_mask_restored)
  moreover have "grid (\<lambda>k. buf (of_nat k)) =
      grid (\<lambda>k. if 1840 \<le> k \<and> k < 1920 then clear_char else vga s (of_nat (k + 80)))"
    by (rule grid_cong) (simp add: buf)
  ultimately show ?thesis
    using grid_scroll [of "\<lambda>k. vga s (of_nat k)"]
    by (simp add: region_mask_restored screen_of_grid buf)
qed

lemma next_row_screen:
  assumes "unat (tty_row s) < 24" "tty_col s = 0"
  shows "\<exists>t. next_row s = Inr t \<and> irq_mask t = irq_mask s \<and> tty_inv t \<and>
    screen_of t = spec_next_row (screen_of s) \<and>
    (\<forall>k. 1920 \<le> k \<longrightarrow> k < 4294967296 \<longrightarrow> vga t (of_nat k) = vga s (of_nat k))"
proof -
  let ?s = "s\<lparr>tty_row := tty_row s + 1\<rparr>"
  have row: "unat (tty_row s + 1) = unat (tty_row s) + 1"
    using assms(1) by (subst u32_add_no_wrap) simp_all
  show ?thesis
  proof (cases "tty_row s + 1 = VGA_HEIGHT")
    case True
    then have "unat (tty_row s + 1) = 24" by simp
    with row have r: "unat (tty_row s) = 23" by simp
    moreover obtain t where "scroll ?s = Inr t" "irq_mask t = irq_mask s" "tty_col t = tty_col s"
      "tty_row t = tty_row s" "rows (screen_of t) = tl (rows (screen_of s)) @ [blank_row]"
      "\<forall>k. 1920 \<le> k \<longrightarrow> k < 4294967296 \<longrightarrow> vga t (of_nat k) = vga s (of_nat k)"
      using scroll_screen [of ?s] by (auto simp: screen_of_grid)
    ultimately show ?thesis
      using True assms(2) r
      by (auto simp: next_row_def spec_next_row_def tty_inv_unat screen_of_grid)
  next
    case False
    then have "unat (tty_row s) + 1 \<noteq> 24"
      using row unat_vga(2) by (metis word_unat_eq_iff)
    then show ?thesis
      using False assms row
      by (simp add: next_row_def Let_def spec_next_row_def tty_inv_unat screen_of_grid)
  qed
qed

text \<open>
  A step on the terminal as the drivers' callers see it: it succeeds, keeps the invariant and
  the IRQ mask, changes the screen as \<open>f\<close> says and touches no cell off the screen.
\<close>

definition tty_step :: "(screen \<Rightarrow> screen) \<Rightarrow> 'a tty_scheme \<Rightarrow> 'a tty_scheme \<Rightarrow> bool" where
  "tty_step f s t \<longleftrightarrow> tty_inv t \<and> irq_mask t = irq_mask s \<and> screen_of t = f (screen_of s) \<and>
     (\<forall>k. 1920 \<le> k \<longrightarrow> k < 4294967296 \<longrightarrow> vga t (of_nat k) = vga s (of_nat k))"

lemma tty_step_trans: "tty_step f s t \<Longrightarrow> tty_step g t u \<Longrightarrow> tty_step (g \<circ> f) s u"
  by (simp add: tty_step_def)

lemma screen_of_same: "tty_same s t \<Longrightarrow> screen_of t = screen_of s"
  by (simp add: tty_same_def screen_of_grid)

lemma tty_step_same: "tty_step f s t \<Longrightarrow> tty_same t u \<Longrightarrow> tty_step f s u"
  using screen_of_same [of t u] by (simp add: tty_step_def tty_same_def tty_inv_def)

lemma screen_of_region [simp]: "screen_of (locked s) = screen_of s" "screen_of (unlocked l s) = screen_of s"
  by (simp_all add: screen_of_grid)

lemma tty_inv_region [simp]: "tty_inv (locked s) = tty_inv s" "tty_inv (unlocked l s) = tty_inv s"
  by (simp_all add: tty_inv_def)

text \<open>Leaving the region in which a step ran.\<close>

lemma tty_step_unlock:
  assumes "tty_step f (locked s) t"
  shows "\<exists>u. int_unlock_region (irq_enabled IRQ_PIT s) t = Inr u \<and> tty_step f s u"
proof -
  from assms have "irq_mask t = irq_mask (locked s)" by (simp add: tty_step_def)
  from region_mask_restored [OF this] assms show ?thesis by (simp add: tty_step_def)
qed

lemma spec_put_screen:
  assumes "tty_inv s"
  shows "screen_of (s\<lparr>vga := (vga s)(tty_row s * VGA_WIDTH + tty_col s := cell), tty_col := tty_col s + 1\<rparr>) =
    (screen_of s)\<lparr>rows := (rows (screen_of s))[unat (tty_row s) :=
       (rows (screen_of s) ! unat (tty_row s))[unat (tty_col s) := cell]], cur_col := unat (tty_col s) + 1\<rparr>"
proof -
  let ?r = "unat (tty_row s)" and ?c = "unat (tty_col s)"
  have rc: "?r < 24" "?c < 80" using assms by (simp_all add: tty_inv_unat)
  have idx: "tty_row s * VGA_WIDTH + tty_col s = of_nat (80 * ?r + ?c)"
    by (simp add: VGA_WIDTH_def mult.commute)
  have "((vga s)(of_nat (80 * ?r + ?c) := cell)) (of_nat k) =
      ((\<lambda>k. vga s (of_nat k))(80 * ?r + ?c := cell)) k" if "k < 1920" for k
    using that rc u32_of_nat_inj [of k "80 * ?r + ?c"] by (simp del: of_nat_add of_nat_mult)
  then have "grid (\<lambda>k. ((vga s)(of_nat (80 * ?r + ?c) := cell)) (of_nat k)) =
      grid ((\<lambda>k. vga s (of_nat k))(80 * ?r + ?c := cell))" by (rule grid_cong)
  moreover have "unat (tty_col s + 1) = ?c + 1" using rc by (subst u32_add_no_wrap) simp_all
  ultimately show ?thesis
    unfolding idx screen_of_grid using rc by (simp add: grid_update del: of_nat_add of_nat_mult)
qed

lemma tty_cell_off_screen:
  assumes "tty_inv s" "1920 \<le> k" "k < 4294967296"
  shows "of_nat k \<noteq> tty_row s * VGA_WIDTH + tty_col s"
proof -
  let ?i = "80 * unat (tty_row s) + unat (tty_col s)"
  have "?i < 1920" using assms(1) by (simp add: tty_inv_unat)
  then have "of_nat k \<noteq> (of_nat ?i :: u32)" using assms u32_of_nat_inj [of k ?i] by simp
  then show ?thesis by (simp add: VGA_WIDTH_def mult.commute)
qed

text \<open>The three branches of the \<open>switch\<close>, before the cursor is updated.\<close>

lemma next_row_step:
  assumes "tty_inv s"
  shows "\<exists>t. next_row (s\<lparr>tty_col := 0\<rparr>) = Inr t \<and> tty_step spec_next_row s t"
proof -
  from assms next_row_screen [of "s\<lparr>tty_col := 0\<rparr>"] obtain t where
    "next_row (s\<lparr>tty_col := 0\<rparr>) = Inr t" "tty_inv t" "irq_mask t = irq_mask s"
    "screen_of t = spec_next_row (screen_of (s\<lparr>tty_col := 0\<rparr>))"
    "\<forall>k. 1920 \<le> k \<longrightarrow> k < 4294967296 \<longrightarrow> vga t (of_nat k) = vga s (of_nat k)"
    by (auto simp: tty_inv_unat)
  moreover have "spec_next_row (screen_of (s\<lparr>tty_col := 0\<rparr>)) = spec_next_row (screen_of s)"
    by (simp add: spec_next_row_def screen_of_grid)
  ultimately show ?thesis by (simp add: tty_step_def)
qed

lemma tab_step:
  assumes "tty_inv s"
  defines "s' \<equiv> s\<lparr>tty_col := tty_col s + 4\<rparr>"
  shows "\<exists>t. (if tty_col s' \<ge> VGA_WIDTH then next_row (s'\<lparr>tty_col := 0\<rparr>) else Inr s') = Inr t \<and>
    tty_step (spec_char 9 color) s t"
proof -
  have col: "unat (tty_col s + 4) = unat (tty_col s) + 4"
    using assms(1) by (subst u32_add_no_wrap) (simp_all add: tty_inv_unat)
  have ge: "tty_col s' \<ge> VGA_WIDTH \<longleftrightarrow> 80 \<le> unat (tty_col s) + 4"
    by (simp add: s'_def word_le_nat_alt col)
  show ?thesis
  proof (cases "80 \<le> unat (tty_col s) + 4")
    case True
    with next_row_step [OF assms(1)] ge show ?thesis
      by (auto simp: tty_step_def spec_char_def s'_def screen_of_grid)
  next
    case False
    with assms(1) ge col show ?thesis
      by (auto simp: tty_step_def spec_char_def s'_def screen_of_grid tty_inv_unat)
  qed
qed

lemma char_step:
  fixes s :: "'a tty_scheme" and color :: u8 and c :: u32
  assumes "tty_inv s" and "c \<noteq> 10" "c \<noteq> 9"
  defines "s' \<equiv> s\<lparr>vga := (vga s)(tty_row s * VGA_WIDTH + tty_col s := encode_cell c color),
    tty_col := tty_col s + 1\<rparr>"
  shows "\<exists>t. (if tty_col s' = VGA_WIDTH then next_row (s'\<lparr>tty_col := 0\<rparr>) else Inr s') = Inr t \<and>
    tty_step (spec_char c color) s t"
proof -
  have col: "unat (tty_col s + 1) = unat (tty_col s) + 1"
    using assms(1) by (subst u32_add_no_wrap) (simp_all add: tty_inv_unat)
  have eq: "tty_col s' = VGA_WIDTH \<longleftrightarrow> unat (tty_col s) + 1 = 80"
    using col by (simp add: s'_def word_unat_eq_iff)
  have put: "spec_char c color (screen_of s) = (if unat (tty_col s) + 1 = 80
      then spec_next_row (screen_of s') else screen_of s')"
    using assms(2,3) spec_put_screen [OF assms(1)]
    by (simp add: spec_char_def spec_put_def s'_def screen_of_grid)
  have off: "vga s' (of_nat k) = vga s (of_nat k)" if "1920 \<le> k" "k < 4294967296" for k
    using tty_cell_off_screen [OF assms(1) that] by (simp add: s'_def)
  show ?thesis
  proof (cases "unat (tty_col s) + 1 = 80")
    case True
    have row: "tty_inv (s'\<lparr>tty_col := 0\<rparr>)" using assms(1) by (simp add: s'_def tty_inv_unat)
    from next_row_step [OF row] obtain t where
      t: "next_row (s'\<lparr>tty_col := 0\<rparr>) = Inr t" "tty_step spec_next_row (s'\<lparr>tty_col := 0\<rparr>) t" by auto
    have "spec_next_row (screen_of (s'\<lparr>tty_col := 0\<rparr>)) = spec_next_row (screen_of s')"
      by (simp add: spec_next_row_def screen_of_grid)
    then have "tty_step (spec_char c color) s t"
      using t(2) off put True by (simp add: tty_step_def) (simp add: s'_def)
    with t(1) eq True show ?thesis by simp
  next
    case False
    with eq put off assms(1) col show ?thesis
      by (auto simp: tty_step_def) (auto simp: s'_def tty_inv_unat)
  qed
qed

lemma switch_step:
  assumes "tty_inv s"
  shows "\<exists>t. (if c = 10 then next_row (s\<lparr>tty_col := 0\<rparr>)
      else if c = 9 then
        (let s2 = s\<lparr>tty_col := tty_col s + 4\<rparr>
         in if tty_col s2 \<ge> VGA_WIDTH then next_row (s2\<lparr>tty_col := 0\<rparr>) else Inr s2)
      else
        (let s2 = s\<lparr>vga := (vga s)(tty_row s * VGA_WIDTH + tty_col s := encode_cell c color)\<rparr>;
             s3 = s2\<lparr>tty_col := tty_col s2 + 1\<rparr>
         in if tty_col s3 = VGA_WIDTH then next_row (s3\<lparr>tty_col := 0\<rparr>) else Inr s3)) = Inr t \<and>
    tty_step (spec_char c color) s t"
proof -
  consider "c = 10" | "c = 9" | "c \<noteq> 10" "c \<noteq> 9" by blast
  then show ?thesis
  proof cases
    case 1
    have "spec_char 10 color = spec_next_row" by (rule ext) (simp add: spec_char_def)
    with 1 next_row_step [OF assms] show ?thesis by simp
  next
    case 2
    with tab_step [OF assms] show ?thesis by (simp add: Let_def)
  next
    case 3
    with char_step [OF assms 3, of color] show ?thesis
      by (cases "tty_col s + 1 = VGA_WIDTH") (simp_all add: Let_def)
  qed
qed

lemma tty_putchar_color_step:
  assumes "tty_inv s"
  shows "\<exists>t. tty_putchar_color c color s = Inr (c, t) \<and> tty_step (spec_char c color) s t"
proof -
  have inv: "tty_inv (locked s)" using assms by simp
  obtain t where t: "(if c = 10 then next_row ((locked s)\<lparr>tty_col := 0\<rparr>)
      else if c = 9 then
        (let s2 = (locked s)\<lparr>tty_col := tty_col (locked s) + 4\<rparr>
         in if tty_col s2 \<ge> VGA_WIDTH then next_row (s2\<lparr>tty_col := 0\<rparr>) else Inr s2)
      else
        (let s2 = (locked s)\<lparr>vga := (vga (locked s))(tty_row (locked s) * VGA_WIDTH + tty_col (locked s)
               := encode_cell c color)\<rparr>;
             s3 = s2\<lparr>tty_col := tty_col s2 + 1\<rparr>
         in if tty_col s3 = VGA_WIDTH then next_row (s3\<lparr>tty_col := 0\<rparr>) else Inr s3)) = Inr t"
    and step: "tty_step (spec_char c color) (locked s) t"
    using switch_step [OF inv] by blast
  obtain u where u: "update_cursor t = Inr u" "tty_same t u" using update_cursor_same by blast
  from tty_step_unlock [OF tty_step_same [OF step u(2)]] obtain v where
    "int_unlock_region (irq_enabled IRQ_PIT s) u = Inr v" "tty_step (spec_char c color) s v" by blast
  with t u(1) show ?thesis
    unfolding tty_putchar_color_def int_lock_region_eq by (simp add: Let_def)
qed

section \<open>Strings\<close>

lemma puts_loop_step:
  "tty_inv s \<Longrightarrow> \<exists>t. puts_loop str color s = Inr t \<and>
     tty_step (fold (\<lambda>c. spec_char (scast (byte_of c)) color) str) s t"
proof (induction str arbitrary: s)
  case Nil
  then show ?case by (simp add: tty_step_def)
next
  case (Cons c str)
  from tty_putchar_color_step [OF Cons.prems] obtain t where
    t: "tty_putchar_color (scast (byte_of c)) color s = Inr (scast (byte_of c), t)"
    and st: "tty_step (spec_char (scast (byte_of c)) color) s t" by blast
  from st have "tty_inv t" by (simp add: tty_step_def)
  from Cons.IH [OF this] obtain u where "puts_loop str color t = Inr u"
    and "tty_step (fold (\<lambda>c. spec_char (scast (byte_of c)) color) str) t u" by blast
  with t st show ?case by (simp add: tty_step_def)
qed

text \<open>The abstract effect of a string: its characters one by one, then a line feed if asked for.\<close>

definition spec_puts :: "string \<Rightarrow> u8 \<Rightarrow> bool \<Rightarrow> screen \<Rightarrow> screen" where
  "spec_puts str color newline t =
     fold (\<lambda>c. spec_char (scast (byte_of c)) color) (cstring_of str @ (if newline then [CHR 0x0A] else [])) t"

text \<open>Video memory behind the last row.\<close>

definition off_screen_same :: "'a tty_scheme \<Rightarrow> 'a tty_scheme \<Rightarrow> bool" where
  "off_screen_same s t \<longleftrightarrow> (\<forall>k. 1920 \<le> k \<longrightarrow> k < 4294967296 \<longrightarrow> vga t (of_nat k) = vga s (of_nat k))"

lemma tty_puts_color_step:
  assumes "tty_inv s"
  shows "\<exists>t. tty_puts_color (Some str) color newline s =
      Inr (length (cstring_of str) + (if newline then 1 else 0), t) \<and>
    tty_inv t \<and> irq_mask t = irq_mask s \<and>
    screen_of t = spec_puts str color newline (screen_of s) \<and> off_screen_same s t"
proof -
  let ?f = "fold (\<lambda>c. spec_char (scast (byte_of c)) color) (cstring_of str)"
  have inv: "tty_inv (locked s)" using assms by simp
  from puts_loop_step [OF inv] obtain t where
    t: "puts_loop (cstring_of str) color (locked s) = Inr t" "tty_step ?f (locked s) t" by blast
  from t(2) have "tty_inv t" by (simp add: tty_step_def)
  from tty_putchar_color_step [OF this] obtain n where
    n: "tty_putchar_color 10 color t = Inr (10, n)" "tty_step (spec_char 10 color) t n" by blast
  define v where "v = (if newline then n else t)"
  have "tty_step (spec_puts str color newline) (locked s) v"
    using t(2) n(2) tty_step_trans [OF t(2) n(2)]
    by (cases newline) (auto simp: v_def spec_puts_def tty_step_def)
  from tty_step_unlock [OF this] obtain u where
    "int_unlock_region (irq_enabled IRQ_PIT s) v = Inr u" "tty_step (spec_puts str color newline) s u"
    by blast
  with t(1) n(1) show ?thesis
    by (cases newline) (simp_all add: tty_puts_color_def int_lock_region_eq tty_step_def v_def off_screen_same_def)
qed

lemma tty_cell_screen:
  assumes "tty_inv s" "rows (screen_of t) = rows u"
  shows "vga t (tty_row s * VGA_WIDTH + tty_col s) = rows u ! unat (tty_row s) ! unat (tty_col s)"
proof -
  have "unat (tty_row s) < 24" "unat (tty_col s) < 80" using assms(1) by (simp_all add: tty_inv_unat)
  then have "rows (screen_of t) ! unat (tty_row s) ! unat (tty_col s) =
      vga t (of_nat (80 * unat (tty_row s) + unat (tty_col s)))" by (simp add: screen_of_grid)
  with assms(2) show ?thesis by (simp add: VGA_WIDTH_def mult.commute)
qed

lemma encode_high:
  fixes b :: u8
  assumes "bit b 7"
  shows "encode_cell (scast b) color = 0xFF00 OR ucast b"
proof -
  have "(0xFF00 :: u16) = push_bit 8 (mask 8)" by (simp add: mask_eq_exp_minus_1 push_bit_eq_mult)
  then have hi: "bit (0xFF00 :: u16) n \<longleftrightarrow> 8 \<le> n \<and> n < 16" for n
    by (simp only: bit_simps) auto
  show ?thesis
  proof (rule bit_word_eqI)
    fix n :: nat assume "n < LENGTH(16)"
    moreover from assms have "n = 7 \<Longrightarrow> bit b n" by simp
    ultimately show "bit (encode_cell (scast b) color) n = bit (0xFF00 OR ucast b :: u16) n"
      using assms hi [of n] by (cases n "7 :: nat" rule: linorder_cases)
        (auto simp: encode_cell_def bit_simps min_def)
  qed
qed

section \<open>Properties\<close>

text \<open>C31. Writing a string to the terminal refines the abstract screen: for any cursor inside the
  24 by 80 screen \<open>tty_puts_color\<close> succeeds, the visible rows and the cursor become what writing the
  characters one after the other to the abstract screen gives (wrapping at the end of a line, tab
  stops, scrolling with a blank last row), the cursor stays inside the screen, the IRQ mask is as
  before, no cell of video memory outside the screen changes, and the result is the number of
  characters written.\<close>

theorem tty_puts_color_refines:
  assumes "tty_inv s"
  shows "\<exists>t. tty_puts_color (Some str) color newline s =
      Inr (length (cstring_of str) + (if newline then 1 else 0), t) \<and>
    tty_inv t \<and> irq_mask t = irq_mask s \<and>
    screen_of t = spec_puts str color newline (screen_of s) \<and> off_screen_same s t"
  using assms by (rule tty_puts_color_step)

definition tty_zero :: tty where
  "tty_zero = \<lparr>out_log = [], con_log = [], if_flag = False, irq_mask = 0, tty_buf = 0xB8000,
     vga = (\<lambda>_. 0), tty_row = 23, tty_col = 78, tty_initialized = True\<rparr>"

theorem tty_puts_color_refines_witness:
  "\<exists>t. tty_puts_color (Some ''abc'') TTY_COLOR_WORRY True tty_zero = Inr (4, t) \<and> tty_inv t"
  using tty_puts_color_refines [of tty_zero "''abc''" TTY_COLOR_WORRY True]
  by (auto simp: tty_zero_def tty_inv_def tty_consts cstring_of_def)

text \<open>\<open>tty_clear\<close> blanks every cell of the screen in the screen colours, puts the cursor into the
  top left corner, touches nothing outside the screen and leaves the IRQ mask as it was, whatever
  the state before.\<close>

theorem tty_clear_blanks:
  "\<exists>t. tty_clear s = Inr t \<and> irq_mask t = irq_mask s \<and>
     screen_of t = \<lparr>rows = replicate 24 blank_row, cur_row = 0, cur_col = 0\<rparr> \<and>
     off_screen_same s t"
proof -
  let ?s = "(locked s)\<lparr>tty_col := 0, tty_row := 0\<rparr>"
  obtain u where u: "update_cursor ?s = Inr u" "tty_same ?s u" using update_cursor_same by blast
  let ?t = "u\<lparr>vga := clear_rows 24 0 (vga u)\<rparr>"
  have cells: "clear_rows 24 0 (vga u) (of_nat k) = (if k < 1920 then clear_char else vga s (of_nat k))"
    if "k < 4294967296" for k
    using that u(2) clear_rows_nth [of 0 24 k "vga u"] by (simp add: tty_same_def)
  have "grid (\<lambda>k. clear_rows 24 0 (vga u) (of_nat k)) = grid (\<lambda>_. clear_char)"
    by (rule grid_cong) (simp add: cells)
  also have "\<dots> = replicate 24 blank_row" by (rule grid_eqI) simp_all
  finally have "grid (\<lambda>k. clear_rows 24 0 (vga u) (of_nat k)) = replicate 24 blank_row" .
  then have "screen_of ?t = \<lparr>rows = replicate 24 blank_row, cur_row = 0, cur_col = 0\<rparr>"
    using u(2) by (simp add: screen_of_grid tty_same_def)
  moreover have "irq_mask ?t = irq_mask (locked s)" using u(2) by (simp add: tty_same_def)
  ultimately show ?thesis
    using u(1) region_mask_restored [of ?t s]
    by (simp add: tty_clear_def int_lock_region_eq off_screen_same_def cells)
qed

text \<open>A character of a string is a signed \<open>char\<close>: a byte with the top bit set is sign-extended on
  its way into the cell, so on the screen it keeps its low byte but its colour byte is 0xFF
  whatever colour was asked for.\<close>

theorem high_char_loses_color:
  assumes "tty_inv s" and "bit (byte_of c) 7" and "unat (tty_col s) + 1 < 80"
  shows "\<exists>t. tty_puts_color (Some [c]) color False s = Inr (1, t) \<and>
    vga t (tty_row s * VGA_WIDTH + tty_col s) = 0xFF00 OR ucast (byte_of c)"
proof -
  have c: "scast (byte_of c) \<noteq> (10 :: u32)" "scast (byte_of c) \<noteq> (9 :: u32)" "c \<noteq> CHR 0x00"
    using assms(2) by (auto simp: bit_simps dest: arg_cong [where f = "\<lambda>w. bit w 7"])
  have rc: "unat (tty_row s) < 24" "unat (tty_col s) < 80" using assms(1) by (simp_all add: tty_inv_unat)
  from tty_puts_color_step [OF assms(1), of "[c]" color False] c(3) obtain t where
    t: "tty_puts_color (Some [c]) color False s = Inr (1, t)"
    "screen_of t = spec_puts [c] color False (screen_of s)" by (auto simp: cstring_of_def)
  with assms(3) c have "rows (screen_of t) = (rows (screen_of s))[unat (tty_row s) :=
      (rows (screen_of s) ! unat (tty_row s))[unat (tty_col s) := encode_cell (scast (byte_of c)) color]]"
    by (simp add: spec_puts_def spec_char_def spec_put_def cstring_of_def screen_of_grid)
  then have "vga t (tty_row s * VGA_WIDTH + tty_col s) = encode_cell (scast (byte_of c)) color"
    using tty_cell_screen [OF assms(1), of t "screen_of t"] rc by (simp add: screen_of_grid)
  with t(1) encode_high [OF assms(2)] show ?thesis by simp
qed

theorem high_char_loses_color_witness:
  "\<exists>t. tty_puts_color (Some [CHR 0xE9]) TTY_COLOR_PANIC False tty_zero = Inr (1, t) \<and>
     vga t (tty_row tty_zero * VGA_WIDTH + tty_col tty_zero) = 0xFF00 OR ucast (byte_of (CHR 0xE9))"
proof (rule high_char_loses_color)
  show "bit (byte_of (CHR 0xE9)) 7" by (simp add: of_char_def)
qed (simp_all add: tty_zero_def tty_inv_def tty_consts)

end
