(* ===== verification/Bitmap.thy ===== *)
theory Bitmap
  imports Tty
begin

text \<open>
  \<open>kernel/kernel/util/bitmap.c\<close> and \<open>kernel/include/kernel/util/bitmap.h\<close>: bitmaps over an array
  of 32-bit words. The three macros index the array without a check against \<open>word_count\<close>, so an
  index behind the array is \<open>Undefined\<close>. The locale \<open>number_pool\<close> is the contract of a bitmap as a
  set of taken numbers; the bitmap model is its instance.
\<close>

record bitmap =
  word_count :: u32
  bits :: "u32 list"
  bflags :: u8

definition BITMAP_FREE_STRUCT :: u8 where "BITMAP_FREE_STRUCT = push_bit 0 1"
definition BITMAP_FREE_NOTHING :: u8 where "BITMAP_FREE_NOTHING = push_bit 1 1"

definition BITS_PER_WORD :: u32 where "BITS_PER_WORD = 32"

section \<open>Operations\<close>

definition at_word :: "u32 \<Rightarrow> bitmap \<Rightarrow> u32 kres" where
  "at_word w b = (if unat w < length (bits b) then Inr (bits b ! unat w) else Inl (Undefined ''bits[]''))"

definition bit_flag :: "u32 \<Rightarrow> u32" where
  "bit_flag i = push_bit (unat (i mod BITS_PER_WORD)) 1"

definition bitmap_set_bit :: "u32 \<Rightarrow> bitmap \<Rightarrow> bitmap kres" where
  "bitmap_set_bit i b =
     kbind (at_word (i div BITS_PER_WORD) b) (\<lambda>w.
     Inr (b\<lparr>bits := (bits b)[unat (i div BITS_PER_WORD) := w OR bit_flag i]\<rparr>))"

definition bitmap_clear_bit :: "u32 \<Rightarrow> bitmap \<Rightarrow> bitmap kres" where
  "bitmap_clear_bit i b =
     kbind (at_word (i div BITS_PER_WORD) b) (\<lambda>w.
     Inr (b\<lparr>bits := (bits b)[unat (i div BITS_PER_WORD) := w AND NOT (bit_flag i)]\<rparr>))"

definition bitmap_test_bit :: "u32 \<Rightarrow> bitmap \<Rightarrow> bool kres" where
  "bitmap_test_bit i b =
     kbind (at_word (i div BITS_PER_WORD) b) (\<lambda>w. Inr (w AND bit_flag i \<noteq> 0))"

text \<open>The inner loop of \<open>bitmap_first_free\<close>: \<open>n\<close> bits of the word are left, the next one is \<open>k\<close>.\<close>

primrec first_free_bit :: "nat \<Rightarrow> u32 \<Rightarrow> u32 \<Rightarrow> u32 option" where
  "first_free_bit 0 k w = None"
| "first_free_bit (Suc n) k w =
     (if w AND push_bit (unat k) 1 = 0 then Some k else first_free_bit n (k + 1) w)"

primrec first_free_word :: "nat \<Rightarrow> u32 \<Rightarrow> bitmap \<Rightarrow> u32 kres" where
  "first_free_word 0 word b = Inr (- 1)"
| "first_free_word (Suc n) word b =
     kbind (at_word word b) (\<lambda>w.
     if w = - 1 then first_free_word n (word + 1) b
     else (case first_free_bit (unat BITS_PER_WORD) 0 w of
       Some k \<Rightarrow> Inr (word * BITS_PER_WORD + k)
     | None \<Rightarrow> first_free_word n (word + 1) b))"

definition bitmap_first_free :: "bitmap \<Rightarrow> u32 kres" where
  "bitmap_first_free b = first_free_word (unat (word_count b)) 0 b"

section \<open>A bitmap as a set of numbers\<close>

definition used :: "bitmap \<Rightarrow> nat set" where
  "used b = {i. i < 32 * length (bits b) \<and> bit (bits b ! (i div 32)) (i mod 32)}"

text \<open>The array holds at least \<open>word_count\<close> words and no bit number wraps.\<close>

definition bitmap_ok :: "bitmap \<Rightarrow> bool" where
  "bitmap_ok b \<longleftrightarrow> unat (word_count b) \<le> length (bits b) \<and> length (bits b) \<le> 134217727"

definition capacity :: "bitmap \<Rightarrow> nat" where
  "capacity b = 32 * length (bits b)"

definition searched :: "bitmap \<Rightarrow> nat" where
  "searched b = 32 * unat (word_count b)"

text \<open>
  The contract: a pool of numbers below \<open>cap\<close>, of which \<open>taken\<close> are in use. Taking, releasing and
  testing a number act on the set; the search looks through the numbers below \<open>lim\<close> and returns
  the least free one, or \<open>none\<close>.
\<close>

definition least_free :: "u32 \<Rightarrow> nat \<Rightarrow> nat set \<Rightarrow> u32 \<Rightarrow> bool" where
  "least_free none n T i \<longleftrightarrow>
     (if {..<n} \<subseteq> T then i = none
      else i \<noteq> none \<and> unat i < n \<and> unat i \<notin> T \<and> {..<unat i} \<subseteq> T)"

locale number_pool =
  fixes put :: "u32 \<Rightarrow> 'b \<Rightarrow> 'b kres"
    and del :: "u32 \<Rightarrow> 'b \<Rightarrow> 'b kres"
    and test :: "u32 \<Rightarrow> 'b \<Rightarrow> bool kres"
    and search :: "'b \<Rightarrow> u32 kres"
    and taken :: "'b \<Rightarrow> nat set"
    and cap :: "'b \<Rightarrow> nat"
    and lim :: "'b \<Rightarrow> nat"
    and ok :: "'b \<Rightarrow> bool"
    and none :: u32
  assumes put_law: "unat i < cap b \<Longrightarrow> \<exists>b'. put i b = Inr b' \<and> taken b' = insert (unat i) (taken b) \<and>
      cap b' = cap b \<and> lim b' = lim b \<and> (ok b' \<longleftrightarrow> ok b)"
    and del_law: "unat i < cap b \<Longrightarrow> \<exists>b'. del i b = Inr b' \<and> taken b' = taken b - {unat i} \<and>
      cap b' = cap b \<and> lim b' = lim b \<and> (ok b' \<longleftrightarrow> ok b)"
    and test_law: "unat i < cap b \<Longrightarrow> test i b = Inr (unat i \<in> taken b)"
    and search_law: "ok b \<Longrightarrow> \<exists>i. search b = Inr i \<and> least_free none (lim b) (taken b) i"
    and lim_cap: "ok b \<Longrightarrow> lim b \<le> cap b"
begin

text \<open>Searching and then taking the number found.\<close>

lemma search_put:
  assumes "ok b" and "\<not> {..<lim b} \<subseteq> taken b"
  shows "\<exists>i b'. search b = Inr i \<and> i \<noteq> none \<and> put i b = Inr b' \<and> ok b' \<and>
    unat i < lim b \<and> unat i \<notin> taken b \<and> {..<unat i} \<subseteq> taken b \<and>
    taken b' = insert (unat i) (taken b) \<and> cap b' = cap b \<and> lim b' = lim b"
proof -
  from search_law [OF assms(1)] assms(2) obtain i where
    i: "search b = Inr i" "i \<noteq> none" "unat i < lim b" "unat i \<notin> taken b" "{..<unat i} \<subseteq> taken b"
    by (auto simp: least_free_def)
  with lim_cap [OF assms(1)] have "unat i < cap b" by linarith
  from put_law [OF this] assms(1) i show ?thesis by auto
qed

lemma search_none:
  assumes "ok b" and "{..<lim b} \<subseteq> taken b"
  shows "search b = Inr none"
  using search_law [OF assms(1)] assms(2) by (auto simp: least_free_def)

lemma put_del:
  assumes "unat i < cap b" and "unat i \<notin> taken b"
  shows "\<exists>b' b''. put i b = Inr b' \<and> del i b' = Inr b'' \<and> taken b'' = taken b"
proof -
  from put_law [OF assms(1)] obtain b' where
    b': "put i b = Inr b'" "taken b' = insert (unat i) (taken b)" "cap b' = cap b" by auto
  with assms(1) have "unat i < cap b'" by simp
  from del_law [OF this] obtain b'' where "del i b' = Inr b''" "taken b'' = taken b' - {unat i}" by auto
  with b' assms(2) show ?thesis by auto
qed

end

section \<open>The bitmap model satisfies the contract\<close>

lemma bit_flag_iff: "bit (bit_flag i) n \<longleftrightarrow> n = unat i mod 32"
  by (auto simp: bit_flag_def bit_simps BITS_PER_WORD_def unat_mod)

lemma and_bit_flag: "w AND bit_flag i \<noteq> 0 \<longleftrightarrow> bit w (unat i mod 32)"
  by (subst bit_eq_iff) (auto simp: bit_simps bit_flag_iff)

lemma unat_div_BITS: "unat (i div BITS_PER_WORD) = unat i div 32"
  by (simp add: BITS_PER_WORD_def unat_div)

lemma at_word_eq:
  "unat i < capacity b \<Longrightarrow> at_word (i div BITS_PER_WORD) b = Inr (bits b ! (unat i div 32))"
  by (auto simp: at_word_def unat_div_BITS capacity_def)

text \<open>Replacing one word of the array.\<close>

lemma used_update:
  "k < length (bits b) \<Longrightarrow> used (b\<lparr>bits := (bits b)[k := w]\<rparr>) =
    {i. i < 32 * length (bits b) \<and> bit (if i div 32 = k then w else bits b ! (i div 32)) (i mod 32)}"
  by (auto simp: used_def nth_list_update)

lemma div_mod_32: "(i :: nat) div 32 = j div 32 \<Longrightarrow> i mod 32 = j mod 32 \<longleftrightarrow> i = j"
  by (metis div_mult_mod_eq)

lemma bitmap_set_law:
  assumes "unat i < capacity b"
  shows "\<exists>b'. bitmap_set_bit i b = Inr b' \<and> used b' = insert (unat i) (used b) \<and>
    capacity b' = capacity b \<and> searched b' = searched b \<and> (bitmap_ok b' \<longleftrightarrow> bitmap_ok b)"
proof -
  have k: "unat i div 32 < length (bits b)" using assms by (auto simp: capacity_def)
  have "used (b\<lparr>bits := (bits b)[unat i div 32 := bits b ! (unat i div 32) OR bit_flag i]\<rparr>) =
      insert (unat i) (used b)"
    unfolding used_update [OF k] using assms
    by (auto simp: used_def bit_simps bit_flag_iff capacity_def dest: div_mod_32)
  then show ?thesis
    by (simp add: bitmap_set_bit_def at_word_eq [OF assms] unat_div_BITS capacity_def searched_def
        bitmap_ok_def)
qed

lemma bitmap_clear_law:
  assumes "unat i < capacity b"
  shows "\<exists>b'. bitmap_clear_bit i b = Inr b' \<and> used b' = used b - {unat i} \<and>
    capacity b' = capacity b \<and> searched b' = searched b \<and> (bitmap_ok b' \<longleftrightarrow> bitmap_ok b)"
proof -
  have k: "unat i div 32 < length (bits b)" using assms by (auto simp: capacity_def)
  have "used (b\<lparr>bits := (bits b)[unat i div 32 := bits b ! (unat i div 32) AND NOT (bit_flag i)]\<rparr>) =
      used b - {unat i}"
    unfolding used_update [OF k] using assms
    by (auto simp: used_def bit_simps bit_flag_iff capacity_def dest: div_mod_32)
  then show ?thesis
    by (simp add: bitmap_clear_bit_def at_word_eq [OF assms] unat_div_BITS capacity_def searched_def
        bitmap_ok_def)
qed

lemma bitmap_test_law: "unat i < capacity b \<Longrightarrow> bitmap_test_bit i b = Inr (unat i \<in> used b)"
  by (simp add: bitmap_test_bit_def at_word_eq and_bit_flag) (simp add: used_def capacity_def)

lemma first_free_bit_spec:
  "k + n \<le> 32 \<Longrightarrow>
   (case first_free_bit n (of_nat k) w of
      None \<Rightarrow> \<forall>j. k \<le> j \<longrightarrow> j < k + n \<longrightarrow> bit w j
    | Some m \<Rightarrow> k \<le> unat m \<and> unat m < k + n \<and> \<not> bit w (unat m) \<and>
        (\<forall>j. k \<le> j \<longrightarrow> j < unat m \<longrightarrow> bit w j))"
proof (induction n arbitrary: k)
  case (Suc n)
  have k: "unat (of_nat k :: u32) = k" using Suc.prems by (intro unat_of_nat_u32) simp
  have test: "w AND push_bit k 1 = 0 \<longleftrightarrow> \<not> bit w k"
  proof -
    have "bit (w AND push_bit k 1) n \<longleftrightarrow> n = k \<and> bit w k" for n
      using Suc.prems by (auto simp: bit_simps)
    then show ?thesis using Suc.prems by (subst bit_eq_iff) auto
  qed
  show ?case
  proof (cases "bit w k")
    case True
    have "j = k \<or> Suc k \<le> j" if "k \<le> j" for j using that by auto
    with True test k Suc.IH [of "Suc k"] Suc.prems show ?thesis
      by (fastforce split: option.splits simp: add.commute)
  qed (use k test in auto)
qed simp

lemma below_Suc_word:
  assumes "v < length (bits b)" "{..<32 * v} \<subseteq> used b" "\<And>j. j < 32 \<Longrightarrow> bit (bits b ! v) j"
  shows "{..<32 * Suc v} \<subseteq> used b"
proof
  fix i assume i: "i \<in> {..<32 * Suc v}"
  show "i \<in> used b"
  proof (cases "i < 32 * v")
    case False
    with i have "i div 32 = v" by auto
    with assms(1) assms(3) [of "i mod 32"] i show ?thesis by (auto simp: used_def)
  qed (use assms(2) in auto)
qed

lemma used_word: "v < length (bits b) \<Longrightarrow> j < 32 \<Longrightarrow> 32 * v + j \<in> used b \<longleftrightarrow> bit (bits b ! v) j"
  by (auto simp: used_def)

lemma first_free_word_spec:
  assumes "bitmap_ok b"
  shows "v + n \<le> length (bits b) \<Longrightarrow> {..<32 * v} \<subseteq> used b \<Longrightarrow>
   \<exists>i. first_free_word n (of_nat v) b = Inr i \<and> least_free (- 1) (32 * (v + n)) (used b) i"
proof (induction n arbitrary: v)
  case (Suc n)
  from Suc.prems assms have v: "v < length (bits b)" "v < 134217727" by (auto simp: bitmap_ok_def)
  then have uv: "unat (of_nat v :: u32) = v" by (intro unat_of_nat_u32) simp
  let ?w = "bits b ! v"
  have next_word: "\<exists>i. first_free_word n (of_nat v + 1) b = Inr i \<and>
      least_free (- 1) (32 * (v + Suc n)) (used b) i" if "\<And>j. j < 32 \<Longrightarrow> bit ?w j"
    using Suc.IH [of "Suc v"] Suc.prems below_Suc_word [OF v(1) Suc.prems(2) that] by (simp add: add.commute)
  show ?case
  proof (cases "first_free_bit 32 0 ?w")
    case None
    with first_free_bit_spec [of 0 32 "bits b ! v"] have "bit ?w j" if "j < 32" for j using that by simp
    from next_word [OF this] show ?thesis
      using v uv None by (simp add: at_word_def BITS_PER_WORD_def)
  next
    case (Some m)
    with first_free_bit_spec [of 0 32 ?w] have m: "unat m < 32" "\<not> bit ?w (unat m)"
      "\<And>j. j < unat m \<Longrightarrow> bit ?w j" by auto
    let ?i = "of_nat v * BITS_PER_WORD + m"
    have "unat (of_nat v * BITS_PER_WORD :: u32) = 32 * v"
      using v uv by (simp add: unat_word_ariths BITS_PER_WORD_def)
    then have ui: "unat ?i = 32 * v + unat m" using v m(1) by (subst u32_add_no_wrap) simp_all
    have "?w \<noteq> - 1" using m(1,2) by auto
    then have "first_free_word (Suc n) (of_nat v) b = Inr ?i"
      using v uv Some by (simp add: at_word_def BITS_PER_WORD_def)
    moreover have "unat ?i \<notin> used b" unfolding ui using used_word [OF v(1) m(1)] m(2) by simp
    moreover have "{..<unat ?i} \<subseteq> used b"
    proof
      fix k assume k: "k \<in> {..<unat ?i}"
      show "k \<in> used b"
      proof (cases "k < 32 * v")
        case False
        then have "k = 32 * v + (k - 32 * v)" by simp
        with used_word [OF v(1), of "k - 32 * v"] m k ui show ?thesis by simp
      qed (use Suc.prems in auto)
    qed
    moreover have "?i \<noteq> - 1"
    proof
      assume "?i = - 1"
      then have "unat ?i = 4294967295" by (metis unat_minus_one_u32)
      with ui v m(1) show False by simp
    qed
    moreover have "unat ?i < 32 * (v + Suc n)" unfolding ui using m(1) by simp
    ultimately show ?thesis by (auto simp: least_free_def)
  qed
qed (simp add: least_free_def)

interpretation bm: number_pool bitmap_set_bit bitmap_clear_bit bitmap_test_bit bitmap_first_free
  used capacity searched bitmap_ok "- 1"
proof unfold_locales
  fix b assume "bitmap_ok b"
  then show "\<exists>i. bitmap_first_free b = Inr i \<and> least_free (- 1) (searched b) (used b) i"
    using first_free_word_spec [of b 0 "unat (word_count b)"]
    by (simp add: bitmap_first_free_def searched_def bitmap_ok_def)
qed (use bitmap_set_law bitmap_clear_law bitmap_test_law in
    \<open>auto simp: bitmap_ok_def capacity_def searched_def\<close>)

section \<open>Properties\<close>

text \<open>Setting, clearing and testing bits: within the array no operation fails, setting or clearing
  one bit changes exactly that bit, and testing reads it back.\<close>

theorem bitmap_bits_independent:
  assumes "unat i < capacity b" and "unat j < capacity b"
  shows "\<exists>bs bc t. bitmap_set_bit i b = Inr bs \<and> bitmap_clear_bit i b = Inr bc \<and>
    bitmap_test_bit j b = Inr t \<and> bitmap_test_bit j bs = Inr (t \<or> i = j) \<and>
    bitmap_test_bit j bc = Inr (t \<and> i \<noteq> j)"
proof -
  from bm.put_law [OF assms(1)] obtain bs where
    "bitmap_set_bit i b = Inr bs" "used bs = insert (unat i) (used b)" "capacity bs = capacity b" by auto
  moreover from bm.del_law [OF assms(1)] obtain bc where
    "bitmap_clear_bit i b = Inr bc" "used bc = used b - {unat i}" "capacity bc = capacity b" by auto
  ultimately show ?thesis
    using assms bm.test_law [of j] by (auto simp: word_unat_eq_iff)
qed

definition bitmap_sample :: bitmap where
  "bitmap_sample = \<lparr>word_count = 2, bits = [0xFFFFFFFF, 0x7], bflags = 0\<rparr>"

theorem bitmap_bits_independent_witness:
  "\<exists>bs bc t. bitmap_set_bit 40 bitmap_sample = Inr bs \<and> bitmap_clear_bit 40 bitmap_sample = Inr bc \<and>
    bitmap_test_bit 33 bitmap_sample = Inr t \<and> bitmap_test_bit 33 bs = Inr (t \<or> 40 = (33 :: u32)) \<and>
    bitmap_test_bit 33 bc = Inr (t \<and> 40 \<noteq> (33 :: u32))"
  by (rule bitmap_bits_independent) (simp_all add: capacity_def bitmap_sample_def)

text \<open>\<open>bitmap_first_free\<close> on a bitmap whose array holds its \<open>word_count\<close> words returns the least
  clear bit among them, and \<open>(unsigned)-1\<close> exactly when they are all set; the loops never read
  outside the array.\<close>

lemma bitmap_first_free_least:
  assumes "bitmap_ok b"
  shows "\<exists>i. bitmap_first_free b = Inr i \<and> least_free (- 1) (searched b) (used b) i"
  using assms by (rule bm.search_law)

end
