(* ===== verification/PhysPages.thy ===== *)
theory PhysPages
  imports Bitmap
begin

text \<open>
  The physical page bitmap of \<open>kernel/arch/i386/pmm/paging.c\<close>: one bit per 4 KiB page, set when the
  page is in use, in a static array of 1024 words. Once \<open>paging_init_bitmap\<close> has run, the array is
  reached only through \<open>page_bitmap.bits\<close>, so its content is part of \<open>page_bitmap\<close>; before,
  \<open>page_bitmap.bits\<close> is the null pointer, here the empty list.
\<close>

record page_table_entry =
  pte_present :: bool
  pte_rw :: bool
  pte_user :: bool
  pte_accessed :: bool
  pte_dirty :: bool
  pte_os_flags :: "3 word"
  pte_address :: "20 word"

definition pte_zero :: page_table_entry where
  "pte_zero = \<lparr>pte_present = False, pte_rw = False, pte_user = False, pte_accessed = False,
     pte_dirty = False, pte_os_flags = 0, pte_address = 0\<rparr>"

record pages = tty +
  page_count :: u32
  page_bitmap :: bitmap
  page_bitmap_bits :: "u32 list"

definition PAGE_SIZE_SHIFT :: nat where "PAGE_SIZE_SHIFT = 12"
definition PAGE_SIZE :: u32 where "PAGE_SIZE = push_bit PAGE_SIZE_SHIFT 1"
definition BITMAP_ARRAY_SIZE :: nat where "BITMAP_ARRAY_SIZE = 1024"

definition IS_PAGE_ALIGNED :: "u32 \<Rightarrow> bool" where "IS_PAGE_ALIGNED addr \<longleftrightarrow> addr AND 0xFFF = 0"
definition PAGE_ALIGN_DOWN :: "u32 \<Rightarrow> u32" where "PAGE_ALIGN_DOWN addr = addr AND - PAGE_SIZE"
definition PAGE_ALIGN_UP :: "u32 \<Rightarrow> u32" where "PAGE_ALIGN_UP addr = (addr + (PAGE_SIZE - 1)) AND - PAGE_SIZE"

lemmas page_consts = PAGE_SIZE_def PAGE_SIZE_SHIFT_def BITMAP_ARRAY_SIZE_def

lemma PAGE_SIZE_eq: "PAGE_SIZE = 4096"
  by (simp add: page_consts)

section \<open>Operations\<close>

text \<open>\<open>memset(bits, 0xFF, n)\<close> on an array of words, for \<open>n\<close> bytes that make whole words.\<close>

definition memset_ones :: "u32 list \<Rightarrow> nat \<Rightarrow> u32 list" where
  "memset_ones ws n = replicate (n div 4) 0xFFFFFFFF @ drop (n div 4) ws"

text \<open>The number of words a bitmap of \<open>n\<close> bits and the number of pages an area of \<open>n\<close> bytes needs.\<close>

definition words_for :: "u32 \<Rightarrow> u32" where
  "words_for n = n div BITS_PER_WORD + (if n mod BITS_PER_WORD \<noteq> 0 then 1 else 0)"

definition pages_for :: "u32 \<Rightarrow> u32" where
  "pages_for n = drop_bit PAGE_SIZE_SHIFT n + (if n mod PAGE_SIZE \<noteq> 0 then 1 else 0)"

definition paging_init_bitmap :: "u32 \<Rightarrow> 'a pages_scheme \<Rightarrow> (u32 \<times> 'a pages_scheme) kres" where
  "paging_init_bitmap mem_size s =
     (let count = pages_for mem_size; words = words_for count in
      kbind (kassert (unat words < BITMAP_ARRAY_SIZE) ''page_bitmap.word_count < BITMAP_ARRAY_SIZE'') (\<lambda>_.
      Inr (words * 4,
           s\<lparr>page_count := count,
             page_bitmap := \<lparr>word_count = words,
               bits = memset_ones (page_bitmap_bits s) BITMAP_ARRAY_SIZE, bflags = 0\<rparr>\<rparr>)))"

lemma sint_pred: "0 \<le> sint (n :: u32) \<Longrightarrow> sint (n - 1) = sint n - 1"
  using sint_less [of n]
  by (simp add: sint_word_ariths signed_take_bit_int_eq_self)

text \<open>The loops run until the counter, read as a signed integer, is negative.\<close>

function clear_pages :: "u32 \<Rightarrow> u32 \<Rightarrow> bitmap \<Rightarrow> bitmap kres" where
  "clear_pages base size_bits b =
     (if 0 \<le> sint size_bits
      then kbind (bitmap_clear_bit base b) (\<lambda>b'. clear_pages (base + 1) (size_bits - 1) b')
      else Inr b)"
  by pat_completeness auto
termination
  by (relation "measure (\<lambda>(base, size_bits, b). nat (sint size_bits + 1))") (auto simp: sint_pred)

function set_pages :: "u32 \<Rightarrow> u32 \<Rightarrow> bitmap \<Rightarrow> bitmap kres" where
  "set_pages base size_bits b =
     (if 0 \<le> sint size_bits
      then kbind (bitmap_set_bit base b) (\<lambda>b'. set_pages (base + 1) (size_bits - 1) b')
      else Inr b)"
  by pat_completeness auto
termination
  by (relation "measure (\<lambda>(base, size_bits, b). nat (sint size_bits + 1))") (auto simp: sint_pred)

declare clear_pages.simps [simp del] set_pages.simps [simp del]

definition paging_init_region :: "u32 \<Rightarrow> u32 \<Rightarrow> 'a pages_scheme \<Rightarrow> ('a pages_scheme) kres" where
  "paging_init_region base len s =
     kbind (clear_pages (drop_bit PAGE_SIZE_SHIFT base) (pages_for len) (page_bitmap s)) (\<lambda>b.
     kbind (bitmap_set_bit 0 b) (\<lambda>b'. Inr (s\<lparr>page_bitmap := b'\<rparr>)))"

definition paging_deinit_region :: "u32 \<Rightarrow> u32 \<Rightarrow> 'a pages_scheme \<Rightarrow> ('a pages_scheme) kres" where
  "paging_deinit_region base len s =
     kbind (set_pages (drop_bit PAGE_SIZE_SHIFT base) (pages_for len) (page_bitmap s)) (\<lambda>b.
     Inr (s\<lparr>page_bitmap := b\<rparr>))"

definition page_alloc :: "page_table_entry \<Rightarrow> 'a pages_scheme \<Rightarrow>
    (page_table_entry option \<times> 'a pages_scheme) kres" where
  "page_alloc page s =
     kbind (bitmap_first_free (page_bitmap s)) (\<lambda>bit.
     if bit = - 1 then Inr (None, s)
     else kbind (bitmap_set_bit bit (page_bitmap s)) (\<lambda>b.
       Inr (Some (page\<lparr>pte_address := ucast bit\<rparr>), s\<lparr>page_bitmap := b\<rparr>)))"

definition page_free :: "page_table_entry \<Rightarrow> 'a pages_scheme \<Rightarrow> ('a pages_scheme) kres" where
  "page_free page s =
     (let bit = ucast (pte_address page) in
      kbind (bitmap_test_bit bit (page_bitmap s)) (\<lambda>set.
      let s' = worry_if (\<not> set) ''clearing unset bit'' s in
      kbind (bitmap_clear_bit bit (page_bitmap s')) (\<lambda>b.
      Inr (s'\<lparr>page_bitmap := b\<rparr>))))"

section \<open>Which pages are in use\<close>

definition in_use :: "'a pages_scheme \<Rightarrow> nat set" where
  "in_use s = used (page_bitmap s)"

text \<open>The bitmap over the whole static array: 32768 pages, searched up to \<open>word_count\<close> words.\<close>

definition pages_ok :: "'a pages_scheme \<Rightarrow> bool" where
  "pages_ok s \<longleftrightarrow> bitmap_ok (page_bitmap s) \<and> capacity (page_bitmap s) = 32768"

definition page_limit :: "'a pages_scheme \<Rightarrow> nat" where
  "page_limit s = searched (page_bitmap s)"

lemma pages_worry [simp]:
  "page_bitmap (worry_if c m s) = page_bitmap s"
  by (simp add: worry_if_def worry_def)

lemma page_limit_le: "pages_ok s \<Longrightarrow> page_limit s \<le> 32768"
  using bm.lim_cap [of "page_bitmap s"] by (auto simp: pages_ok_def page_limit_def)

lemma unat_pages_for:
  "unat (pages_for n) = unat n div 4096 + (if unat n mod 4096 = 0 then 0 else 1)"
proof -
  have "unat n div 4096 < 1048576" using unat_lt_2p [of n] by (simp add: less_mult_imp_div_less)
  moreover have "unat (drop_bit PAGE_SIZE_SHIFT n) = unat n div 4096"
    by (simp add: PAGE_SIZE_SHIFT_def drop_bit_eq_div unat_div)
  moreover have "n mod PAGE_SIZE = 0 \<longleftrightarrow> unat n mod 4096 = 0"
    by (simp add: PAGE_SIZE_eq word_unat_eq_iff unat_mod)
  ultimately show ?thesis
    by (auto simp: pages_for_def unat_word_ariths)
qed

lemma sint_small: "unat (n :: u32) < 2147483648 \<Longrightarrow> sint n = int (unat n)"
proof -
  assume "unat n < 2147483648"
  then have n: "uint n < 2147483648" unfolding uint_nat by linarith
  have "- (2 ^ 31) \<le> uint n" by (rule order.trans [of _ 0]) simp_all
  with n have "signed_take_bit 31 (uint n) = uint n"
    by (intro signed_take_bit_int_eq_self) simp_all
  then have "sint n = uint n" by (simp add: sint_uint)
  then show ?thesis by (simp only: uint_nat)
qed

text \<open>Both loops visit the pages \<open>base\<close> to \<open>base + size_bits\<close>, the last one included.\<close>

lemma clear_pages_spec:
  "unat n = k \<Longrightarrow> k < 2147483648 \<Longrightarrow> unat base + k < capacity b \<Longrightarrow> capacity b \<le> 4294967295 \<Longrightarrow>
   \<exists>b'. clear_pages base n b = Inr b' \<and> used b' = used b - {unat base..unat base + k} \<and>
     capacity b' = capacity b \<and> searched b' = searched b \<and> (bitmap_ok b' \<longleftrightarrow> bitmap_ok b)"
proof (induction k arbitrary: n base b)
  case 0
  then have "n = 0" by (simp add: unat_eq_0)
  moreover obtain b' where "bitmap_clear_bit base b = Inr b' \<and> used b' = used b - {unat base} \<and>
      capacity b' = capacity b \<and> searched b' = searched b \<and> (bitmap_ok b' \<longleftrightarrow> bitmap_ok b)"
    using bm.del_law [of base b] 0 by auto
  ultimately show ?case by (simp add: clear_pages.simps [of _ 0] clear_pages.simps [of _ "- 1"])
next
  case (Suc k)
  then obtain b' where b': "bitmap_clear_bit base b = Inr b'" "used b' = used b - {unat base}"
      "capacity b' = capacity b" "searched b' = searched b" "bitmap_ok b' \<longleftrightarrow> bitmap_ok b"
    using bm.del_law [of base b] by auto
  have n: "unat (n - 1) = k" using Suc.prems by (subst u32_sub_no_wrap) auto
  have base: "unat (base + 1) = Suc (unat base)" using Suc.prems by (subst u32_add_no_wrap) auto
  from Suc.IH [OF n, of "base + 1" b'] Suc.prems b'(3) base obtain b'' where
    b'': "clear_pages (base + 1) (n - 1) b' = Inr b''"
      "used b'' = used b' - {unat (base + 1)..unat (base + 1) + k}"
      "capacity b'' = capacity b'" "searched b'' = searched b'" "bitmap_ok b'' \<longleftrightarrow> bitmap_ok b'"
    by auto
  have "used b'' = used b - {unat base..unat base + Suc k}"
    unfolding b''(2) b'(2) base by auto
  moreover have "0 \<le> sint n" using Suc.prems by (subst sint_small) auto
  ultimately show ?case using b' b'' by (simp add: clear_pages.simps [of base])
qed

lemma set_pages_spec:
  "unat n = k \<Longrightarrow> k < 2147483648 \<Longrightarrow> unat base + k < capacity b \<Longrightarrow> capacity b \<le> 4294967295 \<Longrightarrow>
   \<exists>b'. set_pages base n b = Inr b' \<and> used b' = used b \<union> {unat base..unat base + k} \<and>
     capacity b' = capacity b \<and> searched b' = searched b \<and> (bitmap_ok b' \<longleftrightarrow> bitmap_ok b)"
proof (induction k arbitrary: n base b)
  case 0
  then have "n = 0" by (simp add: unat_eq_0)
  moreover obtain b' where "bitmap_set_bit base b = Inr b' \<and> used b' = insert (unat base) (used b) \<and>
      capacity b' = capacity b \<and> searched b' = searched b \<and> (bitmap_ok b' \<longleftrightarrow> bitmap_ok b)"
    using bm.put_law [of base b] 0 by auto
  ultimately show ?case by (simp add: set_pages.simps [of _ 0] set_pages.simps [of _ "- 1"])
next
  case (Suc k)
  then obtain b' where b': "bitmap_set_bit base b = Inr b'" "used b' = insert (unat base) (used b)"
      "capacity b' = capacity b" "searched b' = searched b" "bitmap_ok b' \<longleftrightarrow> bitmap_ok b"
    using bm.put_law [of base b] by auto
  have n: "unat (n - 1) = k" using Suc.prems by (subst u32_sub_no_wrap) auto
  have base: "unat (base + 1) = Suc (unat base)" using Suc.prems by (subst u32_add_no_wrap) auto
  from Suc.IH [OF n, of "base + 1" b'] Suc.prems b'(3) base obtain b'' where
    b'': "set_pages (base + 1) (n - 1) b' = Inr b''"
      "used b'' = used b' \<union> {unat (base + 1)..unat (base + 1) + k}"
      "capacity b'' = capacity b'" "searched b'' = searched b'" "bitmap_ok b'' \<longleftrightarrow> bitmap_ok b'"
    by auto
  have "used b'' = used b \<union> {unat base..unat base + Suc k}"
    unfolding b''(2) b'(2) base by auto
  moreover have "0 \<le> sint n" using Suc.prems by (subst sint_small) auto
  ultimately show ?case using b' b'' by (simp add: set_pages.simps [of base])
qed

section \<open>Regions\<close>

definition region_pages :: "u32 \<Rightarrow> u32 \<Rightarrow> nat set" where
  "region_pages base len = {unat base div 4096..unat base div 4096 + unat (pages_for len)}"

text \<open>The pages that hold a byte of the area.\<close>

definition touched :: "u32 \<Rightarrow> u32 \<Rightarrow> nat set" where
  "touched base len = {a div 4096 | a. unat base \<le> a \<and> a < unat base + unat len}"

lemma touched_region: "touched base len \<subseteq> region_pages base len"
proof
  fix p assume "p \<in> touched base len"
  then obtain a where a: "p = a div 4096" "unat base \<le> a" "a < unat base + unat len"
    by (auto simp: touched_def)
  have "unat len \<le> 4096 * unat (pages_for len)" by (auto simp: unat_pages_for)
  with a(3) have "a \<le> unat base + unat (pages_for len) * 4096" by linarith
  from div_le_mono [OF this, of 4096] have "a div 4096 \<le> unat base div 4096 + unat (pages_for len)"
    by simp
  with a(1) div_le_mono [OF a(2), of 4096] show "p \<in> region_pages base len"
    by (simp add: region_pages_def)
qed

lemma region_bounds:
  fixes base len :: u32
  assumes "unat base div 4096 + unat (pages_for len) < 32768"
  shows "unat (drop_bit PAGE_SIZE_SHIFT base) = unat base div 4096"
    and "unat (pages_for len) < 2147483648"
  using assms by (simp_all add: PAGE_SIZE_SHIFT_def drop_bit_eq_div unat_div)

section \<open>Allocation\<close>

lemma page_alloc_none:
  assumes "pages_ok s" and "{..<page_limit s} \<subseteq> in_use s"
  shows "page_alloc p s = Inr (None, s)"
  using assms bm.search_none [of "page_bitmap s"]
  by (simp add: page_alloc_def pages_ok_def page_limit_def in_use_def)

lemma page_alloc_some:
  assumes "pages_ok s" and "\<not> {..<page_limit s} \<subseteq> in_use s"
  shows "\<exists>n t. page_alloc p s = Inr (Some (p\<lparr>pte_address := of_nat n\<rparr>), t) \<and>
    n < page_limit s \<and> n \<notin> in_use s \<and> {..<n} \<subseteq> in_use s \<and> in_use t = insert n (in_use s) \<and>
    pages_ok t \<and> page_limit t = page_limit s \<and> (\<exists>b. t = s\<lparr>page_bitmap := b\<rparr>)"
proof -
  from assms bm.search_put [of "page_bitmap s"] obtain i b where
    "bitmap_first_free (page_bitmap s) = Inr i" "i \<noteq> - 1" "bitmap_set_bit i (page_bitmap s) = Inr b"
    "bitmap_ok b" "unat i < page_limit s" "unat i \<notin> in_use s" "{..<unat i} \<subseteq> in_use s"
    "used b = insert (unat i) (in_use s)" "capacity b = 32768" "searched b = page_limit s"
    by (auto simp: pages_ok_def page_limit_def in_use_def)
  moreover have "(ucast i :: 20 word) = of_nat (unat i)" by simp
  ultimately show ?thesis
    by (intro exI [of _ "unat i"] exI [of _ "s\<lparr>page_bitmap := b\<rparr>"])
      (auto simp: page_alloc_def pages_ok_def page_limit_def in_use_def)
qed

lemma unat_frame: "n < 1048576 \<Longrightarrow> unat (of_nat n :: 20 word) = n"
  by (simp add: unat_of_nat)

lemma page_alloc_frame:
  assumes "pages_ok s" "page_alloc p s = Inr (Some q, t)"
  shows "unat (pte_address q) \<notin> in_use s" "unat (pte_address q) < page_limit s"
    "in_use t = insert (unat (pte_address q)) (in_use s)" "pages_ok t" "page_limit t = page_limit s"
    "\<exists>b. t = s\<lparr>page_bitmap := b\<rparr>" "q = p\<lparr>pte_address := pte_address q\<rparr>"
proof -
  have "\<not> {..<page_limit s} \<subseteq> in_use s" using page_alloc_none [OF assms(1)] assms(2) by auto
  from page_alloc_some [OF assms(1) this, of p] assms(2) obtain n where n:
    "q = p\<lparr>pte_address := of_nat n\<rparr>" "n < page_limit s" "n \<notin> in_use s" "in_use t = insert n (in_use s)"
    "pages_ok t" "page_limit t = page_limit s" "\<exists>b. t = s\<lparr>page_bitmap := b\<rparr>" by auto
  moreover from n(2) page_limit_le [OF assms(1)] have "unat (of_nat n :: 20 word) = n"
    by (intro unat_frame) simp
  ultimately show "unat (pte_address q) \<notin> in_use s" "unat (pte_address q) < page_limit s"
    "in_use t = insert (unat (pte_address q)) (in_use s)" "pages_ok t" "page_limit t = page_limit s"
    "\<exists>b. t = s\<lparr>page_bitmap := b\<rparr>" "q = p\<lparr>pte_address := pte_address q\<rparr>"
    by simp_all
qed

lemma unat_ucast_frame [simp]: "unat (ucast (x :: 20 word) :: u32) = unat x"
proof -
  have "unat x < 1048576" using unsigned_less [where w = x] by simp
  then show ?thesis by (simp add: unsigned_ucast_eq take_bit_nat_eq_self)
qed

lemma page_free_spec:
  assumes "pages_ok s" and "unat (pte_address p) < 32768"
  shows "\<exists>t. page_free p s = Inr t \<and> in_use t = in_use s - {unat (pte_address p)} \<and> pages_ok t \<and>
    page_limit t = page_limit s \<and>
    con_log t = con_log s @ (if unat (pte_address p) \<in> in_use s then [] else [Worried ''clearing unset bit''])"
proof -
  let ?i = "ucast (pte_address p) :: u32"
  have i: "unat ?i = unat (pte_address p)" by simp
  from assms bm.del_law [of ?i "page_bitmap s"] bm.test_law [of ?i "page_bitmap s"] i show ?thesis
    by (auto simp: page_free_def pages_ok_def in_use_def page_limit_def worry_if_def worry_def Let_def)
qed

text \<open>
  Runs of the allocator by clients that free only pages they hold: \<open>held\<close> are the page numbers
  handed out and not yet given back.
\<close>

inductive pool_run :: "'a pages_scheme \<Rightarrow> nat set \<Rightarrow> bool" where
  start: "pages_ok s \<Longrightarrow> pool_run s {}"
| alloc: "pool_run s held \<Longrightarrow> page_alloc p s = Inr (Some q, t) \<Longrightarrow>
    pool_run t (insert (unat (pte_address q)) held)"
| exhausted: "pool_run s held \<Longrightarrow> page_alloc p s = Inr (None, t) \<Longrightarrow> pool_run t held"
| free: "pool_run s held \<Longrightarrow> unat (pte_address p) \<in> held \<Longrightarrow> page_free p s = Inr t \<Longrightarrow>
    pool_run t (held - {unat (pte_address p)})"

lemma pool_run_inv: "pool_run s held \<Longrightarrow> pages_ok s \<and> held \<subseteq> in_use s \<and> (\<forall>n\<in>held. n < 32768)"
proof (induction rule: pool_run.induct)
  case (alloc s held p q t)
  with page_alloc_frame [of s p q t] page_limit_le [of s] show ?case by auto
next
  case (exhausted s held p t)
  with page_alloc_some [of s p] page_alloc_none [of s p] show ?case by (cases "{..<page_limit s} \<subseteq> in_use s") auto
next
  case (free s held p t)
  with page_free_spec [of s p] show ?case by auto
qed auto

lemma ceil_div_32:
  assumes "(x :: nat) \<le> 32512"
  shows "x div 32 + (if x mod 32 = 0 then 0 else 1) \<le> 1016"
    and "x \<le> 32 * (x div 32 + (if x mod 32 = 0 then 0 else 1))"
proof -
  define q r where "q = x div 32" and "r = x mod 32"
  have "x = 32 * q + r" "r < 32" by (simp_all add: q_def r_def)
  then have "q + (if r = 0 then 0 else 1) \<le> 1016" "x \<le> 32 * (q + (if r = 0 then 0 else 1))"
    using assms by (cases "r = 0"; simp)+
  then show "x div 32 + (if x mod 32 = 0 then 0 else 1) \<le> 1016"
    and "x \<le> 32 * (x div 32 + (if x mod 32 = 0 then 0 else 1))" by (simp_all only: q_def r_def)
qed

section \<open>Properties\<close>

lemma deinit_region_spec:
  assumes "pages_ok s" and "unat base div 4096 + unat (pages_for len) < 32768"
  shows "\<exists>t. paging_deinit_region base len s = Inr t \<and> pages_ok t \<and>
    in_use t = in_use s \<union> region_pages base len \<and> touched base len \<subseteq> in_use t"
proof -
  note b = region_bounds [OF assms(2)]
  from set_pages_spec [OF refl b(2), of "drop_bit PAGE_SIZE_SHIFT base" "page_bitmap s"] assms b
  obtain m where "set_pages (drop_bit PAGE_SIZE_SHIFT base) (pages_for len) (page_bitmap s) = Inr m"
    "used m = used (page_bitmap s) \<union> region_pages base len" "capacity m = 32768" "bitmap_ok m"
    by (auto simp: pages_ok_def region_pages_def)
  then show ?thesis
    using touched_region by (auto simp: paging_deinit_region_def pages_ok_def in_use_def)
qed

text \<open>\<open>paging_deinit_region\<close> (used for the kernel image and the boot modules) inside the range of
  the bitmap reserves every page that holds a byte of the area, also when the area is not page
  aligned; it reserves the pages from \<open>base / 4096\<close> through \<open>base / 4096 + pages\<close> and no other page
  changes.\<close>

lemma deinit_region_reserves:
  assumes "pages_ok s" and "unat base div 4096 + unat (pages_for len) < 32768"
  shows "\<exists>t. paging_deinit_region base len s = Inr t \<and> pages_ok t \<and>
    in_use t = in_use s \<union> region_pages base len \<and> touched base len \<subseteq> in_use t"
  using assms by (rule deinit_region_spec)

text \<open>C35. \<open>paging_init_region\<close> (used for the available memory) inside the range of the bitmap frees the
  pages \<open>base / 4096\<close> through \<open>base / 4096 + pages\<close>: for a page-aligned area that is one page more
  than the area has. Page 0 is never left free and no other page changes.\<close>

theorem init_region_frees:
  assumes "pages_ok s" and "unat base div 4096 + unat (pages_for len) < 32768"
  shows "\<exists>t. paging_init_region base len s = Inr t \<and> pages_ok t \<and>
    in_use t = insert 0 (in_use s - region_pages base len)"
proof -
  note b = region_bounds [OF assms(2)]
  from clear_pages_spec [OF refl b(2), of "drop_bit PAGE_SIZE_SHIFT base" "page_bitmap s"] assms b
  obtain m where m: "clear_pages (drop_bit PAGE_SIZE_SHIFT base) (pages_for len) (page_bitmap s) = Inr m"
    "used m = used (page_bitmap s) - region_pages base len" "capacity m = 32768" "bitmap_ok m"
    by (auto simp: pages_ok_def region_pages_def)
  with bm.put_law [of 0 m] show ?thesis
    by (auto simp: paging_init_region_def pages_ok_def in_use_def)
qed

text \<open>Memory of 64 MiB whose first 32 MiB are marked, as the kernel boots.\<close>

definition pages_zero :: pages where
  "pages_zero = \<lparr>out_log = [], con_log = [], if_flag = False, irq_mask = 0, tty_buf = 0xB8000,
     vga = (\<lambda>_. 0), tty_row = 0, tty_col = 0, tty_initialized = True, page_count = 16384,
     page_bitmap = \<lparr>word_count = 512, bits = replicate 256 0xFFFFFFFF @ replicate 768 0, bflags = 0\<rparr>,
     page_bitmap_bits = []\<rparr>"

lemma pages_zero_ok: "pages_ok pages_zero" and pages_zero_limit: "page_limit pages_zero = 16384"
  by (simp_all add: pages_ok_def pages_zero_def bitmap_ok_def capacity_def page_limit_def searched_def)

theorem init_region_frees_witness:
  "\<exists>t. paging_init_region 0x100000 0x2000 pages_zero = Inr t \<and>
     in_use t = insert 0 (in_use pages_zero - {256..258})"
  using init_region_frees [OF pages_zero_ok, of "0x100000" "0x2000"]
  by (auto simp: unat_pages_for region_pages_def)

text \<open>C20. \<open>page_alloc\<close> refines a pool of page numbers: if a page below the searched limit is free it
  takes the least one, writes its number into the page structure without truncating it and marks
  exactly that page; otherwise it returns NULL and changes nothing.\<close>

theorem page_alloc_refines:
  assumes "pages_ok s"
  shows "if {..<page_limit s} \<subseteq> in_use s then page_alloc p s = Inr (None, s)
    else let n = LEAST n. n \<notin> in_use s in \<exists>t.
      page_alloc p s = Inr (Some (p\<lparr>pte_address := of_nat n\<rparr>), t) \<and> n < page_limit s \<and>
      unat (of_nat n :: 20 word) = n \<and> in_use t = insert n (in_use s) \<and> pages_ok t"
proof (cases "{..<page_limit s} \<subseteq> in_use s")
  case False
  from page_alloc_some [OF assms False, of p] obtain n t where n:
    "page_alloc p s = Inr (Some (p\<lparr>pte_address := of_nat n\<rparr>), t)" "n < page_limit s" "n \<notin> in_use s"
    "{..<n} \<subseteq> in_use s" "in_use t = insert n (in_use s)" "pages_ok t" by auto
  then have "(LEAST n. n \<notin> in_use s) = n" by (intro Least_equality) (auto simp: subset_iff not_less)
  moreover from n(2) page_limit_le [OF assms] have "unat (of_nat n :: 20 word) = n"
    by (intro unat_frame) simp
  ultimately show ?thesis using n False by (simp add: Let_def)
qed (simp add: page_alloc_none [OF assms])

theorem page_alloc_refines_witness:
  "if {..<page_limit pages_zero} \<subseteq> in_use pages_zero then page_alloc pte_zero pages_zero = Inr (None, pages_zero)
    else let n = LEAST n. n \<notin> in_use pages_zero in \<exists>t.
      page_alloc pte_zero pages_zero = Inr (Some (pte_zero\<lparr>pte_address := of_nat n\<rparr>), t) \<and> n < page_limit pages_zero \<and>
      unat (of_nat n :: 20 word) = n \<and> in_use t = insert n (in_use pages_zero) \<and> pages_ok t"
  by (rule page_alloc_refines [OF pages_zero_ok])

text \<open>C1. No page is handed out twice: in any interleaving of allocations and frees in which clients
  free only pages they hold, \<open>page_alloc\<close> never returns a page that somebody still holds, and
  freeing a held page never warns.\<close>

theorem no_page_handed_out_twice:
  assumes "pool_run s held"
  shows "(page_alloc p s = Inr (Some q, t) \<longrightarrow> unat (pte_address q) \<notin> held) \<and>
    (unat (pte_address p) \<in> held \<longrightarrow> (\<exists>u. page_free p s = Inr u \<and> con_log u = con_log s))"
proof -
  from pool_run_inv [OF assms] have inv: "pages_ok s" "held \<subseteq> in_use s" "\<forall>n\<in>held. n < 32768" by auto
  then show ?thesis
    using page_alloc_frame(1) [OF inv(1)] page_free_spec [OF inv(1), of p] by fastforce
qed

theorem no_page_handed_out_twice_witness:
  "\<exists>q t u. page_alloc pte_zero pages_zero = Inr (Some q, t) \<and> page_free q t = Inr u \<and>
     con_log u = con_log t"
proof -
  have "8192 \<notin> in_use pages_zero" by (simp add: in_use_def used_def pages_zero_def nth_append)
  moreover have "8192 \<in> {..<page_limit pages_zero}" by (simp add: pages_zero_limit)
  ultimately have "\<not> {..<page_limit pages_zero} \<subseteq> in_use pages_zero" by blast
  from page_alloc_some [OF pages_zero_ok this] obtain q t where
    q: "page_alloc pte_zero pages_zero = Inr (Some q, t)" by blast
  have run: "pool_run t (insert (unat (pte_address q)) {})"
    using pool_run.alloc [OF pool_run.start [OF pages_zero_ok] q] by simp
  from no_page_handed_out_twice [OF run, of q] q show ?thesis by auto
qed

text \<open>\<open>paging_init_bitmap\<close> means to mark all memory as in use, but clears one byte per array word: on
  the zero-initialised array the pages below 8192 (32 MiB) are marked and all others are free,
  while the bitmap is searched up to the end of the memory.\<close>

theorem init_bitmap_marks_32MiB:
  assumes "page_bitmap_bits s = replicate 1024 0" and "unat mem_size < 133169152"
  shows "\<exists>t. paging_init_bitmap mem_size s = Inr (4 * words_for (pages_for mem_size), t) \<and>
    pages_ok t \<and> in_use t = {..<8192} \<and> page_count t = pages_for mem_size \<and>
    unat (page_count t) \<le> page_limit t"
proof -
  let ?n = "pages_for mem_size"
  have n: "unat ?n \<le> 32512" using assms(2) by (auto simp: unat_pages_for)
  have w: "unat (words_for ?n) = unat ?n div 32 + (if unat ?n mod 32 = 0 then 0 else 1)"
    using n by (auto simp: words_for_def BITS_PER_WORD_def unat_word_ariths word_unat_eq_iff unat_div unat_mod)
  from ceil_div_32 [OF n] w have le: "unat (words_for ?n) \<le> 1016" "unat ?n \<le> 32 * unat (words_for ?n)"
    by simp_all
  let ?b = "\<lparr>word_count = words_for ?n, bits = memset_ones (page_bitmap_bits s) 1024, bflags = 0\<rparr>"
  have bits: "bits ?b = replicate 256 0xFFFFFFFF @ replicate 768 0"
    by (simp add: assms(1) memset_ones_def)
  have "i \<in> used ?b \<longleftrightarrow> i < 8192" for i
    unfolding used_def bits u32_ones by (auto simp: nth_append)
  then have "used ?b = {..<8192}" by blast
  then show ?thesis
    using le bits by (auto simp: paging_init_bitmap_def page_consts pages_ok_def in_use_def page_limit_def
        bitmap_ok_def capacity_def searched_def mult.commute Let_def)
qed

theorem init_bitmap_marks_32MiB_witness:
  "\<exists>t. paging_init_bitmap 0x4000000 (pages_zero\<lparr>page_bitmap_bits := replicate 1024 0\<rparr>) =
      Inr (4 * words_for (pages_for 0x4000000), t) \<and> in_use t = {..<8192}"
  using init_bitmap_marks_32MiB [of "pages_zero\<lparr>page_bitmap_bits := replicate 1024 0\<rparr>" "0x4000000"]
  by auto

end
