(* ===== verification/Paging.thy ===== *)
theory Paging
  imports PhysPages
begin

text \<open>
  Virtual memory: \<open>page_map\<close> and \<open>page_unmap\<close> of \<open>kernel/arch/i386/pmm/paging.c\<close>, the paging
  structure allocator \<open>kernel/arch/i386/pmm/allocator.c\<close>, \<open>virt_to_phys\<close> of
  \<open>kernel/arch/i386/vmm/addr.c\<close> and \<open>tty_remap\<close> of \<open>kernel/arch/i386/tty.c\<close>. The code reaches the
  paging structures through virtual addresses (the page directory at 0xFFFFF000, the tables from
  0xFFC00000), so physical memory is modelled as frames of 1024 words and every access goes
  through the MMU's two-level walk \<open>translate\<close>; an access it refuses is a \<open>Page_Fault\<close>. The kernel
  runs in supervisor mode without write protection, so the walk ignores the rw and user bits.
  \<open>tlb_flushes\<close> lists the addresses passed to \<open>flush_tlb\<close>.
\<close>

record paging = pages +
  pmem :: "20 word \<Rightarrow> 10 word \<Rightarrow> u32"
  cr3 :: "20 word"
  tlb_flushes :: "u32 list"
  placement_heap :: u32

section \<open>The MMU\<close>

definition pd_index :: "u32 \<Rightarrow> 10 word" where "pd_index va = ucast (drop_bit 22 va)"
definition pt_index :: "u32 \<Rightarrow> 10 word" where "pt_index va = ucast (drop_bit 12 va)"
definition word_index :: "u32 \<Rightarrow> 10 word" where "word_index va = ucast (drop_bit 2 va)"
definition frame_of :: "u32 \<Rightarrow> 20 word" where "frame_of entry = ucast (drop_bit 12 entry)"

definition translate :: "u32 \<Rightarrow> 'a paging_scheme \<Rightarrow> (20 word) kres" where
  "translate va s =
     (let pde = pmem s (cr3 s) (pd_index va) in
      if \<not> bit pde 0 then Inl (Page_Fault va)
      else let pte = pmem s (frame_of pde) (pt_index va) in
        if \<not> bit pte 0 then Inl (Page_Fault va) else Inr (frame_of pte))"

definition poke :: "20 word \<Rightarrow> 10 word \<Rightarrow> u32 \<Rightarrow> 'a paging_scheme \<Rightarrow> 'a paging_scheme" where
  "poke f i v s = s\<lparr>pmem := (pmem s)(f := (pmem s f)(i := v))\<rparr>"

text \<open>Aligned 32-bit accesses.\<close>

definition read32 :: "u32 \<Rightarrow> 'a paging_scheme \<Rightarrow> u32 kres" where
  "read32 va s = kbind (translate va s) (\<lambda>f. Inr (pmem s f (word_index va)))"

text \<open>The bytes of a word, the least significant one first.\<close>

definition read8 :: "u32 \<Rightarrow> 'a paging_scheme \<Rightarrow> u8 kres" where
  "read8 va s = kbind (translate va s) (\<lambda>f.
     Inr (ucast (drop_bit (8 * unat (va AND 3)) (pmem s f (word_index va)))))"

definition write32 :: "u32 \<Rightarrow> u32 \<Rightarrow> 'a paging_scheme \<Rightarrow> ('a paging_scheme) kres" where
  "write32 va v s = kbind (translate va s) (\<lambda>f. Inr (poke f (word_index va) v s))"

definition update32 :: "u32 \<Rightarrow> (u32 \<Rightarrow> u32) \<Rightarrow> 'a paging_scheme \<Rightarrow> ('a paging_scheme) kres" where
  "update32 va f s = kbind (read32 va s) (\<lambda>w. write32 va (f w) s)"

definition flush_tlb :: "u32 \<Rightarrow> 'a paging_scheme \<Rightarrow> 'a paging_scheme" where
  "flush_tlb va s = s\<lparr>tlb_flushes := tlb_flushes s @ [va]\<rparr>"

section \<open>Fields of the paging structures\<close>

text \<open>Bit 0 is \<open>present\<close>, bit 1 \<open>rw\<close>, bit 2 \<open>user\<close>; bits 12 to 31 are \<open>address\<close>.\<close>

definition set_flag :: "nat \<Rightarrow> bool \<Rightarrow> u32 \<Rightarrow> u32" where
  "set_flag n b w = (if b then w OR push_bit n 1 else w AND NOT (push_bit n 1))"

definition get_address :: "u32 \<Rightarrow> u32" where "get_address w = drop_bit 12 w"

definition set_address :: "u32 \<Rightarrow> u32 \<Rightarrow> u32" where
  "set_address a w = (w AND 0xFFF) OR push_bit 12 a"

definition pgdir_index :: "u32 \<Rightarrow> u32" where "pgdir_index va = drop_bit 22 va"
definition pgtbl_index :: "u32 \<Rightarrow> u32" where "pgtbl_index va = drop_bit 12 va AND 0x3FF"

text \<open>The virtual addresses of \<open>pde[pgdir_index]\<close> and \<open>pte[pgtbl_index]\<close>.\<close>

definition pde_at :: "u32 \<Rightarrow> u32" where "pde_at va = 0xFFFFF000 + 4 * pgdir_index va"

definition pte_at :: "u32 \<Rightarrow> u32" where
  "pte_at va = 0xFFC00000 + 4 * (0x400 * pgdir_index va) + 4 * pgtbl_index va"

section \<open>Operations\<close>

definition virt_to_phys :: "u32 \<Rightarrow> 'a paging_scheme \<Rightarrow> u32 kres" where
  "virt_to_phys va s =
     kbind (read32 (pde_at va) s) (\<lambda>pde.
     if \<not> bit pde 0 then
       kbind (sprintf ''virtual address %x references invalid page directory entry %u''
         [VInt va, VInt (pgdir_index va)]) (\<lambda>msg. Inl (Panic msg))
     else
       kbind (read32 (pte_at va) s) (\<lambda>pte.
       if \<not> bit pte 0 then
         kbind (sprintf ''virtual address %x references invalid page table entry %u in page directory %u''
           [VInt va, VInt (pgtbl_index va), VInt (pgdir_index va)]) (\<lambda>msg. Inl (Panic msg))
       else Inr ((pte AND NOT 0xFFF) + (va AND 0xFFF))))"

text \<open>\<open>memset(p, 0, PAGE_SIZE)\<close> on a page, word by word.\<close>

primrec zero_words :: "nat \<Rightarrow> u32 \<Rightarrow> 'a paging_scheme \<Rightarrow> ('a paging_scheme) kres" where
  "zero_words 0 va s = Inr s"
| "zero_words (Suc n) va s = kbind (write32 va 0 s) (zero_words n (va + 4))"

text \<open>
  \<open>page_map\<close> and \<open>paging_structure_alloc\<close> call each other: mapping a page whose table is missing
  allocates a table, which maps that table's page. \<open>page_map_nested n\<close> allows \<open>n\<close> nested calls of
  \<open>page_map\<close>; three are always enough (lemma \<open>page_map_nesting\<close>).
\<close>

definition structure_alloc_with ::
    "(u32 \<Rightarrow> u32 \<Rightarrow> bool \<Rightarrow> bool \<Rightarrow> 'a paging_scheme \<Rightarrow> ('a paging_scheme) kres) \<Rightarrow>
     'a paging_scheme \<Rightarrow> (u32 \<times> 'a paging_scheme) kres" where
  "structure_alloc_with mapper s =
     kbind (kassert (IS_PAGE_ALIGNED (placement_heap s)) ''IS_PAGE_ALIGNED(placement_heap)'') (\<lambda>_.
     kbind (page_alloc pte_zero s) (\<lambda>(pte, s1).
     case pte of
       None \<Rightarrow> Inl (Panic ''out of memory'')
     | Some pte \<Rightarrow>
         kbind (mapper (push_bit 12 (ucast (pte_address pte))) (placement_heap s1) True False s1) (\<lambda>s2.
         kbind (zero_words 1024 (placement_heap s2) s2) (\<lambda>s3.
         Inr (placement_heap s3, s3\<lparr>placement_heap := placement_heap s3 + PAGE_SIZE\<rparr>)))))"

definition page_map_with ::
    "('a paging_scheme \<Rightarrow> (u32 \<times> 'a paging_scheme) kres) \<Rightarrow>
     u32 \<Rightarrow> u32 \<Rightarrow> bool \<Rightarrow> bool \<Rightarrow> 'a paging_scheme \<Rightarrow> ('a paging_scheme) kres" where
  "page_map_with alloc physaddr va rw user s =
     kbind (panic_if (\<not> IS_PAGE_ALIGNED physaddr) ''physical address is not page-aligned'') (\<lambda>_.
     kbind (panic_if (\<not> IS_PAGE_ALIGNED va) ''virtual address is not page-aligned'') (\<lambda>_.
     kbind (bitmap_test_bit (drop_bit PAGE_SIZE_SHIFT physaddr) (page_bitmap s)) (\<lambda>taken.
     kbind (panic_if (\<not> taken) ''mapping page that is not allocated in page_bitmap'') (\<lambda>_.
     kbind (read32 (pde_at va) s) (\<lambda>pde.
     kbind
       (if \<not> bit pde 0 then
          kbind (update32 (pde_at va) (set_flag 0 True) s) (\<lambda>s1.
          kbind (update32 (pde_at va) (set_flag 1 True) s1) (\<lambda>s2.
          kbind (update32 (pde_at va) (set_flag 2 True) s2) (\<lambda>s3.
          kbind (alloc s3) (\<lambda>(table, s4).
          kbind (virt_to_phys table s4) (\<lambda>phys.
          update32 (pde_at va) (set_address (drop_bit 12 phys)) s4)))))
        else Inr s) (\<lambda>s5.
     kbind (read32 (pte_at va) s5) (\<lambda>pte.
     if bit pte 0 then
       kbind (sprintf ''page table entry already present for virtual address %x (mapped to physical address %x)''
         [VInt va, VInt (push_bit 12 (get_address pte))]) (\<lambda>buffer. Inl (Panic buffer))
     else
       kbind (update32 (pte_at va) (set_flag 0 True) s5) (\<lambda>s6.
       kbind (update32 (pte_at va) (set_flag 1 rw) s6) (\<lambda>s7.
       kbind (update32 (pte_at va) (set_flag 2 user) s7) (\<lambda>s8.
       kbind (update32 (pte_at va) (set_address (drop_bit 12 physaddr)) s8) (\<lambda>s9.
       Inr (flush_tlb va s9))))))))))))"

primrec page_map_nested :: "nat \<Rightarrow> u32 \<Rightarrow> u32 \<Rightarrow> bool \<Rightarrow> bool \<Rightarrow> 'a paging_scheme \<Rightarrow> ('a paging_scheme) kres" where
  "page_map_nested 0 = (\<lambda>_ _ _ _ _. Inl Nesting)"
| "page_map_nested (Suc n) = page_map_with (structure_alloc_with (page_map_nested n))"

definition page_map :: "u32 \<Rightarrow> u32 \<Rightarrow> bool \<Rightarrow> bool \<Rightarrow> 'a paging_scheme \<Rightarrow> ('a paging_scheme) kres" where
  "page_map = page_map_nested 3"

definition paging_structure_alloc :: "'a paging_scheme \<Rightarrow> (u32 \<times> 'a paging_scheme) kres" where
  "paging_structure_alloc = structure_alloc_with page_map"

definition paging_allocator_init :: "u32 \<Rightarrow> 'a paging_scheme \<Rightarrow> 'a paging_scheme" where
  "paging_allocator_init KERN_END s = s\<lparr>placement_heap := (KERN_END AND 0xFFFFF000) + PAGE_SIZE\<rparr>"

definition page_unmap :: "u32 \<Rightarrow> 'a paging_scheme \<Rightarrow> ('a paging_scheme) kres" where
  "page_unmap va s =
     kbind (panic_if (\<not> IS_PAGE_ALIGNED va) ''virtual address is not page-aligned'') (\<lambda>_.
     kbind (read32 (pde_at va) s) (\<lambda>pde.
     if \<not> bit pde 0 then
       kbind (sprintf (''page directory entry not present for virtual address %x'' @ [CHR 0x0A]) [VInt va])
         (\<lambda>buffer. Inl (Panic buffer))
     else
       kbind (read32 (pte_at va) s) (\<lambda>pte.
       if \<not> bit pte 0 then
         kbind (sprintf (''page table entry not present for virtual address %x'' @ [CHR 0x0A]) [VInt va])
           (\<lambda>buffer. Inl (Panic buffer))
       else
         kbind (write32 (pte_at va) 0 s) (\<lambda>s'. Inr (flush_tlb va s')))))"

text \<open>\<open>tty_remap\<close>: the two loops over the pages of the text buffer.\<close>

definition VGA_TEXT_BUFFER_START :: u32 where "VGA_TEXT_BUFFER_START = 0xB8000"
definition VGA_TEXT_BUFFER_END :: u32 where "VGA_TEXT_BUFFER_END = 0xBFFFF"
definition IO_MMAP_HIGH_OFFSET :: u32 where "IO_MMAP_HIGH_OFFSET = 0xF0000000"

primrec remap_pages :: "nat \<Rightarrow> u32 \<Rightarrow> u32 \<Rightarrow> u32 \<Rightarrow> 'a paging_scheme \<Rightarrow> ('a paging_scheme) kres" where
  "remap_pages 0 page low high s = Inr s"
| "remap_pages (Suc n) page low high s =
     kbind (page_map (low + push_bit PAGE_SIZE_SHIFT page) (high + push_bit PAGE_SIZE_SHIFT page) True False s)
       (remap_pages n (page + 1) low high)"

primrec unmap_pages :: "nat \<Rightarrow> u32 \<Rightarrow> u32 \<Rightarrow> 'a paging_scheme \<Rightarrow> ('a paging_scheme) kres" where
  "unmap_pages 0 page low s = Inr s"
| "unmap_pages (Suc n) page low s =
     kbind (page_unmap (low + push_bit PAGE_SIZE_SHIFT page) s) (unmap_pages n (page + 1) low)"

definition tty_remap :: "'a paging_scheme \<Rightarrow> ('a paging_scheme) kres" where
  "tty_remap s =
     (let low = tty_buf s; high = low + IO_MMAP_HIGH_OFFSET;
          pages = drop_bit PAGE_SIZE_SHIFT (PAGE_ALIGN_UP (VGA_TEXT_BUFFER_END - VGA_TEXT_BUFFER_START))
      in kbind (remap_pages (unat pages) 0 low high s) (\<lambda>s1.
         unmap_pages (unat pages) 0 low (s1\<lparr>tty_buf := high\<rparr>)))"

section \<open>The walk through the recursive mapping\<close>

text \<open>The last entry of the page directory is present and points to the directory itself.\<close>

definition recursive :: "'a paging_scheme \<Rightarrow> bool" where
  "recursive s \<longleftrightarrow> bit (pmem s (cr3 s) 1023) 0 \<and> frame_of (pmem s (cr3 s) 1023) = cr3 s"

lemma pd_index_nat: "pd_index va = of_nat (unat va div 4194304)"
  unfolding pd_index_def ucast_of_nat unat_drop_bit_u32 by simp

lemma pt_index_nat: "pt_index va = of_nat (unat va div 4096)"
  unfolding pt_index_def ucast_of_nat unat_drop_bit_u32 by simp

lemma word_index_nat: "word_index va = of_nat (unat va div 4)"
  unfolding word_index_def ucast_of_nat unat_drop_bit_u32 by simp

lemma pgdir_index_nat: "unat (pgdir_index va) = unat va div 4194304"
  unfolding pgdir_index_def unat_drop_bit_u32 by simp

lemma pgtbl_index_nat: "unat (pgtbl_index va) = unat va div 4096 mod 1024"
proof -
  have "(0x3FF :: u32) = mask 10" by (simp add: mask_eq_exp_minus_1)
  then have "unat (pgtbl_index va) = unat (take_bit 10 (drop_bit 12 va))"
    by (simp only: pgtbl_index_def take_bit_eq_mask)
  also have "\<dots> = take_bit 10 (unat va div 4096)"
    by (simp only: unsigned_take_bit_eq unat_drop_bit_u32) simp
  finally show ?thesis by (simp add: take_bit_eq_mod)
qed

lemma of_nat_10: "(of_nat n :: 10 word) = of_nat m \<longleftrightarrow> n mod 1024 = m mod 1024"
  by (simp add: word_unat_eq_iff unat_of_nat)

lemma window_div:
  assumes "i < 1024" "j < (1024 :: nat)"
  shows "(0xFFFFF000 + 4 * i) div 4194304 = 1023" "(0xFFFFF000 + 4 * i) div 4096 = 1048575"
    "(0xFFFFF000 + 4 * i) div 4 = 1073740800 + i"
    "(0xFFC00000 + 4096 * i + 4 * j) div 4194304 = 1023"
    "(0xFFC00000 + 4096 * i + 4 * j) div 4096 = 1047552 + i"
    "(0xFFC00000 + 4096 * i + 4 * j) div 4 = 1072693248 + 1024 * i + j"
  using assms by (intro div_nat_eqI; simp)+

lemma window_mod:
  assumes "i < 1024" "j < (1024 :: nat)"
  shows "(1073740800 + i) mod 1024 = i" "(1047552 + i) mod 1024 = i"
    "(1072693248 + 1024 * i + j) mod 1024 = j"
  using assms mod_mult_self4 [of 1024 "1048575" i] mod_mult_self4 [of 1024 "1023" i]
    mod_mult_self4 [of 1024 "1047552 + i" j] by (simp_all add: algebra_simps)

lemma pgdir_index_of_nat: "pgdir_index va = of_nat (unat va div 4194304)"
  using pgdir_index_nat [of va] by (metis of_nat_unat ucast_id)

lemma pgtbl_index_of_nat: "pgtbl_index va = of_nat (unat va div 4096 mod 1024)"
  using pgtbl_index_nat [of va] by (metis of_nat_unat ucast_id)

lemma pde_at_parts [simp]:
  "pd_index (pde_at va) = 1023" "pt_index (pde_at va) = 1023" "word_index (pde_at va) = pd_index va"
proof -
  define i where "i = unat va div 4194304"
  have i: "i < 1024" using unat_lt_2p [of va] by (simp add: i_def less_mult_imp_div_less)
  have "pde_at va = of_nat (0xFFFFF000 + 4 * i)"
    unfolding pde_at_def pgdir_index_of_nat i_def by simp
  then have u: "unat (pde_at va) = 0xFFFFF000 + 4 * i" using i by (simp only: unat_of_nat_u32)
  show "pd_index (pde_at va) = 1023" unfolding pd_index_nat u window_div(1) [OF i i] by simp
  show "pt_index (pde_at va) = 1023" unfolding pt_index_nat u window_div(2) [OF i i] by simp
  show "word_index (pde_at va) = pd_index va"
    unfolding word_index_nat u window_div(3) [OF i i] pd_index_nat i_def [symmetric] of_nat_10
      window_mod(1) [OF i i] using i by simp
qed

lemma pte_at_parts [simp]:
  "pd_index (pte_at va) = 1023" "pt_index (pte_at va) = pd_index va" "word_index (pte_at va) = pt_index va"
proof -
  define i where "i = unat va div 4194304"
  define j where "j = unat va div 4096 mod 1024"
  have i: "i < 1024" using unat_lt_2p [of va] by (simp add: i_def less_mult_imp_div_less)
  have j: "j < 1024" by (simp add: j_def)
  have "pte_at va = of_nat (0xFFC00000 + 4096 * i + 4 * j)"
    unfolding pte_at_def pgdir_index_of_nat pgtbl_index_of_nat i_def j_def by simp
  then have u: "unat (pte_at va) = 0xFFC00000 + 4096 * i + 4 * j" using i j by (simp only: unat_of_nat_u32)
  show "pd_index (pte_at va) = 1023" unfolding pd_index_nat u window_div(4) [OF i j] by simp
  show "pt_index (pte_at va) = pd_index va"
    unfolding pt_index_nat u window_div(5) [OF i j] pd_index_nat i_def [symmetric] of_nat_10
      window_mod(2) [OF i j] using i by simp
  show "word_index (pte_at va) = pt_index va"
    unfolding word_index_nat u window_div(6) [OF i j] pt_index_nat of_nat_10 window_mod(3) [OF i j]
    by (simp add: j_def)
qed

abbreviation pde_of :: "'a paging_scheme \<Rightarrow> u32 \<Rightarrow> u32" where
  "pde_of s va \<equiv> pmem s (cr3 s) (pd_index va)"

abbreviation pte_of :: "'a paging_scheme \<Rightarrow> u32 \<Rightarrow> u32" where
  "pte_of s va \<equiv> pmem s (frame_of (pde_of s va)) (pt_index va)"

lemma translate_pde_at: "recursive s \<Longrightarrow> translate (pde_at va) s = Inr (cr3 s)"
  by (simp add: translate_def recursive_def)

lemma translate_pte_at: "recursive s \<Longrightarrow>
    translate (pte_at va) s = (if bit (pde_of s va) 0 then Inr (frame_of (pde_of s va)) else Inl (Page_Fault (pte_at va)))"
  by (simp add: translate_def recursive_def)

lemma read_pde: "recursive s \<Longrightarrow> read32 (pde_at va) s = Inr (pde_of s va)"
  by (simp add: read32_def translate_pde_at)

lemma read_pte: "recursive s \<Longrightarrow> bit (pde_of s va) 0 \<Longrightarrow> read32 (pte_at va) s = Inr (pte_of s va)"
  by (simp add: read32_def translate_pte_at)

lemma update_pde: "recursive s \<Longrightarrow>
    update32 (pde_at va) f s = Inr (poke (cr3 s) (pd_index va) (f (pde_of s va)) s)"
  by (simp add: update32_def read_pde write32_def translate_pde_at)

lemma update_pte: "recursive s \<Longrightarrow> bit (pde_of s va) 0 \<Longrightarrow>
    update32 (pte_at va) f s = Inr (poke (frame_of (pde_of s va)) (pt_index va) (f (pte_of s va)) s)"
  by (simp add: update32_def read_pte write32_def translate_pte_at)

lemma frame_bits: "bit (frame_of w) n \<longleftrightarrow> n < 20 \<and> bit w (n + 12)"
  by (auto simp: frame_of_def bit_simps add.commute)

lemma low_bits: "bit (0xFFF :: int) n \<longleftrightarrow> n < 12"
proof -
  have "(0xFFF :: int) = mask 12" by (simp add: mask_eq_exp_minus_1)
  then show ?thesis by (simp only: bit_mask_iff) auto
qed

lemma page_base: "(w :: u32) AND NOT 0xFFF = push_bit 12 (ucast (frame_of w))"
  by (rule bit_word_eqI) (auto simp: bit_simps frame_bits low_bits simp flip: add_diff_inverse_nat)

lemma page_base_neg: "(w :: u32) AND - 4096 = push_bit 12 (ucast (frame_of w))"
  using page_base [of w] by simp

lemma unat_page_base: "unat (w AND - 4096 :: u32) = 4096 * (unat w div 4096)"
proof -
  have d: "unat w div 4096 < 1048576" using unat_lt_2p [of w] by (simp add: less_mult_imp_div_less)
  then have "unat (frame_of w) = unat w div 4096"
    unfolding frame_of_def ucast_of_nat unat_drop_bit_u32 by (simp add: unat_frame)
  then show ?thesis
    unfolding page_base_neg push_bit_eq_mult using d by (simp add: unat_word_ariths)
qed

lemma unat_PAGE_ALIGN_DOWN: "unat (PAGE_ALIGN_DOWN a) = 4096 * (unat a div 4096)"
  using unat_page_base [of a] by (simp add: PAGE_ALIGN_DOWN_def PAGE_SIZE_eq)

lemma translate_same_page:
  assumes "unat a div 4096 = unat b div 4096"
  shows "translate a s = (case translate b s of Inl e \<Rightarrow> Inl (Page_Fault a) | Inr f \<Rightarrow> Inr f)"
proof -
  have "x div 4194304 = x div 4096 div 1024" for x :: nat by (simp add: div_mult2_eq [symmetric])
  then have "pd_index a = pd_index b" "pt_index a = pt_index b" using assms by (simp_all add: pd_index_nat pt_index_nat)
  then show ?thesis by (simp add: translate_def Let_def)
qed

lemma frame_set_flag [simp]: "n < 12 \<Longrightarrow> frame_of (set_flag n b w) = frame_of w"
  by (rule bit_word_eqI) (auto simp: frame_bits set_flag_def bit_simps)

lemma frame_set_address [simp]: "frame_of (set_address a w) = ucast a"
  by (rule bit_word_eqI) (auto simp: frame_bits set_address_def bit_simps low_bits)

lemma present_set_address [simp]: "bit (set_address a w) 0 = bit w 0"
  by (auto simp: set_address_def bit_simps low_bits)

lemma present_set_flag [simp]: "bit (set_flag n b w) 0 = (if n = 0 then b else bit w 0)"
  by (auto simp: set_flag_def bit_simps)

lemma poke_simps [simp]:
  "cr3 (poke f i v s) = cr3 s" "page_bitmap (poke f i v s) = page_bitmap s"
  "placement_heap (poke f i v s) = placement_heap s" "tlb_flushes (poke f i v s) = tlb_flushes s"
  "pmem (poke f i v s) g j = (if g = f \<and> j = i then v else pmem s g j)"
  by (simp_all add: poke_def)

lemma poke_poke [simp]: "poke f i w (poke f i v s) = poke f i w s"
  by (simp add: poke_def)

section \<open>The nesting bound\<close>

definition bounded :: "'b kres \<Rightarrow> bool" where
  "bounded m \<longleftrightarrow> m \<noteq> Inl Nesting"

lemma bounded_simps [simp]:
  "bounded (Inr x)" "bounded (Inl e) \<longleftrightarrow> e \<noteq> Nesting" "bounded (panic_if c m)" "bounded (kassert c m)"
  by (auto simp: bounded_def panic_if_def kassert_def)

lemma bounded_kbind: "bounded m \<Longrightarrow> (\<And>x. m = Inr x \<Longrightarrow> bounded (f x)) \<Longrightarrow> bounded (kbind m f)"
  by (cases m) (auto simp: bounded_def)

lemma bounded_convert: "bounded (convert f args)"
  by (simp split: list.split varg.split)

lemma bounded_vsprintf: "bounded (vsprintf_text fmt args)"
proof (induction fmt args rule: vsprintf_text.induct)
  case (2 c fmt args)
  show ?case
  proof (cases "c = CHR ''%''")
    case True
    show ?thesis
    proof (cases fmt)
      case (Cons f fmt')
      have "bounded (vsprintf_text fmt' rest)" if "convert f args = Inr (out, rest)" "f \<noteq> CHR 0x00" for out rest
        using 2(1) [OF _ True Cons that(2,1)] True by simp
      then show ?thesis
        using True Cons by (auto simp del: convert.simps intro!: bounded_kbind bounded_convert)
    qed (use True in simp)
  next
    case False
    with 2(2) show ?thesis by (cases "c = CHR 0x00") (auto intro!: bounded_kbind)
  qed
qed simp

lemma bounded_sprintf: "bounded (sprintf fmt args)"
  by (auto simp: sprintf_def vsprintf_def split: prod.split intro!: bounded_kbind bounded_vsprintf)

lemma bounded_translate: "bounded (translate va s)"
  by (simp add: translate_def Let_def)

lemma bounded_read32: "bounded (read32 va s)"
  by (simp add: read32_def bounded_kbind bounded_translate)

lemma bounded_write32: "bounded (write32 va v s)"
  by (simp add: write32_def bounded_kbind bounded_translate)

lemma bounded_update32: "bounded (update32 va f s)"
  by (simp add: update32_def bounded_kbind bounded_read32 bounded_write32)

lemma bounded_virt_to_phys: "bounded (virt_to_phys va s)"
  by (auto simp: virt_to_phys_def intro!: bounded_kbind bounded_read32 bounded_sprintf)

lemma bounded_zero_words: "bounded (zero_words n va s)"
  by (induction n arbitrary: va s) (auto intro!: bounded_kbind bounded_write32)

lemma bounded_at_word: "bounded (at_word w b)"
  by (simp add: at_word_def)

lemma bounded_first_free_word: "bounded (first_free_word n w b)"
  by (induction n arbitrary: w) (auto intro!: bounded_kbind bounded_at_word split: option.split)

lemma bounded_page_alloc: "bounded (page_alloc p s)"
  by (auto simp: page_alloc_def bitmap_first_free_def bitmap_set_bit_def
      intro!: bounded_kbind bounded_first_free_word bounded_at_word)

lemma bounded_test_bit: "bounded (bitmap_test_bit i b)"
  by (auto simp: bitmap_test_bit_def intro!: bounded_kbind bounded_at_word)

lemmas bounded_intros = bounded_kbind bounded_sprintf bounded_read32 bounded_write32 bounded_update32
  bounded_virt_to_phys bounded_zero_words bounded_page_alloc bounded_test_bit

lemma page_alloc_keeps:
  "page_alloc p s = Inr (q, t) \<Longrightarrow> pmem t = pmem s \<and> cr3 t = cr3 s \<and> placement_heap t = placement_heap s"
  by (auto simp: page_alloc_def kbind_eq_Inr split: if_splits)

text \<open>Setting a flag in an entry never hides a page and never moves one.\<close>

lemma translate_set_flag:
  assumes "translate a s = Inr g" "n < 12"
  shows "translate a (poke f i (set_flag n True (pmem s f i)) s) = Inr g"
  using assms by (auto simp: translate_def Let_def split: if_splits)

text \<open>A directory entry that is present as far as it can be read.\<close>

definition settled :: "u32 \<Rightarrow> 'a paging_scheme \<Rightarrow> bool" where
  "settled va s \<longleftrightarrow> (\<forall>w. read32 (pde_at va) s = Inr w \<longrightarrow> bit w 0)"

lemma settled_flag: "update32 (pde_at va) (set_flag 0 True) s = Inr t \<Longrightarrow> settled va t"
  using translate_set_flag [of "pde_at va" s _ 0]
  by (auto simp: settled_def update32_def read32_def write32_def kbind_eq_Inr)

lemma settled_flag_keeps:
  "settled va s \<Longrightarrow> n < 12 \<Longrightarrow> update32 (pde_at va) (set_flag n True) s = Inr t \<Longrightarrow> settled va t"
  using translate_set_flag [of "pde_at va" s _ n]
  by (auto simp: settled_def update32_def read32_def write32_def kbind_eq_Inr)

lemma update32_heap: "update32 a f s = Inr t \<Longrightarrow> placement_heap t = placement_heap s"
  by (auto simp: update32_def write32_def kbind_eq_Inr)

text \<open>\<open>page_map\<close> with two allocators that agree where they can be called.\<close>

lemma page_map_with_cong:
  assumes "\<And>s3. \<not> settled va s \<Longrightarrow> settled va s3 \<Longrightarrow> placement_heap s3 = placement_heap s \<Longrightarrow>
    alloc s3 = alloc' s3 \<and> bounded (alloc s3)"
  shows "page_map_with alloc pa va rw user s = page_map_with alloc' pa va rw user s \<and>
    bounded (page_map_with alloc pa va rw user s)"
proof -
  have new: "alloc s3 = alloc' s3 \<and> bounded (alloc s3)"
    if "read32 (pde_at va) s = Inr w" "\<not> bit w 0" "update32 (pde_at va) (set_flag 0 True) s = Inr s1"
      "update32 (pde_at va) (set_flag 1 True) s1 = Inr s2"
      "update32 (pde_at va) (set_flag 2 True) s2 = Inr s3" for w s1 s2 s3
  proof (rule assms)
    show "\<not> settled va s" using that(1,2) by (auto simp: settled_def)
    have "settled va s1" using settled_flag that(3) by blast
    from settled_flag_keeps [OF this _ that(4)] have "settled va s2" by simp
    from settled_flag_keeps [OF this _ that(5)] show "settled va s3" by simp
    show "placement_heap s3 = placement_heap s" using that(3-5) update32_heap by metis
  qed
  show ?thesis
    unfolding page_map_with_def using new
    by (intro conjI kbind_cong refl if_cong bounded_intros) (auto intro!: bounded_intros)
qed

lemma structure_alloc_cong:
  assumes "\<And>pa t. placement_heap t = placement_heap s \<Longrightarrow> pmem t = pmem s \<Longrightarrow> cr3 t = cr3 s \<Longrightarrow>
    mapper pa (placement_heap s) True False t = mapper' pa (placement_heap s) True False t \<and>
    bounded (mapper pa (placement_heap s) True False t)"
  shows "structure_alloc_with mapper s = structure_alloc_with mapper' s \<and>
    bounded (structure_alloc_with mapper s)"
proof -
  have "mapper pa (placement_heap t) True False t = mapper' pa (placement_heap t) True False t \<and>
      bounded (mapper pa (placement_heap t) True False t) \<and>
      bounded (mapper' pa (placement_heap t) True False t)"
    if "page_alloc pte_zero s = Inr (q, t)" for pa q t
    using assms [of t pa] page_alloc_keeps [OF that] by metis
  then show ?thesis
    unfolding structure_alloc_with_def
    by (intro conjI kbind_cong refl bounded_intros)
      (auto split: option.split intro!: kbind_cong bounded_intros)
qed

lemma nested_settled:
  "settled va s \<Longrightarrow> page_map_nested (Suc n) pa va rw user s = page_map_nested (Suc m) pa va rw user s \<and>
    bounded (page_map_nested (Suc n) pa va rw user s)"
  unfolding page_map_nested.simps by (rule page_map_with_cong) simp

lemma settled_cong: "pmem t = pmem s \<Longrightarrow> cr3 t = cr3 s \<Longrightarrow> settled va t = settled va s"
  by (simp add: settled_def read32_def translate_def Let_def)

lemma nested_heap:
  "page_map_nested (Suc (Suc n)) pa (placement_heap s) rw user s =
     page_map_nested (Suc (Suc m)) pa (placement_heap s) rw user s \<and>
   bounded (page_map_nested (Suc (Suc n)) pa (placement_heap s) rw user s)"
proof -
  have "structure_alloc_with (page_map_nested (Suc n)) s3 = structure_alloc_with (page_map_nested (Suc m)) s3 \<and>
      bounded (structure_alloc_with (page_map_nested (Suc n)) s3)"
    if "settled (placement_heap s) s3" "placement_heap s3 = placement_heap s" for s3
  proof (rule structure_alloc_cong)
    fix pa t
    assume "placement_heap t = placement_heap s3" "pmem t = pmem s3" "cr3 t = cr3 s3"
    with that have "settled (placement_heap s3) t" using settled_cong by metis
    then show "page_map_nested (Suc n) pa (placement_heap s3) True False t =
        page_map_nested (Suc m) pa (placement_heap s3) True False t \<and>
        bounded (page_map_nested (Suc n) pa (placement_heap s3) True False t)" by (rule nested_settled)
  qed
  then show ?thesis
    unfolding page_map_nested.simps(2) [of "Suc n"] page_map_nested.simps(2) [of "Suc m"]
    by (intro page_map_with_cong) blast
qed

lemma page_map_nesting:
  "page_map_nested (n + 3) pa va rw user s = page_map_nested (m + 3) pa va rw user s \<and>
   bounded (page_map_nested (n + 3) pa va rw user s)"
proof -
  have "structure_alloc_with (page_map_nested (Suc (Suc n))) s3 =
      structure_alloc_with (page_map_nested (Suc (Suc m))) s3 \<and>
      bounded (structure_alloc_with (page_map_nested (Suc (Suc n))) s3)" for s3 :: "'a paging_scheme"
    by (rule structure_alloc_cong) (metis nested_heap)
  then have "page_map_nested (Suc (Suc (Suc n))) pa va rw user s =
      page_map_nested (Suc (Suc (Suc m))) pa va rw user s \<and>
      bounded (page_map_nested (Suc (Suc (Suc n))) pa va rw user s)"
    unfolding page_map_nested.simps(2) [of "Suc (Suc n)"] page_map_nested.simps(2) [of "Suc (Suc m)"]
    by (intro page_map_with_cong) blast
  then show ?thesis unfolding add_Suc_right numeral_3_eq_3 add_0_right .
qed

section \<open>What mapping does\<close>

definition new_entry :: "u32 \<Rightarrow> bool \<Rightarrow> bool \<Rightarrow> u32 \<Rightarrow> u32" where
  "new_entry pa rw user w =
     set_address (drop_bit 12 pa) (set_flag 2 user (set_flag 1 rw (set_flag 0 True w)))"

abbreviation table_of :: "'a paging_scheme \<Rightarrow> u32 \<Rightarrow> 20 word" where
  "table_of s va \<equiv> frame_of (pde_of s va)"

text \<open>The page of a physical address is taken, and the bitmap knows it.\<close>

definition page_taken :: "u32 \<Rightarrow> 'a paging_scheme \<Rightarrow> bool" where
  "page_taken pa s \<longleftrightarrow> unat pa div 4096 \<in> in_use s"

text \<open>An address whose table exists, whose page is free, and that is not part of the window.\<close>

definition slot_free :: "u32 \<Rightarrow> 'a paging_scheme \<Rightarrow> bool" where
  "slot_free va s \<longleftrightarrow> pd_index va \<noteq> 1023 \<and> bit (pde_of s va) 0 \<and> table_of s va \<noteq> cr3 s \<and> \<not> bit (pte_of s va) 0"

lemma page_taken_test:
  assumes "pages_ok s" "page_taken pa s"
  shows "bitmap_test_bit (drop_bit PAGE_SIZE_SHIFT pa) (page_bitmap s) = Inr True"
proof -
  have u: "unat (drop_bit PAGE_SIZE_SHIFT pa) = unat pa div 4096"
    by (simp add: PAGE_SIZE_SHIFT_def unat_drop_bit_u32)
  moreover have "unat pa div 4096 < capacity (page_bitmap s)"
    using assms by (auto simp: page_taken_def in_use_def used_def capacity_def)
  ultimately show ?thesis using bm.test_law assms(2) by (simp add: page_taken_def in_use_def)
qed

lemma recursive_poke: "recursive s \<Longrightarrow> f \<noteq> cr3 s \<Longrightarrow> recursive (poke f i v s)"
  by (simp add: recursive_def)

lemma recursive_poke_pd: "recursive s \<Longrightarrow> i \<noteq> 1023 \<Longrightarrow> recursive (poke (cr3 s) i v s)"
  by (simp add: recursive_def)

lemma page_map_slot:
  assumes "pages_ok s" "recursive s" "IS_PAGE_ALIGNED pa" "IS_PAGE_ALIGNED va" "page_taken pa s" "slot_free va s"
  shows "page_map_with alloc pa va rw user s =
    Inr (flush_tlb va (poke (table_of s va) (pt_index va) (new_entry pa rw user (pte_of s va)) s))"
proof -
  have ne: "table_of s va \<noteq> cr3 s" "cr3 s \<noteq> table_of s va" "bit (pde_of s va) 0" "\<not> bit (pte_of s va) 0"
    using assms(6) by (auto simp: slot_free_def)
  show ?thesis
    using assms(1-5) ne
    by (simp add: page_map_with_def page_taken_test read_pde read_pte update_pte recursive_poke new_entry_def)
qed

lemma frame_new_entry [simp]: "frame_of (new_entry pa rw user w) = frame_of pa"
  by (rule bit_word_eqI) (auto simp: new_entry_def frame_bits bit_simps add.commute)

lemma present_new_entry [simp]: "bit (new_entry pa rw user w) 0"
  by (simp add: new_entry_def)

text \<open>One entry of a table changes: what that does to the walk.\<close>

lemma translate_poke_table:
  assumes "f \<noteq> cr3 s"
  shows "translate va (poke f i v s) =
    (if bit (pde_of s va) 0 \<and> table_of s va = f \<and> pt_index va = i
     then (if bit v 0 then Inr (frame_of v) else Inl (Page_Fault va)) else translate va s)"
  using assms by (auto simp: translate_def Let_def)

lemma translate_flush [simp]: "translate va (flush_tlb a s) = translate va s"
  by (simp add: flush_tlb_def translate_def Let_def)

text \<open>The address space in good order: the directory and all tables lie in pages taken from the
  bitmap, so a freshly allocated page is none of them.\<close>

definition vm_ok :: "'a paging_scheme \<Rightarrow> bool" where
  "vm_ok s \<longleftrightarrow> pages_ok s \<and> recursive s \<and> unat (cr3 s) \<in> in_use s \<and>
     (\<forall>i. unat (frame_of (pmem s (cr3 s) i)) \<in> in_use s)"

lemma in_use_poke [simp]: "in_use (poke f i v s) = in_use s" "pages_ok (poke f i v s) = pages_ok s"
    "page_limit (poke f i v s) = page_limit s"
  by (simp_all add: in_use_def pages_ok_def page_limit_def)

lemma flush_simps [simp]: "in_use (flush_tlb a s) = in_use s" "pages_ok (flush_tlb a s) = pages_ok s"
    "recursive (flush_tlb a s) = recursive s" "cr3 (flush_tlb a s) = cr3 s" "pmem (flush_tlb a s) = pmem s"
    "placement_heap (flush_tlb a s) = placement_heap s" "page_limit (flush_tlb a s) = page_limit s"
    "tlb_flushes (flush_tlb a s) = tlb_flushes s @ [a]"
  by (simp_all add: flush_tlb_def in_use_def pages_ok_def recursive_def page_limit_def)

lemma vm_ok_poke: "vm_ok s \<Longrightarrow> f \<noteq> cr3 s \<Longrightarrow> vm_ok (poke f i v s)"
  by (simp add: vm_ok_def recursive_poke)

lemma vm_ok_flush [simp]: "vm_ok (flush_tlb a s) = vm_ok s"
  by (simp add: vm_ok_def)

text \<open>Two addresses use different table entries.\<close>

definition other_entry :: "'a paging_scheme \<Rightarrow> u32 \<Rightarrow> u32 \<Rightarrow> bool" where
  "other_entry s a b \<longleftrightarrow> table_of s a \<noteq> table_of s b \<or> pt_index a \<noteq> pt_index b"

text \<open>\<open>page_map\<close> where the table exists.\<close>

lemma page_map_slot_spec:
  assumes "vm_ok s" "IS_PAGE_ALIGNED pa" "IS_PAGE_ALIGNED va" "page_taken pa s" "slot_free va s"
  shows "\<exists>t. page_map_nested (Suc n) pa va rw user s = Inr t \<and> translate va t = Inr (frame_of pa) \<and>
    vm_ok t \<and> in_use t = in_use s \<and> tlb_flushes t = tlb_flushes s @ [va] \<and>
    t = flush_tlb va (poke (table_of s va) (pt_index va) (new_entry pa rw user (pte_of s va)) s) \<and>
    (\<forall>a. other_entry s a va \<longrightarrow> translate a t = translate a s)"
proof -
  have "pages_ok s" "recursive s" using assms(1) by (simp_all add: vm_ok_def)
  from page_map_slot [OF this assms(2-5)] assms(5) vm_ok_poke [OF assms(1)] show ?thesis
    by (auto simp: slot_free_def translate_poke_table other_entry_def)
qed

section \<open>Clearing a page\<close>

lemma aligned_nat: "IS_PAGE_ALIGNED va \<longleftrightarrow> unat va mod 4096 = 0"
proof -
  have "unat (va AND 0xFFF) = 0 \<longleftrightarrow> va AND 0xFFF = 0" by (simp only: unat_eq_0)
  then show ?thesis by (simp only: IS_PAGE_ALIGNED_def unat_and_0xFFF)
qed

lemma page_word:
  assumes "IS_PAGE_ALIGNED va" "i < 1024"
  shows "pd_index (va + of_nat (4 * i)) = pd_index va" "pt_index (va + of_nat (4 * i)) = pt_index va"
    "word_index (va + of_nat (4 * i)) = of_nat i"
proof -
  obtain q where q: "unat va = 4096 * q" using assms(1) by (auto simp: aligned_nat)
  then have "q < 1048576" using unat_lt_2p [of va] by simp
  with q assms(2) have u: "unat (va + of_nat (4 * i)) = 4096 * q + 4 * i"
    by (subst u32_add_no_wrap) (simp_all add: unat_of_nat_u32 del: of_nat_mult)
  have "(4096 * q + 4 * i) div 4096 = q" using assms(2) by (intro div_nat_eqI) simp_all
  moreover have "(4096 * q + 4 * i) div 4194304 = 4096 * q div 4194304"
    using calculation div_mult2_eq [of "4096 * q + 4 * i" 4096 1024] div_mult2_eq [of "4096 * q" 4096 1024]
    by simp
  moreover have "(4096 * q + 4 * i) div 4 = 1024 * q + i" by simp
  ultimately show "pd_index (va + of_nat (4 * i)) = pd_index va" "pt_index (va + of_nat (4 * i)) = pt_index va"
    "word_index (va + of_nat (4 * i)) = of_nat i"
    unfolding pd_index_nat pt_index_nat word_index_nat u q using assms(2)
    by (simp_all add: of_nat_10 del: of_nat_add of_nat_mult)
qed

text \<open>Frame \<open>f\<close> with the words from \<open>i\<close> to \<open>j\<close> cleared.\<close>

definition cleared :: "20 word \<Rightarrow> nat \<Rightarrow> nat \<Rightarrow> 'a paging_scheme \<Rightarrow> 'a paging_scheme" where
  "cleared f i j s = s\<lparr>pmem := (pmem s)(f := \<lambda>w. if i \<le> unat w \<and> unat w < j then 0 else pmem s f w)\<rparr>"

lemma cleared_step:
  assumes "i < j" "i < 1024"
  shows "cleared f (Suc i) j (poke f (of_nat i) 0 s) = cleared f i j s"
proof -
  have "w = of_nat i \<longleftrightarrow> unat w = i" for w :: "10 word"
    using assms(2) by (auto simp: word_unat_eq_iff unat_of_nat)
  then have "(\<lambda>w. if Suc i \<le> unat w \<and> unat w < j then 0 else if w = of_nat i then 0 else pmem s f w) =
      (\<lambda>w. if i \<le> unat w \<and> unat w < j then 0 else pmem s f w)"
    using assms(1) by (intro ext) auto
  then show ?thesis by (simp add: cleared_def poke_def fun_upd_def cong: if_cong)
qed

lemma zero_words_spec:
  assumes "IS_PAGE_ALIGNED va"
  shows "translate va s = Inr f \<Longrightarrow> f \<noteq> cr3 s \<Longrightarrow> f \<noteq> table_of s va \<Longrightarrow> i + n \<le> 1024 \<Longrightarrow>
    zero_words n (va + of_nat (4 * i)) s = Inr (cleared f i (i + n) s)"
proof (induction n arbitrary: i s)
  case 0
  have "(\<lambda>w. if i \<le> unat w \<and> unat w < i then 0 else pmem s f w) = pmem s f"
    by (intro ext) auto
  then show ?case by (simp add: cleared_def)
next
  case (Suc n)
  note w = page_word [OF assms, of i]
  have tr: "translate (va + of_nat (4 * i)) s = Inr f"
    using Suc.prems(1,4) w by (auto simp: translate_def Let_def split: if_splits)
  let ?s = "poke f (of_nat i) 0 s"
  have "translate va ?s = Inr f" "f \<noteq> table_of ?s va"
    using Suc.prems by (auto simp: translate_poke_table)
  then have "zero_words n (va + of_nat (4 * Suc i)) ?s = Inr (cleared f (Suc i) (Suc i + n) ?s)"
    using Suc.prems by (intro Suc.IH) auto
  moreover have "va + of_nat (4 * i) + 4 = va + of_nat (4 * Suc i)" by simp
  ultimately show ?case
    using Suc.prems w tr cleared_step [of i "i + Suc n" f s] by (simp add: write32_def add_ac)
qed

lemma zero_page:
  assumes "IS_PAGE_ALIGNED va" "translate va s = Inr f" "f \<noteq> cr3 s" "f \<noteq> table_of s va"
  shows "zero_words 1024 va s = Inr (s\<lparr>pmem := (pmem s)(f := \<lambda>_. 0)\<rparr>)"
proof -
  have "unat w < 1024" for w :: "10 word" using unsigned_less [where w = w] by simp
  then show ?thesis using zero_words_spec [OF assms, of 0 1024] by (simp add: cleared_def)
qed

section \<open>\<open>virt_to_phys\<close> and the MMU\<close>

lemma virt_to_phys_translate:
  assumes "recursive s" "translate va s = Inr f"
  shows "virt_to_phys va s = Inr (push_bit 12 (ucast f) + (va AND 0xFFF))"
proof -
  from assms(2) have "bit (pde_of s va) 0" "bit (pte_of s va) 0" "f = frame_of (pte_of s va)"
    by (auto simp: translate_def Let_def split: if_splits)
  with assms(1) show ?thesis by (simp add: virt_to_phys_def read_pde read_pte page_base_neg)
qed

lemma sprintf_two:
  "\<exists>t. sprintf ''virtual address %x references invalid page directory entry %u'' [VInt a, VInt b] = Inr t"
  "\<exists>t. sprintf ''virtual address %x references invalid page table entry %u in page directory %u''
     [VInt a, VInt b, VInt c] = Inr t"
  by (simp_all add: sprintf_def vsprintf_def)

lemma virt_to_phys_unmapped:
  assumes "recursive s" "translate va s = Inl e"
  shows "\<exists>msg. virt_to_phys va s = Inl (Panic msg)"
proof (cases "bit (pde_of s va) 0")
  case True
  with assms have "\<not> bit (pte_of s va) 0" by (auto simp: translate_def Let_def split: if_splits)
  with True assms(1) sprintf_two(2) [of va "pgtbl_index va" "pgdir_index va"] show ?thesis
    by (auto simp: virt_to_phys_def read_pde read_pte)
next
  case False
  with assms(1) sprintf_two(1) [of va "pgdir_index va"] show ?thesis
    by (auto simp: virt_to_phys_def read_pde)
qed

section \<open>Mapping where the table is missing\<close>

definition heap_ready :: "u32 \<Rightarrow> 'a paging_scheme \<Rightarrow> bool" where
  "heap_ready va s \<longleftrightarrow> IS_PAGE_ALIGNED (placement_heap s) \<and> slot_free (placement_heap s) s \<and>
     pd_index (placement_heap s) \<noteq> pd_index va \<and> \<not> {..<page_limit s} \<subseteq> in_use s"

lemma frame_addr:
  fixes F :: "20 word"
  shows "IS_PAGE_ALIGNED (push_bit 12 (ucast F))" "frame_of (push_bit 12 (ucast F)) = F"
    "unat (push_bit 12 (ucast F) :: u32) div 4096 = unat F"
proof -
  have "unat F < 1048576" using unsigned_less [where w = F] by simp
  then have u: "unat (push_bit 12 (ucast F) :: u32) = 4096 * unat F"
    by (simp add: push_bit_eq_mult unat_word_ariths)
  then show "IS_PAGE_ALIGNED (push_bit 12 (ucast F))" "unat (push_bit 12 (ucast F) :: u32) div 4096 = unat F"
    by (simp_all add: aligned_nat)
  show "frame_of (push_bit 12 (ucast F)) = F"
    by (rule bit_word_eqI) (auto simp: frame_bits bit_simps)
qed

text \<open>The allocation of one table: its frame is fresh, its page is mapped at the placement heap and zero.\<close>

lemma structure_alloc_spec:
  assumes "vm_ok s" "IS_PAGE_ALIGNED (placement_heap s)" "slot_free (placement_heap s) s"
    "\<not> {..<page_limit s} \<subseteq> in_use s"
  shows "\<exists>F t. structure_alloc_with (page_map_nested (Suc n)) s = Inr (placement_heap s, t) \<and>
    unat F \<notin> in_use s \<and> in_use t = insert (unat F) (in_use s) \<and> vm_ok t \<and> cr3 t = cr3 s \<and>
    translate (placement_heap s) t = Inr F \<and> placement_heap t = placement_heap s + PAGE_SIZE \<and>
    page_limit t = page_limit s \<and>
    (\<forall>f i. pmem t f i = (if f = F then 0
       else if f = table_of s (placement_heap s) \<and> i = pt_index (placement_heap s)
       then new_entry (push_bit 12 (ucast F)) True False (pte_of s (placement_heap s)) else pmem s f i))"
proof -
  let ?ph = "placement_heap s"
  from assms(1) have ok: "pages_ok s" by (simp add: vm_ok_def)
  from page_alloc_some [OF ok assms(4), of pte_zero] obtain m s1 where
    a: "page_alloc pte_zero s = Inr (Some (pte_zero\<lparr>pte_address := of_nat m\<rparr>), s1)"
    "m < page_limit s" "m \<notin> in_use s" "in_use s1 = insert m (in_use s)" "pages_ok s1"
    "\<exists>b. s1 = s\<lparr>page_bitmap := b\<rparr>" "page_limit s1 = page_limit s" by auto
  define F where "F = (of_nat m :: 20 word)"
  have m: "unat F = m"
    unfolding F_def using a(2) page_limit_le [OF ok] by (intro unat_frame) simp
  from a(6) have s1: "pmem s1 = pmem s" "cr3 s1 = cr3 s" "placement_heap s1 = ?ph" by auto
  have ok1: "vm_ok s1" using assms(1) a(4,5) by (auto simp: vm_ok_def s1 recursive_def)
  let ?pa = "push_bit 12 (ucast F) :: u32"
  have "page_taken ?pa s1" by (simp add: page_taken_def frame_addr(3) a(4) m)
  moreover have "slot_free ?ph s1" using assms(3) by (simp add: slot_free_def s1)
  ultimately obtain s2 where s2: "page_map_nested (Suc n) ?pa ?ph True False s1 = Inr s2"
    "translate ?ph s2 = Inr F" "vm_ok s2" "in_use s2 = in_use s1"
    "s2 = flush_tlb ?ph (poke (table_of s1 ?ph) (pt_index ?ph) (new_entry ?pa True False (pte_of s1 ?ph)) s1)"
    using page_map_slot_spec [OF ok1 frame_addr(1) assms(2), of F n True False] frame_addr(2) [of F]
    by auto
  have fresh: "F \<noteq> cr3 s" "F \<noteq> table_of s ?ph" using a(3) assms(1) m by (auto simp: vm_ok_def)
  have tbl: "table_of s ?ph \<noteq> cr3 s" using assms(3) by (simp add: slot_free_def)
  then have "table_of s2 ?ph = table_of s ?ph" "cr3 s2 = cr3 s" by (auto simp: s2(5) s1)
  with fresh zero_page [OF assms(2) s2(2)] have z:
    "zero_words 1024 ?ph s2 = Inr (s2\<lparr>pmem := (pmem s2)(F := \<lambda>_. 0)\<rparr>)" by simp
  let ?t = "s2\<lparr>pmem := (pmem s2)(F := \<lambda>_. 0), placement_heap := ?ph + PAGE_SIZE\<rparr>"
  have heap2: "placement_heap s2 = ?ph" by (simp add: s2(5) s1)
  have "structure_alloc_with (page_map_nested (Suc n)) s = Inr (?ph, ?t)"
    using assms(2) a(1) s2(1) z heap2 s1(3)
    by (simp add: structure_alloc_with_def del: page_map_nested.simps flip: F_def)
  moreover have "vm_ok ?t"
    using s2(3) fresh \<open>cr3 s2 = cr3 s\<close>
    by (simp add: vm_ok_def pages_ok_def in_use_def recursive_def)
  moreover have "translate ?ph ?t = Inr F"
    using s2(2) fresh \<open>cr3 s2 = cr3 s\<close> \<open>table_of s2 ?ph = table_of s ?ph\<close>
    by (auto simp: translate_def Let_def split: if_splits)
  moreover have "in_use ?t = insert (unat F) (in_use s)" using s2(4) a(4) m by (simp add: in_use_def)
  moreover have "page_limit s2 = page_limit s" using a(7) by (simp add: s2(5))
  then have "page_limit ?t = page_limit s" by (simp add: page_limit_def)
  ultimately show ?thesis
    using a(3) m \<open>cr3 s2 = cr3 s\<close> by (intro exI [of _ F] exI [of _ ?t]) (auto simp: s2(5) s1)
qed

text \<open>Running \<open>page_map\<close> up to the point where the new table is in place.\<close>

lemma page_map_with_new_table:
  fixes s :: "'a paging_scheme" and va :: u32
  assumes "vm_ok s" "IS_PAGE_ALIGNED pa" "IS_PAGE_ALIGNED va" "page_taken pa s"
    "pd_index va \<noteq> 1023" "\<not> bit (pde_of s va) 0"
  defines "w3 \<equiv> set_flag 2 True (set_flag 1 True (set_flag 0 True (pde_of s va)))"
  assumes "alloc (poke (cr3 s) (pd_index va) w3 s) = Inr (table, sa)" "recursive sa"
    "virt_to_phys table sa = Inr phys" "bit (pde_of sa va) 0"
  defines "s5 \<equiv> poke (cr3 sa) (pd_index va) (set_address (drop_bit 12 phys) (pde_of sa va)) sa"
  assumes "pages_ok s5" "page_taken pa s5"
  shows "page_map_with alloc pa va rw user s = page_map_with alloc pa va rw user s5"
proof -
  have rec: "recursive s" "pages_ok s" using assms(1) by (simp_all add: vm_ok_def)
  have rec5: "recursive s5" "bit (pde_of s5 va) 0"
    using assms(5,9,11) by (simp_all add: s5_def recursive_poke_pd)
  have "kbind (update32 (pde_at va) (set_flag 0 True) s) (\<lambda>s1.
      kbind (update32 (pde_at va) (set_flag 1 True) s1) (\<lambda>s2.
      kbind (update32 (pde_at va) (set_flag 2 True) s2) (\<lambda>s3.
      kbind (alloc s3) (\<lambda>(table, s4).
      kbind (virt_to_phys table s4) (\<lambda>phys.
      update32 (pde_at va) (set_address (drop_bit 12 phys)) s4))))) = Inr s5"
    using rec assms(5,8-10) by (simp add: update_pde recursive_poke_pd w3_def s5_def)
  with rec rec5 assms(2-4,6,13,14) show ?thesis
    by (simp add: page_map_with_def page_taken_test read_pde)
qed

text \<open>The addresses whose walk a mapping that needs a new table leaves alone: not the page itself, not
  the page of the placement heap, not the window.\<close>

definition away :: "'a paging_scheme \<Rightarrow> u32 \<Rightarrow> u32 \<Rightarrow> bool" where
  "away s va a \<longleftrightarrow> other_entry s a (placement_heap s) \<and> table_of s a \<noteq> cr3 s \<and>
     (pd_index a \<noteq> pd_index va \<or> pt_index a \<noteq> pt_index va)"

lemma page_map_new_table:
  assumes "vm_ok s" "IS_PAGE_ALIGNED pa" "IS_PAGE_ALIGNED va" "page_taken pa s"
    "pd_index va \<noteq> 1023" "\<not> bit (pde_of s va) 0" "heap_ready va s"
  shows "\<exists>t. page_map_nested (Suc (Suc n)) pa va rw user s = Inr t \<and> translate va t = Inr (frame_of pa) \<and>
    vm_ok t \<and> in_use s \<subset> in_use t \<and> placement_heap t = placement_heap s + PAGE_SIZE \<and>
    (\<forall>a. away s va a \<longrightarrow> translate a t = translate a s) \<and>
    cr3 t = cr3 s \<and> unat (table_of t va) \<notin> in_use s \<and> in_use t = insert (unat (table_of t va)) (in_use s) \<and>
    (\<forall>f w. unat f \<in> in_use s \<longrightarrow> f \<noteq> table_of s (placement_heap s) \<longrightarrow> f \<noteq> cr3 s \<or> w \<noteq> pd_index va \<longrightarrow>
      pmem t f w = pmem s f w) \<and> page_limit t = page_limit s"
proof -
  let ?ph = "placement_heap s" and ?i = "pd_index va"
  define w3 where "w3 = set_flag 2 True (set_flag 1 True (set_flag 0 True (pde_of s va)))"
  let ?s3 = "poke (cr3 s) ?i w3 s"
  from assms(7) have ready: "IS_PAGE_ALIGNED ?ph" "slot_free ?ph s" "pd_index ?ph \<noteq> ?i"
    "\<not> {..<page_limit s} \<subseteq> in_use s" by (simp_all add: heap_ready_def)
  have vm3: "vm_ok ?s3" using assms(1,5) by (auto simp: vm_ok_def recursive_poke_pd w3_def)
  have slot3: "slot_free ?ph ?s3" using ready by (auto simp: slot_free_def)
  obtain F s4 where s4: "structure_alloc_with (page_map_nested (Suc n)) ?s3 = Inr (?ph, s4)"
    "unat F \<notin> in_use s" "in_use s4 = insert (unat F) (in_use s)" "vm_ok s4" "cr3 s4 = cr3 ?s3"
    "translate ?ph s4 = Inr F" "placement_heap s4 = ?ph + PAGE_SIZE"
    "\<forall>f i. pmem s4 f i = (if f = F then 0 else if f = table_of ?s3 ?ph \<and> i = pt_index ?ph
       then new_entry (push_bit 12 (ucast F)) True False (pte_of ?s3 ?ph) else pmem ?s3 f i)"
    "page_limit s4 = page_limit s"
    using structure_alloc_spec [OF vm3, of n, unfolded poke_simps(3) in_use_poke, OF ready(1) slot3 ready(4)]
    by blast
  have tbl: "table_of ?s3 ?ph = table_of s ?ph" "table_of s ?ph \<noteq> cr3 s"
    using ready(2,3) by (auto simp: slot_free_def)
  have fresh: "F \<noteq> cr3 s" "\<And>a. table_of s a \<noteq> F" "\<And>a. F \<noteq> table_of s a"
    using s4(2) assms(1) by (auto simp: vm_ok_def)
  have pde4: "pmem s4 (cr3 s) i = (if i = ?i then w3 else pmem s (cr3 s) i)" for i
    using s4(8) tbl fresh(1) by auto
  have virt: "virt_to_phys ?ph s4 = Inr (push_bit 12 (ucast F))"
    using virt_to_phys_translate [OF _ s4(6)] s4(4) ready(1) by (simp add: vm_ok_def IS_PAGE_ALIGNED_def)
  define s5 where "s5 = poke (cr3 s) ?i (set_address (drop_bit 12 (push_bit 12 (ucast F))) w3) s4"
  have F: "ucast (drop_bit 12 (push_bit 12 (ucast F)) :: u32) = F"
    by (rule bit_word_eqI) (auto simp: bit_simps)
  have pde5: "pmem s5 (cr3 s) i = (if i = ?i then set_address (drop_bit 12 (push_bit 12 (ucast F))) w3
      else pmem s (cr3 s) i)" for i using pde4 by (simp add: s5_def)
  have s5: "recursive s5" "cr3 s5 = cr3 s" "in_use s5 = in_use s4"
    using s4(4,5) assms(5) recursive_poke_pd [of s4 ?i] by (auto simp: s5_def vm_ok_def)
  have vm5: "vm_ok s5"
    using s5 s4(3,4) pde5 assms(1) F by (auto simp: vm_ok_def s5_def)
  have va5: "bit (pde_of s5 va) 0" "table_of s5 va = F" "pte_of s5 va = 0"
    using pde5 F s4(8) fresh(1) s5(2) by (auto simp: w3_def s5_def)
  have "slot_free va s5" using va5 fresh(1) s5(2) assms(5) by (simp add: slot_free_def)
  moreover have "page_taken pa s5" using assms(4) s5(3) s4(3) by (simp add: page_taken_def)
  ultimately obtain t where t: "page_map_nested (Suc (Suc n)) pa va rw user s5 = Inr t"
    "translate va t = Inr (frame_of pa)" "vm_ok t" "in_use t = in_use s4"
    "t = flush_tlb va (poke F (pt_index va) (new_entry pa rw user 0) s5)"
    using page_map_slot_spec [OF vm5 assms(2,3), of "Suc n" rw user] va5 s5(3) by auto
  have cr4: "cr3 s4 = cr3 s" using s4(5) by simp
  have w4: "pde_of s4 va = w3" using pde4 cr4 by simp
  have s5_alt: "s5 = poke (cr3 s4) ?i (set_address (drop_bit 12 (push_bit 12 (ucast F))) (pde_of s4 va)) s4"
    by (simp only: s5_def cr4 w4 [unfolded cr4])
  have rec4: "recursive s4" and bit4: "bit (pde_of s4 va) 0" and ok5: "pages_ok s5"
    using s4(4) vm5 by (simp_all add: vm_ok_def w4 w3_def)
  have "page_map_nested (Suc (Suc n)) pa va rw user s = Inr t"
    using page_map_with_new_table [OF assms(1-6), folded w3_def,
        where alloc = "structure_alloc_with (page_map_nested (Suc n))" and sa = s4, OF s4(1) rec4 virt bit4, folded s5_alt,
        OF ok5 \<open>page_taken pa s5\<close>] t(1)
    unfolding page_map_nested.simps(2) [of "Suc n"] by simp
  moreover have "translate a t = translate a s" if away: "away s va a" for a
  proof -
    have tr5: "translate a t = translate a s5"
      using away t(5) fresh(1) s5(2) pde5 F fresh(2)
      by (auto simp: translate_poke_table away_def w3_def)
    have tab: "table_of s a \<noteq> cr3 s" "other_entry s a ?ph" using away by (simp_all add: away_def)
    show ?thesis
    proof (cases "pd_index a = ?i")
      case True
      then have "pmem s5 F (pt_index a) = 0" using s4(8) fresh(1) by (simp add: s5_def)
      with True assms(6) pde5 F tr5 s5(2) show ?thesis
        by (simp add: translate_def Let_def w3_def)
    next
      case False
      have "pmem s5 (table_of s a) (pt_index a) = pmem s (table_of s a) (pt_index a)"
        using s4(8) tab fresh(2) tbl(1) by (auto simp: s5_def other_entry_def)
      with False pde5 tr5 s5(2) show ?thesis by (simp add: translate_def Let_def)
    qed
  qed
  moreover have "pmem t f w = pmem s f w"
    if "unat f \<in> in_use s" "f \<noteq> table_of s ?ph" "f \<noteq> cr3 s \<or> w \<noteq> ?i" for f w
  proof -
    have f: "f \<noteq> F" using that(1) s4(2) by auto
    then have "pmem t f w = pmem s5 f w" by (simp add: t(5))
    also have "\<dots> = pmem s4 f w" using that(3) by (auto simp: s5_def)
    also have "\<dots> = pmem s f w" using f that(2,3) s4(8) tbl(1) by auto
    finally show ?thesis .
  qed
  moreover have "cr3 t = cr3 s" "table_of t va = F"
    using s5(2) va5(2) fresh(1) by (auto simp: t(5))
  ultimately show ?thesis
    using t s4(2,3,7,9) by (intro exI [of _ t]) (auto simp: s5_def)
qed

lemma page_map_new_frames:
  assumes "vm_ok s" "IS_PAGE_ALIGNED pa" "IS_PAGE_ALIGNED va" "page_taken pa s"
    "pd_index va \<noteq> 1023" "\<not> bit (pde_of s va) 0" "heap_ready va s"
  shows "\<exists>t. page_map_nested (Suc (Suc n)) pa va rw user s = Inr t \<and> translate va t = Inr (frame_of pa) \<and>
    vm_ok t \<and> in_use s \<subset> in_use t \<and> placement_heap t = placement_heap s + PAGE_SIZE \<and>
    (\<forall>a. away s va a \<longrightarrow> translate a t = translate a s) \<and>
    cr3 t = cr3 s \<and> unat (table_of t va) \<notin> in_use s \<and> in_use t = insert (unat (table_of t va)) (in_use s) \<and>
    (\<forall>f w. unat f \<in> in_use s \<longrightarrow> f \<noteq> table_of s (placement_heap s) \<longrightarrow> f \<noteq> cr3 s \<or> w \<noteq> pd_index va \<longrightarrow>
      pmem t f w = pmem s f w)"
  using page_map_new_table [OF assms, of n rw user] by blast

lemma page_map_new_spec:
  assumes "vm_ok s" "IS_PAGE_ALIGNED pa" "IS_PAGE_ALIGNED va" "page_taken pa s"
    "pd_index va \<noteq> 1023" "\<not> bit (pde_of s va) 0" "heap_ready va s"
  shows "\<exists>t. page_map_nested (Suc (Suc n)) pa va rw user s = Inr t \<and> translate va t = Inr (frame_of pa) \<and>
    vm_ok t \<and> in_use s \<subset> in_use t \<and> placement_heap t = placement_heap s + PAGE_SIZE \<and>
    (\<forall>a. away s va a \<longrightarrow> translate a t = translate a s)"
  using page_map_new_frames [OF assms, of n rw user] by blast

section \<open>Unmapping\<close>

lemma write_pte: "recursive s \<Longrightarrow> bit (pde_of s va) 0 \<Longrightarrow>
    write32 (pte_at va) v s = Inr (poke (table_of s va) (pt_index va) v s)"
  by (simp add: write32_def translate_pte_at)

lemma page_unmap_spec:
  assumes "vm_ok s" "IS_PAGE_ALIGNED va" "translate va s = Inr f" "table_of s va \<noteq> cr3 s"
  shows "\<exists>t. page_unmap va s = Inr t \<and> translate va t = Inl (Page_Fault va) \<and> vm_ok t \<and>
    in_use t = in_use s \<and> tlb_flushes t = tlb_flushes s @ [va] \<and>
    (\<forall>a. other_entry s a va \<longrightarrow> translate a t = translate a s)"
proof -
  from assms(3) have p: "bit (pde_of s va) 0" "bit (pte_of s va) 0"
    by (auto simp: translate_def Let_def split: if_splits)
  have "recursive s" using assms(1) by (simp add: vm_ok_def)
  with p assms(2) have "page_unmap va s = Inr (flush_tlb va (poke (table_of s va) (pt_index va) 0 s))"
    by (simp add: page_unmap_def read_pde read_pte write_pte)
  with p assms(4) vm_ok_poke [OF assms(1,4)] show ?thesis
    by (auto simp: translate_poke_table other_entry_def)
qed

section \<open>Properties\<close>

text \<open>A machine with 64 MiB: the directory in frame 256, tables for the kernel image (entry 768) and the
  kernel heap (entry 832), both empty.\<close>

definition vm_zero :: paging where
  "vm_zero = \<lparr>out_log = [], con_log = [], if_flag = False, irq_mask = 0, tty_buf = 0xB8000,
     vga = (\<lambda>_. 0), tty_row = 0, tty_col = 0, tty_initialized = True, page_count = 16384,
     page_bitmap = page_bitmap pages_zero, page_bitmap_bits = [],
     pmem = (\<lambda>f i. if f = 256 then (if i = 1023 then 0x100003 else if i = 832 then 0x101003
       else if i = 768 then 0x102003 else 0) else 0),
     cr3 = 256, tlb_flushes = [], placement_heap = 0xC0200000\<rparr>"

lemma vm_zero_pages: "pages_ok vm_zero" "in_use vm_zero = {..<8192}" "page_limit vm_zero = 16384"
proof -
  have "i \<in> used (page_bitmap pages_zero) \<longleftrightarrow> i < 8192" for i
    unfolding used_def pages_zero_def u32_ones by (auto simp: nth_append)
  then show "in_use vm_zero = {..<8192}" by (auto simp: in_use_def vm_zero_def)
qed (use pages_zero_ok pages_zero_limit in \<open>auto simp: pages_ok_def page_limit_def vm_zero_def\<close>)

lemma vm_zero_entries: "cr3 vm_zero = 256" "pmem vm_zero 256 1023 = 0x100003" "pmem vm_zero 256 832 = 0x101003"
    "pmem vm_zero 256 768 = 0x102003" "pmem vm_zero 256 0 = 0" "f \<noteq> 256 \<Longrightarrow> pmem vm_zero f i = 0"
    "pmem vm_zero 256 i \<in> {0x100003, 0x101003, 0x102003, 0}"
  by (simp_all add: vm_zero_def)

lemma vm_zero_ok: "vm_ok vm_zero"
proof -
  have "recursive vm_zero"
    unfolding recursive_def vm_zero_entries by (simp add: frame_of_def drop_bit_eq_div bit_numeral_rec)
  moreover have "unat (frame_of (pmem vm_zero 256 i)) < 8192" for i
    using vm_zero_entries(7) [of i] by (auto simp: frame_of_def drop_bit_eq_div)
  ultimately show ?thesis
    by (simp add: vm_ok_def vm_zero_pages vm_zero_entries(1))
qed

text \<open>C3. \<open>virt_to_phys\<close> agrees with the MMU: with the recursive mapping in place it returns the physical
  address the two-level walk gives, offset included, for exactly the mapped addresses, and panics for
  all others.\<close>

theorem virt_to_phys_agrees:
  assumes "recursive s"
  shows "case translate va s of
      Inr f \<Rightarrow> virt_to_phys va s = Inr (push_bit 12 (ucast f) + (va AND 0xFFF))
    | Inl e \<Rightarrow> \<exists>msg. virt_to_phys va s = Inl (Panic msg)"
  using virt_to_phys_translate [OF assms] virt_to_phys_unmapped [OF assms] by (simp split: sum.split)

theorem virt_to_phys_agrees_witness:
  "case translate 0xFFFFF123 vm_zero of
      Inr f \<Rightarrow> virt_to_phys 0xFFFFF123 vm_zero = Inr (push_bit 12 (ucast f) + (0xFFFFF123 AND 0xFFF))
    | Inl e \<Rightarrow> \<exists>msg. virt_to_phys 0xFFFFF123 vm_zero = Inl (Panic msg)"
  by (rule virt_to_phys_agrees) (use vm_zero_ok in \<open>simp add: vm_ok_def\<close>)

text \<open>C24. \<open>page_map\<close> and \<open>paging_structure_alloc\<close> call each other, but the recursion is bounded: in any
  state of memory, any number of nested calls above three gives the same result, and the bound is
  never the reason a call fails.\<close>

theorem page_map_recursion_bounded:
  "page_map_nested (n + 3) physaddr va rw user s = page_map physaddr va rw user s \<and>
   page_map physaddr va rw user s \<noteq> Inl Nesting"
  using page_map_nesting [of n physaddr va rw user s 0] page_map_nesting [of 0 physaddr va rw user s 0]
  by (simp add: page_map_def bounded_def)

text \<open>C2. \<open>page_map\<close> maps: for an aligned address outside the window whose page is not mapped, and a
  physical page taken from the bitmap, it succeeds, the MMU then translates the address to that
  page, and the address space stays in good order. If the table exists, no other entry changes; if
  not, a table is allocated at the placement heap (whose own table must exist), and every address
  that is not on one of the two pages or in the window translates as before.\<close>

theorem page_map_maps:
  assumes "vm_ok s" "IS_PAGE_ALIGNED physaddr" "IS_PAGE_ALIGNED va" "page_taken physaddr s"
    and "slot_free va s \<or> pd_index va \<noteq> 1023 \<and> \<not> bit (pde_of s va) 0 \<and> heap_ready va s"
  shows "\<exists>t. page_map physaddr va rw user s = Inr t \<and> translate va t = Inr (frame_of physaddr) \<and> vm_ok t \<and>
    (\<forall>a. (if slot_free va s then other_entry s a va else away s va a) \<longrightarrow> translate a t = translate a s)"
proof (cases "slot_free va s")
  case True
  with page_map_slot_spec [OF assms(1-4) True, of "Suc (Suc 0)" rw user] show ?thesis
    by (auto simp: page_map_def numeral_3_eq_3 simp del: page_map_nested.simps)
next
  case False
  with assms(5) have "pd_index va \<noteq> 1023" "\<not> bit (pde_of s va) 0" "heap_ready va s" by auto
  from page_map_new_spec [OF assms(1-4) this, of "Suc 0" rw user] False show ?thesis
    by (auto simp: page_map_def numeral_3_eq_3 simp del: page_map_nested.simps)
qed

lemma heap_index: "pd_index 0xD0000000 = 832" "pt_index 0xD0000000 = 0" "pd_index 0xC0200000 = 768"
    "pt_index 0xC0200000 = 512" "IS_PAGE_ALIGNED 0xD0000000" "pd_index 0x100000 = 0" "pt_index 0x100000 = 256"
  by (simp_all add: pd_index_def pt_index_def drop_bit_eq_div aligned_nat)

lemma vm_zero_slot: "slot_free 0xD0000000 vm_zero"
  unfolding slot_free_def heap_index vm_zero_entries
  by (simp add: frame_of_def drop_bit_eq_div bit_numeral_rec vm_zero_entries)

theorem page_map_maps_witness:
  "\<exists>t. page_map 0x5000 0xD0000000 True False vm_zero = Inr t \<and> translate 0xD0000000 t = Inr (frame_of 0x5000)"
proof -
  have "IS_PAGE_ALIGNED 0x5000" "page_taken 0x5000 vm_zero"
    by (simp_all add: aligned_nat page_taken_def vm_zero_pages)
  from page_map_maps [OF vm_zero_ok this(1) heap_index(5) this(2), of True False] vm_zero_slot
  show ?thesis by auto
qed

text \<open>C23. \<open>page_unmap\<close> undoes a mapping: a mapped page outside the window becomes unmapped (the MMU
  faults on it), every address with another table entry translates as before, no physical page is
  released, and the address is flushed from the TLB; unmapping an unmapped address panics.\<close>

theorem page_unmap_unmaps:
  assumes "vm_ok s" "IS_PAGE_ALIGNED va" "table_of s va \<noteq> cr3 s"
  shows "case translate va s of
      Inr f \<Rightarrow> \<exists>t. page_unmap va s = Inr t \<and> translate va t = Inl (Page_Fault va) \<and> vm_ok t \<and>
        in_use t = in_use s \<and> tlb_flushes t = tlb_flushes s @ [va] \<and>
        (\<forall>a. other_entry s a va \<longrightarrow> translate a t = translate a s)
    | Inl e \<Rightarrow> \<exists>msg. page_unmap va s = Inl (Panic msg)"
proof (cases "translate va s")
  case (Inl e)
  have texts: "\<exists>t. sprintf (''page directory entry not present for virtual address %x'' @ [CHR 0x0A]) [VInt va] = Inr t"
    "\<exists>t. sprintf (''page table entry not present for virtual address %x'' @ [CHR 0x0A]) [VInt va] = Inr t"
    by (simp_all add: sprintf_def vsprintf_def)
  have rec: "recursive s" using assms(1) by (simp add: vm_ok_def)
  from Inl have "\<not> bit (pde_of s va) 0 \<or> bit (pde_of s va) 0 \<and> \<not> bit (pte_of s va) 0"
    by (auto simp: translate_def Let_def split: if_splits)
  with rec assms(2) texts have "\<exists>msg. page_unmap va s = Inl (Panic msg)"
    by (auto simp: page_unmap_def read_pde read_pte)
  with Inl show ?thesis by simp
next
  case (Inr f)
  with page_unmap_spec [OF assms(1,2) Inr assms(3)] show ?thesis by simp
qed

theorem page_unmap_unmaps_witness:
  "case translate 0xD0000000 vm_zero of
      Inr f \<Rightarrow> \<exists>t. page_unmap 0xD0000000 vm_zero = Inr t \<and> translate 0xD0000000 t = Inl (Page_Fault 0xD0000000) \<and>
        vm_ok t \<and> in_use t = in_use vm_zero \<and> tlb_flushes t = tlb_flushes vm_zero @ [0xD0000000] \<and>
        (\<forall>a. other_entry vm_zero a 0xD0000000 \<longrightarrow> translate a t = translate a vm_zero)
    | Inl e \<Rightarrow> \<exists>msg. page_unmap 0xD0000000 vm_zero = Inl (Panic msg)"
  by (rule page_unmap_unmaps [OF vm_zero_ok heap_index(5)]) (use vm_zero_slot in \<open>simp add: slot_free_def\<close>)

text \<open>C25. \<open>page_map\<close> refuses, by a panic, an unaligned address on either side, a physical page that the
  bitmap does not hold as taken, and a virtual page that is already mapped.\<close>

theorem page_map_refuses:
  assumes "vm_ok s" "unat physaddr div 4096 < 32768"
    and "\<not> IS_PAGE_ALIGNED physaddr \<or> \<not> IS_PAGE_ALIGNED va \<or> \<not> page_taken physaddr s \<or>
      (\<exists>f. translate va s = Inr f)"
  shows "\<exists>msg. page_map physaddr va rw user s = Inl (Panic msg)"
proof -
  have rec: "recursive s" "pages_ok s" using assms(1) by (simp_all add: vm_ok_def)
  have test: "bitmap_test_bit (drop_bit PAGE_SIZE_SHIFT physaddr) (page_bitmap s) = Inr (page_taken physaddr s)"
  proof -
    have "unat (drop_bit PAGE_SIZE_SHIFT physaddr) = unat physaddr div 4096"
      by (simp add: PAGE_SIZE_SHIFT_def unat_drop_bit_u32)
    with bm.test_law [of "drop_bit PAGE_SIZE_SHIFT physaddr" "page_bitmap s"] assms(2) rec(2) show ?thesis
      by (simp add: page_taken_def in_use_def pages_ok_def)
  qed
  have texts: "\<exists>t. sprintf ''page table entry already present for virtual address %x (mapped to physical address %x)''
      [VInt va, VInt a] = Inr t" for a
    by (simp add: sprintf_def vsprintf_def)
  have mapped: "bit (pde_of s va) 0" "bit (pte_of s va) 0" if "translate va s = Inr f" for f
    using that by (auto simp: translate_def Let_def split: if_splits)
  have "\<exists>msg. page_map_with alloc physaddr va rw user s = Inl (Panic msg)" for alloc
  proof (cases "IS_PAGE_ALIGNED physaddr \<and> IS_PAGE_ALIGNED va \<and> page_taken physaddr s")
    case True
    with assms(3) obtain f where "translate va s = Inr f" by auto
    from mapped [OF this] texts [of "push_bit 12 (get_address (pte_of s va))"] True rec(1) show ?thesis
      by (auto simp: page_map_with_def test read_pde read_pte)
  next
    case False
    then show ?thesis
      by (cases "IS_PAGE_ALIGNED physaddr"; cases "IS_PAGE_ALIGNED va") (auto simp: page_map_with_def test)
  qed
  then show ?thesis by (simp add: page_map_def numeral_3_eq_3)
qed

theorem page_map_refuses_witness:
  "\<exists>msg. page_map 0x5000 0xD0000800 True False vm_zero = Inl (Panic msg)"
proof (rule page_map_refuses [OF vm_zero_ok])
  have "\<not> IS_PAGE_ALIGNED 0xD0000800" by (simp add: aligned_nat)
  then show "\<not> IS_PAGE_ALIGNED 0x5000 \<or> \<not> IS_PAGE_ALIGNED 0xD0000800 \<or> \<not> page_taken 0x5000 vm_zero \<or>
      (\<exists>f. translate 0xD0000800 vm_zero = Inr f)" by simp
qed simp

end
