(* ===== verification/KernelHeap.thy ===== *)
theory KernelHeap
  imports Paging
begin

text \<open>
  \<open>kernel/kernel/vmm/heap.c\<close> and \<open>kernel/kernel/vmm/kernel_heap.c\<close>: the kernel heap, a growing range
  of virtual pages from 0xD0000000, and the four functions that the memory allocator calls to lock
  itself and to get and return pages.
\<close>

record heap =
  heap_base :: u32
  heap_size :: u32
  heap_flags :: u8

record kernel_heap = paging +
  kheap :: heap
  enable_int :: bool

definition KHEAP_START :: u32 where "KHEAP_START = 0xD0000000"
definition KHEAP_MAX_SIZE :: u32 where "KHEAP_MAX_SIZE = 0x100000"

section \<open>Operations\<close>

text \<open>
  \<open>heap_alloc\<close> initialises the structure it is given, or one it gets from \<open>kcalloc\<close>, here an
  argument, since the allocator is built on this theory: \<open>ptr\<close> is the address, \<open>h\<close> the content.
\<close>

definition heap_alloc :: "(u32 \<Rightarrow> u32 \<Rightarrow> 's \<Rightarrow> (u32 \<times> 's) kres) \<Rightarrow> u32 \<Rightarrow> heap \<Rightarrow> u32 \<Rightarrow> u32 \<Rightarrow> 's \<Rightarrow>
    (u32 \<times> heap \<times> 's) kres" where
  "heap_alloc calloc ptr h base len s =
     kbind (kassert (base \<noteq> 0) ''base'') (\<lambda>_.
     if base mod PAGE_SIZE \<noteq> 0 \<or> len mod PAGE_SIZE \<noteq> 0 then
       kbind (sprintf ''heap %p not page-aligned: base=%u, size=%u'' [VInt ptr, VInt base, VInt len])
         (\<lambda>buf. Inl (Panic buf))
     else
       kbind (if ptr = 0 then kbind (calloc 1 12 s) (\<lambda>(p, s'). Inr (p, \<lparr>heap_base = 0, heap_size = 0, heap_flags = 0\<rparr>, s'))
              else Inr (ptr, h, s)) (\<lambda>(p, h1, s1).
       kbind (kassert (p \<noteq> 0) ''heap'') (\<lambda>_.
       Inr (p, h1\<lparr>heap_base := base, heap_size := len\<rparr>, s1))))"

definition heap_grow :: "u32 \<Rightarrow> u32 \<Rightarrow> 's \<Rightarrow> (u32 \<times> 's) kres" where
  "heap_grow ptr n s = Inl (Panic ''THIS FUNCTION IS UNIMPLEMENTED AND SHOULD NOT BE USED'')"

definition heap_shrink :: "u32 \<Rightarrow> u32 \<Rightarrow> u32 \<Rightarrow> 's \<Rightarrow> 's kres" where
  "heap_shrink ptr p n s = Inl (Panic ''THIS FUNCTION IS UNIMPLEMENTED AND SHOULD NOT BE USED'')"

text \<open>\<open>addr\<close> is the link-time address of \<open>kheap\<close>, which is not null: \<open>kcalloc\<close> is not reached.\<close>

definition kernel_heap_init :: "u32 \<Rightarrow> 'a kernel_heap_scheme \<Rightarrow> ('a kernel_heap_scheme) kres" where
  "kernel_heap_init addr s =
     kbind (heap_alloc (\<lambda>_ _ s. Inr (0, s)) addr (kheap s) KHEAP_START 0 s) (\<lambda>(p, h, s').
     kbind (panic_if (p = 0) ''failed to create kernel heap'') (\<lambda>_.
     Inr (s'\<lparr>kheap := h\<rparr>)))"

definition liballoc_lock :: "'a kernel_heap_scheme \<Rightarrow> ('a kernel_heap_scheme) kres" where
  "liballoc_lock s =
     (if int_enabled s then int_disable (s\<lparr>enable_int := True\<rparr>) else Inr (s\<lparr>enable_int := False\<rparr>))"

definition liballoc_unlock :: "'a kernel_heap_scheme \<Rightarrow> ('a kernel_heap_scheme) kres" where
  "liballoc_unlock s = (if enable_int s then int_enable s else Inr s)"

primrec alloc_pages :: "nat \<Rightarrow> 'a kernel_heap_scheme \<Rightarrow> ('a kernel_heap_scheme) kres" where
  "alloc_pages 0 s = Inr s"
| "alloc_pages (Suc n) s =
     kbind (page_alloc pte_zero s) (\<lambda>(pte, s1).
     case pte of
       None \<Rightarrow> Inl (Panic ''out of memory'')
     | Some pte \<Rightarrow>
         let vaddr = heap_base (kheap s1) + heap_size (kheap s1) in
         kbind (page_map (push_bit 12 (ucast (pte_address pte))) vaddr True False s1) (\<lambda>s2.
         let s3 = s2\<lparr>kheap := (kheap s2)\<lparr>heap_size := heap_size (kheap s2) + PAGE_SIZE\<rparr>\<rparr> in
         kbind (panic_if (heap_size (kheap s3) > KHEAP_MAX_SIZE) ''maximum kernel heap size exceeded'') (\<lambda>_.
         alloc_pages n s3)))"

definition liballoc_alloc :: "u32 \<Rightarrow> 'a kernel_heap_scheme \<Rightarrow> (u32 \<times> 'a kernel_heap_scheme) kres" where
  "liballoc_alloc pages s =
     (if pages = 0 then Inr (0, worry ''allocating zero pages'' s)
      else let start = heap_base (kheap s) + heap_size (kheap s)
        in kbind (alloc_pages (unat pages) s) (\<lambda>s'. Inr (start, s')))"

primrec free_pages :: "nat \<Rightarrow> u32 \<Rightarrow> 'a kernel_heap_scheme \<Rightarrow> ('a kernel_heap_scheme) kres" where
  "free_pages 0 base s = Inr s"
| "free_pages (Suc n) base s =
     (let vaddr = base + push_bit PAGE_SIZE_SHIFT (of_nat n) in
      kbind (virt_to_phys vaddr s) (\<lambda>paddr.
      let pte = pte_zero\<lparr>pte_address := ucast (drop_bit 12 paddr)\<rparr> in
      kbind (page_unmap vaddr s) (\<lambda>s1.
      kbind (page_free pte s1) (\<lambda>s2.
      free_pages n base s2))))"

definition liballoc_free :: "u32 \<Rightarrow> u32 \<Rightarrow> 'a kernel_heap_scheme \<Rightarrow> (u32 \<times> 'a kernel_heap_scheme) kres" where
  "liballoc_free block pages s =
     kbind (kassert (block \<noteq> 0) ''block'') (\<lambda>_.
     kbind (kassert (IS_PAGE_ALIGNED block) ''IS_PAGE_ALIGNED(block)'') (\<lambda>_.
     if pages = 0 then Inr (- 1, worry ''freeing zero pages'' s)
     else
       kbind (panic_if (block > heap_base (kheap s) + heap_size (kheap s))
         ''freeing block outside range of kernel heap'') (\<lambda>_.
       kbind (free_pages (unat pages) block s) (\<lambda>s'. Inr (0, s')))))"

section \<open>Pages of the heap\<close>

definition heap_page :: "nat \<Rightarrow> u32" where
  "heap_page k = KHEAP_START + of_nat (4096 * k)"

lemma heap_page_unat: "k < 1024 \<Longrightarrow> unat (heap_page k) = 3489660928 + 4096 * k"
proof -
  assume k: "k < 1024"
  have "heap_page k = of_nat (3489660928 + 4096 * k)" by (simp add: heap_page_def KHEAP_START_def)
  then show ?thesis using k by (simp only: unat_of_nat_u32)
qed

lemma heap_page_parts:
  assumes "k < 1024"
  shows "pd_index (heap_page k) = 832" "pt_index (heap_page k) = of_nat k" "IS_PAGE_ALIGNED (heap_page k)"
proof -
  note u = heap_page_unat [OF assms]
  have "(3489660928 + 4096 * k) div 4194304 = 832" using assms by (intro div_nat_eqI) simp_all
  then show "pd_index (heap_page k) = 832" by (simp only: pd_index_nat u) simp
  have "(3489660928 + 4096 * k) div 4096 = 851968 + k" by simp
  then have "pt_index (heap_page k) = of_nat (851968 + k)" by (simp only: pt_index_nat u)
  also have "\<dots> = of_nat k" using mod_mult_self4 [of 1024 "832" k] by (subst of_nat_10) simp
  finally show "pt_index (heap_page k) = of_nat k" .
  show "IS_PAGE_ALIGNED (heap_page k)" by (simp add: aligned_nat u)
qed

lemma heap_page_Suc: "heap_page k + PAGE_SIZE = heap_page (Suc k)"
  by (simp add: heap_page_def PAGE_SIZE_eq)

text \<open>The addresses of a page are mapped together.\<close>

lemma translate_heap_page:
  assumes "i < 1024" "unat a div 4096 = 851968 + i"
  shows "translate a s = (case translate (heap_page i) s of Inl e \<Rightarrow> Inl (Page_Fault a) | Inr f \<Rightarrow> Inr f)"
proof (rule translate_same_page)
  have "unat (heap_page i) = 4096 * (851968 + i)" using heap_page_unat [OF assms(1)] by simp
  then show "unat a div 4096 = unat (heap_page i) div 4096" using assms(2) by simp
qed

lemma heap_page_entries:
  "j < 1024 \<Longrightarrow> k < 1024 \<Longrightarrow> j \<noteq> k \<Longrightarrow> pt_index (heap_page j) \<noteq> pt_index (heap_page k)"
  by (simp add: heap_page_parts of_nat_10)

text \<open>The heap occupies \<open>k\<close> pages; the pages behind them are free virtual pages of one table.\<close>

definition heap_ok :: "nat \<Rightarrow> 'a kernel_heap_scheme \<Rightarrow> bool" where
  "heap_ok k s \<longleftrightarrow> vm_ok s \<and> heap_base (kheap s) = KHEAP_START \<and> heap_size (kheap s) = of_nat (4096 * k) \<and>
     k \<le> 256 \<and> (\<forall>j. k \<le> j \<longrightarrow> j < 256 \<longrightarrow> slot_free (heap_page j) s)"

lemma heap_top: "heap_ok k s \<Longrightarrow> heap_base (kheap s) + heap_size (kheap s) = heap_page k"
  by (simp add: heap_ok_def heap_page_def)

definition free_count :: "'a pages_scheme \<Rightarrow> nat" where
  "free_count s = card ({..<page_limit s} - in_use s)"

text \<open>The directory stays as it is while pages of the heap come and go.\<close>

definition same_dir :: "'a paging_scheme \<Rightarrow> 'a paging_scheme \<Rightarrow> bool" where
  "same_dir s t \<longleftrightarrow> cr3 t = cr3 s \<and> pmem t (cr3 s) = pmem s (cr3 s)"

lemma other_entry_same_dir: "same_dir s t \<Longrightarrow> other_entry t a b = other_entry s a b"
  by (simp add: same_dir_def other_entry_def)

lemma same_dir_trans: "same_dir s t \<Longrightarrow> same_dir t u \<Longrightarrow> same_dir s u"
  by (simp add: same_dir_def)

text \<open>What the two operations leave alone in the rest of the kernel.\<close>

definition same_outer :: "'a kernel_heap_scheme \<Rightarrow> 'a kernel_heap_scheme \<Rightarrow> bool" where
  "same_outer s t \<longleftrightarrow> kernel_heap.more t = kernel_heap.more s \<and> if_flag t = if_flag s \<and> enable_int t = enable_int s \<and>
     irq_mask t = irq_mask s \<and> page_limit t = page_limit s"

lemma same_outer_trans: "same_outer s t \<Longrightarrow> same_outer t u \<Longrightarrow> same_outer s u"
  by (simp add: same_outer_def)

lemma same_outer_upd [simp]: "same_outer s (t\<lparr>kheap := h\<rparr>) = same_outer s t" "same_outer s s"
  by (simp_all add: same_outer_def page_limit_def)

lemma heap_upd [simp]:
  "vm_ok (s\<lparr>kheap := h\<rparr>) = vm_ok s" "in_use (s\<lparr>kheap := h\<rparr>) = in_use s" "translate a (s\<lparr>kheap := h\<rparr>) = translate a s"
  "slot_free a (s\<lparr>kheap := h\<rparr>) = slot_free a s" "page_limit (s\<lparr>kheap := h\<rparr>) = page_limit s"
  "same_dir s (t\<lparr>kheap := h\<rparr>) = same_dir s t"
  by (simp_all add: vm_ok_def pages_ok_def recursive_def in_use_def translate_def slot_free_def page_limit_def
      same_dir_def Let_def)

lemma heap_page_other:
  "j < 1024 \<Longrightarrow> k < 1024 \<Longrightarrow> j \<noteq> k \<Longrightarrow> other_entry s (heap_page j) (heap_page k)"
  using heap_page_entries by (simp add: other_entry_def)

lemma slot_free_pmem: "pmem t = pmem s \<Longrightarrow> cr3 t = cr3 s \<Longrightarrow> slot_free a t = slot_free a s"
  by (simp add: slot_free_def)

lemma slot_free_poke:
  assumes "slot_free va s" "f \<noteq> cr3 s" "table_of s va = f \<Longrightarrow> pt_index va \<noteq> i"
  shows "slot_free va (poke f i v s)"
  using assms by (auto simp: slot_free_def)

text \<open>One more page.\<close>

lemma alloc_page_step:
  fixes s :: "'a kernel_heap_scheme"
  assumes ok: "heap_ok k s" and k: "k < 256" and free: "0 < free_count s"
  shows "\<exists>q s1 s2. page_alloc pte_zero s = Inr (Some q, s1) \<and>
    page_map (push_bit 12 (ucast (pte_address q))) (heap_page k) True False s1 = Inr s2 \<and>
    kheap s1 = kheap s \<and> kheap s2 = kheap s \<and> unat (pte_address q) \<notin> in_use s \<and>
    in_use s2 = insert (unat (pte_address q)) (in_use s) \<and> page_limit s2 = page_limit s \<and>
    heap_ok (Suc k) (s2\<lparr>kheap := (kheap s2)\<lparr>heap_size := heap_size (kheap s2) + PAGE_SIZE\<rparr>\<rparr>) \<and>
    same_dir s s2 \<and> same_outer s s2 \<and> translate (heap_page k) s2 = Inr (pte_address q) \<and>
    (\<forall>a. other_entry s a (heap_page k) \<longrightarrow> translate a s2 = translate a s)"
proof -
  from ok have vm: "vm_ok s" "pages_ok s" by (simp_all add: heap_ok_def vm_ok_def)
  have "\<not> {..<page_limit s} \<subseteq> in_use s"
    using free by (auto simp: free_count_def card_gt_0_iff)
  from page_alloc_some [OF vm(2) this, of pte_zero] obtain q s1 where
    q: "page_alloc pte_zero s = Inr (Some q, s1)" by blast
  note fr = page_alloc_frame [OF vm(2) q]
  from fr(6) have s1: "pmem s1 = pmem s" "cr3 s1 = cr3 s" "kheap s1 = kheap s" by auto
  then have tr1: "translate a s1 = translate a s" "other_entry s1 a b = other_entry s a b" for a b
    by (simp_all add: translate_def other_entry_def Let_def)
  let ?pa = "push_bit 12 (ucast (pte_address q)) :: u32"
  have vm1: "vm_ok s1" using vm fr(3,4) by (auto simp: vm_ok_def s1 recursive_def)
  have slot: "slot_free (heap_page j) s1" if "k \<le> j" "j < 256" for j
    using ok that by (simp add: heap_ok_def slot_free_def s1)
  have "page_taken ?pa s1" using fr(3) by (simp add: page_taken_def frame_addr(3))
  from page_map_slot_spec [OF vm1 frame_addr(1) heap_page_parts(3) this slot, of k "Suc (Suc 0)" True False] k
  obtain s2 where s2: "page_map ?pa (heap_page k) True False s1 = Inr s2"
    "translate (heap_page k) s2 = Inr (pte_address q)" "vm_ok s2" "in_use s2 = in_use s1"
    "s2 = flush_tlb (heap_page k) (poke (table_of s1 (heap_page k)) (pt_index (heap_page k))
       (new_entry ?pa True False (pte_of s1 (heap_page k))) s1)"
    "\<forall>a. other_entry s1 a (heap_page k) \<longrightarrow> translate a s2 = translate a s1"
    unfolding page_map_def numeral_3_eq_3 frame_addr(2) by auto
  have tbl: "table_of s1 (heap_page k) \<noteq> cr3 s1" using slot [of k] k by (simp add: slot_free_def)
  have slots: "slot_free (heap_page j) s2" if "Suc k \<le> j" "j < 256" for j
  proof -
    have "slot_free (heap_page j) (poke (table_of s1 (heap_page k)) (pt_index (heap_page k))
       (new_entry ?pa True False (pte_of s1 (heap_page k))) s1)"
      using slot [of j] that k tbl heap_page_entries [of j k] by (intro slot_free_poke) auto
    then show ?thesis unfolding s2(5) by (subst slot_free_pmem) simp_all
  qed
  have kh: "kheap s2 = kheap s" using s1(3) by (simp add: s2(5) flush_tlb_def poke_def)
  have dir: "same_dir s s2" using tbl by (simp add: s2(5) same_dir_def s1 fun_eq_iff)
  have lim: "page_limit s2 = page_limit s" using fr(5) by (simp add: s2(5))
  obtain bm where bm: "s1 = s\<lparr>page_bitmap := bm\<rparr>" using fr(6) by blast
  have outer: "same_outer s s2"
    using lim by (simp add: same_outer_def) (simp add: s2(5) bm flush_tlb_def poke_def)
  have "heap_ok (Suc k) (s2\<lparr>kheap := (kheap s2)\<lparr>heap_size := heap_size (kheap s2) + PAGE_SIZE\<rparr>\<rparr>)"
    using s2(3) ok slots k unfolding heap_ok_def kh by (simp add: PAGE_SIZE_eq)
  moreover have "in_use s2 = insert (unat (pte_address q)) (in_use s)" using s2(4) fr(3) by simp
  moreover have "\<forall>a. other_entry s a (heap_page k) \<longrightarrow> translate a s2 = translate a s"
    using s2(6) tr1 by simp
  ultimately show ?thesis using q s2(1,2) s1(3) kh fr(1) lim dir outer by blast
qed

lemma free_count_step:
  assumes "unat (f :: 20 word) \<notin> in_use s" "unat f < page_limit s"
    "in_use t = insert (unat f) (in_use s)" "page_limit t = page_limit s"
  shows "free_count s = Suc (free_count t)"
proof -
  have "{..<page_limit s} - in_use s = insert (unat f) ({..<page_limit t} - in_use t)"
    using assms by auto
  moreover have "unat f \<notin> {..<page_limit t} - in_use t" using assms(3) by simp
  ultimately show ?thesis by (simp add: free_count_def)
qed

text \<open>\<open>n\<close> more pages: each is mapped to a page that was free, all to different ones.\<close>

definition grown :: "nat \<Rightarrow> nat \<Rightarrow> 'a kernel_heap_scheme \<Rightarrow> 'a kernel_heap_scheme \<Rightarrow> bool" where
  "grown k n s t \<longleftrightarrow> heap_ok (k + n) t \<and> same_dir s t \<and> same_outer s t \<and>
     (\<exists>F. (\<forall>j<n. translate (heap_page (k + j)) t = Inr (F j) \<and> unat (F j) \<notin> in_use s \<and> unat (F j) < page_limit s) \<and>
        inj_on F {..<n} \<and>
        in_use t = in_use s \<union> unat ` F ` {..<n}) \<and>
     (\<forall>a. (\<forall>j<n. other_entry s a (heap_page (k + j))) \<longrightarrow> translate a t = translate a s)"

lemma grown_step:
  assumes s: "same_dir s s3" "translate (heap_page k) s3 = Inr f" "unat f \<notin> in_use s"
      "in_use s3 = insert (unat f) (in_use s)"
      "\<forall>a. other_entry s a (heap_page k) \<longrightarrow> translate a s3 = translate a s"
    and t: "grown (Suc k) n s3 t" and outer: "same_outer s s3" "unat f < page_limit s" and k: "k + Suc n \<le> 256"
  shows "grown k (Suc n) s t"
proof -
  from t obtain F where F: "\<And>j. j < n \<Longrightarrow> translate (heap_page (Suc k + j)) t = Inr (F j)"
    "\<And>j. j < n \<Longrightarrow> unat (F j) \<notin> in_use s3" "inj_on F {..<n}" "in_use t = in_use s3 \<union> unat ` F ` {..<n}"
    "\<And>j. j < n \<Longrightarrow> unat (F j) < page_limit s"
    using outer(1) by (auto simp: grown_def same_outer_def)
  define G where "G j = (case j of 0 \<Rightarrow> f | Suc j \<Rightarrow> F j)" for j
  have keep: "translate a t = translate a s3" if "\<forall>j<n. other_entry s3 a (heap_page (Suc k + j))" for a
    using t that by (auto simp: grown_def)
  have "translate (heap_page k) t = Inr f"
    using keep [of "heap_page k"] s(2) k by (simp add: heap_page_other)
  then have G: "translate (heap_page (k + j)) t = Inr (G j) \<and> unat (G j) \<notin> in_use s \<and> unat (G j) < page_limit s"
    if "j < Suc n" for j
    using that F(1,2,5) s(3,4) outer(2) by (cases j) (auto simp: G_def)
  have "{..<Suc n} = insert 0 (Suc ` {..<n})" by (auto simp: lessThan_Suc_eq_insert_0)
  then have img: "G ` {..<Suc n} = insert f (F ` {..<n})" by (simp add: G_def image_image)
  have "inj_on G {..<Suc n}"
  proof (rule inj_onI)
    fix i j assume ij: "i \<in> {..<Suc n}" "j \<in> {..<Suc n}" "G i = G j"
    have "f \<noteq> F j" if "j < n" for j using F(2) [OF that] s(4) by auto
    with ij F(3) show "i = j" by (cases i; cases j) (auto simp: G_def inj_on_def)
  qed
  moreover have "in_use t = in_use s \<union> unat ` G ` {..<Suc n}" by (simp add: img F(4) s(4))
  moreover have "translate a t = translate a s" if "\<forall>j<Suc n. other_entry s a (heap_page (k + j))" for a
  proof -
    from that have "other_entry s a (heap_page k)" by force
    moreover have "\<forall>j<n. other_entry s3 a (heap_page (Suc k + j))"
      using that other_entry_same_dir [OF s(1)] by (metis Suc_less_eq add_Suc_shift)
    ultimately show ?thesis using keep s(5) by simp
  qed
  moreover have "heap_ok (k + Suc n) t" "same_dir s t" "same_outer s t"
    using t same_dir_trans [OF s(1)] same_outer_trans [OF outer(1)] by (simp_all add: grown_def)
  ultimately show ?thesis using G by (auto simp: grown_def)
qed

lemma alloc_pages_spec:
  "heap_ok k s \<Longrightarrow> k + n \<le> 256 \<Longrightarrow> n \<le> free_count s \<Longrightarrow> \<exists>t. alloc_pages n s = Inr t \<and> grown k n s t"
proof (induction n arbitrary: k s)
  case 0
  then show ?case by (simp add: grown_def same_dir_def)
next
  case (Suc n)
  from alloc_page_step [OF Suc.prems(1)] Suc.prems(2,3) obtain q s1 s2 where
    q: "page_alloc pte_zero s = Inr (Some q, s1)"
    "page_map (push_bit 12 (ucast (pte_address q))) (heap_page k) True False s1 = Inr s2"
    "kheap s1 = kheap s" "kheap s2 = kheap s" "unat (pte_address q) \<notin> in_use s"
    "in_use s2 = insert (unat (pte_address q)) (in_use s)" "page_limit s2 = page_limit s"
    "heap_ok (Suc k) (s2\<lparr>kheap := (kheap s2)\<lparr>heap_size := heap_size (kheap s2) + PAGE_SIZE\<rparr>\<rparr>)"
    "same_dir s s2" "same_outer s s2" "translate (heap_page k) s2 = Inr (pte_address q)"
    "\<forall>a. other_entry s a (heap_page k) \<longrightarrow> translate a s2 = translate a s" by auto
  let ?s3 = "s2\<lparr>kheap := (kheap s2)\<lparr>heap_size := heap_size (kheap s2) + PAGE_SIZE\<rparr>\<rparr>"
  have "unat (pte_address q) < page_limit s"
    using page_alloc_frame(2) [OF _ q(1)] Suc.prems(1) by (simp add: heap_ok_def vm_ok_def)
  from free_count_step [OF q(5) this q(6,7)] Suc.prems(3) have "n \<le> free_count ?s3"
    by (simp add: free_count_def)
  from Suc.IH [OF q(8) _ this] Suc.prems(2) obtain t where
    t: "alloc_pages n ?s3 = Inr t" "grown (Suc k) n ?s3 t" by auto
  have "heap_size (kheap ?s3) = of_nat (4096 * Suc k)" using q(8) by (simp only: heap_ok_def)
  moreover have "(of_nat (4096 * Suc k) :: u32) \<le> KHEAP_MAX_SIZE"
    using Suc.prems(2) unat_of_nat_u32 [of "4096 * Suc k"]
    by (simp only: word_le_nat_alt KHEAP_MAX_SIZE_def) simp
  ultimately have "\<not> heap_size (kheap ?s3) > KHEAP_MAX_SIZE" by (simp only: not_less)
  with t(1) q(1-4) heap_top [OF Suc.prems(1)] have "alloc_pages (Suc n) s = Inr t"
    by (simp add: Let_def)
  moreover have "grown k (Suc n) s t"
    using q t(2) Suc.prems(2) \<open>unat (pte_address q) < page_limit s\<close> by (intro grown_step [of s ?s3 k "pte_address q"]) auto
  ultimately show ?case by blast
qed

section \<open>Returning pages\<close>

text \<open>The page holds neither the directory nor a table.\<close>

definition data_frame :: "'a paging_scheme \<Rightarrow> 20 word \<Rightarrow> bool" where
  "data_frame s f \<longleftrightarrow> f \<noteq> cr3 s \<and> (\<forall>i. f \<noteq> frame_of (pmem s (cr3 s) i)) \<and> unat f \<in> in_use s"

lemma data_frame_same_dir: "same_dir s t \<Longrightarrow> unat f \<in> in_use t \<Longrightarrow> data_frame s f \<Longrightarrow> data_frame t f"
  by (simp add: data_frame_def same_dir_def)

lemma in_use_bound: "pages_ok s \<Longrightarrow> i \<in> in_use s \<Longrightarrow> i < 32768"
  by (simp add: pages_ok_def in_use_def used_def capacity_def)

lemma frame_addr_drop [simp]: "ucast (drop_bit 12 (push_bit 12 (ucast (F :: 20 word)) :: u32)) = F"
  by (rule bit_word_eqI) (auto simp: bit_simps)

lemma free_page_step:
  assumes vm: "vm_ok s" and j: "j < 1024" and tr: "translate (heap_page j) s = Inr f"
    and f: "data_frame s f" and tbl: "table_of s (heap_page j) \<noteq> cr3 s"
  shows "\<exists>s1 s2. virt_to_phys (heap_page j) s = Inr (push_bit 12 (ucast f)) \<and> page_unmap (heap_page j) s = Inr s1 \<and>
    page_free (pte_zero\<lparr>pte_address := f\<rparr>) s1 = Inr s2 \<and> vm_ok s2 \<and> in_use s2 = in_use s - {unat f} \<and>
    same_dir s s2 \<and> same_outer s s2 \<and> kheap s2 = kheap s \<and> translate (heap_page j) s2 = Inl (Page_Fault (heap_page j)) \<and>
    (\<forall>a. other_entry s a (heap_page j) \<longrightarrow> translate a s2 = translate a s)"
proof -
  note al = heap_page_parts(3) [OF j]
  have rec: "recursive s" using vm by (simp add: vm_ok_def)
  have v: "virt_to_phys (heap_page j) s = Inr (push_bit 12 (ucast f))"
    using virt_to_phys_translate [OF rec tr] al by (simp add: IS_PAGE_ALIGNED_def)
  from tr have p: "bit (pde_of s (heap_page j)) 0" "bit (pte_of s (heap_page j)) 0"
    by (auto simp: translate_def Let_def split: if_splits)
  define s1 where "s1 = flush_tlb (heap_page j) (poke (table_of s (heap_page j)) (pt_index (heap_page j)) 0 s)"
  have u: "page_unmap (heap_page j) s = Inr s1"
    using rec p al by (simp add: page_unmap_def read_pde read_pte write_pte s1_def)
  have vm1: "vm_ok s1" using vm_ok_poke [OF vm tbl] by (simp add: s1_def)
  have in1: "in_use s1 = in_use s" by (simp add: s1_def)
  have b: "unat f < 32768" using in_use_bound f vm by (auto simp: data_frame_def vm_ok_def)
  from page_free_spec [of s1 "pte_zero\<lparr>pte_address := f\<rparr>"] vm1 b obtain s2 where
    s2: "page_free (pte_zero\<lparr>pte_address := f\<rparr>) s1 = Inr s2" "in_use s2 = in_use s1 - {unat f}" "pages_ok s2" "page_limit s2 = page_limit s1"
    by (auto simp: vm_ok_def)
  have mem: "pmem s2 = pmem s1" "cr3 s2 = cr3 s1" "kheap s2 = kheap s1" "kernel_heap.more s2 = kernel_heap.more s1"
      "if_flag s2 = if_flag s1" "enable_int s2 = enable_int s1" "irq_mask s2 = irq_mask s1"
    using s2(1) by (auto simp: page_free_def kbind_eq_Inr Let_def worry_if_def worry_def split: if_splits)
  have dir: "same_dir s s1" using tbl by (simp add: same_dir_def s1_def fun_eq_iff)
  have "vm_ok s2"
    using vm1 f s2(2,3) dir in1 by (auto simp: vm_ok_def mem recursive_def data_frame_def same_dir_def simp flip: word_unat_eq_iff)
  moreover have "same_dir s s2" using dir by (simp add: same_dir_def mem)
  moreover have "kheap s1 = kheap s" "same_outer s s1"
    by (simp_all add: s1_def same_outer_def) (simp_all add: flush_tlb_def poke_def)
  then have "kheap s2 = kheap s" "same_outer s s2" using s2(4) by (simp_all add: mem same_outer_def)
  moreover have "translate a s2 = translate a s1" for a by (simp add: translate_def mem Let_def)
  ultimately show ?thesis
    using v u s2 in1 p tbl
    by (intro exI [of _ s1] exI [of _ s2]) (auto simp: s1_def translate_poke_table other_entry_def)
qed

lemma heap_page_add:
  "heap_page k + push_bit PAGE_SIZE_SHIFT (of_nat n) = heap_page (k + n)"
  by (simp add: heap_page_def PAGE_SIZE_SHIFT_def push_bit_eq_mult algebra_simps)

lemma free_pages_spec:
  "vm_ok s \<Longrightarrow> k + n \<le> 256 \<Longrightarrow> \<forall>j<n. translate (heap_page (k + j)) s = Inr (F j) \<and> data_frame s (F j) \<Longrightarrow>
   inj_on F {..<n} \<Longrightarrow> frame_of (pmem s (cr3 s) 832) \<noteq> cr3 s \<Longrightarrow>
   \<exists>t. free_pages n (heap_page k) s = Inr t \<and> vm_ok t \<and> in_use t = in_use s - unat ` F ` {..<n} \<and> same_dir s t \<and>
     same_outer s t \<and> kheap t = kheap s \<and>
     (\<forall>j<n. translate (heap_page (k + j)) t = Inl (Page_Fault (heap_page (k + j)))) \<and>
     (\<forall>a. (\<forall>j<n. other_entry s a (heap_page (k + j))) \<longrightarrow> translate a t = translate a s)"
proof (induction n arbitrary: s)
  case 0
  then show ?case by (simp add: same_dir_def)
next
  case (Suc n)
  have kn: "k + n < 1024" "pd_index (heap_page (k + n)) = 832"
    using Suc.prems(2) heap_page_parts(1) [of "k + n"] by simp_all
  from free_page_step [OF Suc.prems(1) kn(1), of "F n"] Suc.prems(3,5) kn(2) obtain s1 s2 where
    st: "virt_to_phys (heap_page (k + n)) s = Inr (push_bit 12 (ucast (F n)))"
    "page_unmap (heap_page (k + n)) s = Inr s1" "page_free (pte_zero\<lparr>pte_address := F n\<rparr>) s1 = Inr s2"
    "vm_ok s2" "in_use s2 = in_use s - {unat (F n)}" "same_dir s s2"
    "same_outer s s2" "kheap s2 = kheap s" "translate (heap_page (k + n)) s2 = Inl (Page_Fault (heap_page (k + n)))"
    "\<forall>a. other_entry s a (heap_page (k + n)) \<longrightarrow> translate a s2 = translate a s" by auto
  have "translate (heap_page (k + j)) s2 = Inr (F j) \<and> data_frame s2 (F j)" if j: "j < n" for j
  proof -
    have "other_entry s (heap_page (k + j)) (heap_page (k + n))"
      using j kn(1) by (intro heap_page_other) auto
    moreover have "F j \<noteq> F n" using Suc.prems(4) j by (auto simp: inj_on_def)
    ultimately show ?thesis
      using st(5,6,10) Suc.prems(3) j data_frame_same_dir [OF st(6), of "F j"]
      by (simp add: data_frame_def flip: word_unat_eq_iff)
  qed
  moreover have "inj_on F {..<n}" using Suc.prems(4) by (rule inj_on_subset) auto
  moreover have "frame_of (pmem s2 (cr3 s2) 832) \<noteq> cr3 s2" using Suc.prems(5) st(6) by (simp add: same_dir_def)
  ultimately obtain t where t: "free_pages n (heap_page k) s2 = Inr t" "vm_ok t"
    "in_use t = in_use s2 - unat ` F ` {..<n}" "same_dir s2 t"
    "\<forall>j<n. translate (heap_page (k + j)) t = Inl (Page_Fault (heap_page (k + j)))"
    "\<forall>a. (\<forall>j<n. other_entry s2 a (heap_page (k + j))) \<longrightarrow> translate a t = translate a s2"
    "same_outer s2 t" "kheap t = kheap s2"
    using Suc.IH [OF st(4)] Suc.prems(2) by auto
  have oth: "other_entry s2 a b = other_entry s a b" for a b by (rule other_entry_same_dir [OF st(6)])
  have "translate (heap_page (k + n)) t = translate (heap_page (k + n)) s2"
    using t(6) kn(1) by (simp add: heap_page_other)
  then have "\<forall>j<Suc n. translate (heap_page (k + j)) t = Inl (Page_Fault (heap_page (k + j)))"
    using t(5) st(9) by (simp add: less_Suc_eq)
  moreover have "free_pages (Suc n) (heap_page k) s = Inr t"
    using st(1-3) t(1) by (simp add: heap_page_add)
  moreover have "in_use t = in_use s - unat ` F ` {..<Suc n}"
    using t(3) st(5) by (auto simp: lessThan_Suc)
  ultimately show ?case
    using t(2,6,8) st(8,10) same_dir_trans [OF st(6) t(4)] same_outer_trans [OF st(7) t(7)] oth by (intro exI [of _ t]) simp
qed

text \<open>Locking the allocator is switching interrupts off; the previous state is in one flag.\<close>

lemma liballoc_lock_eq: "liballoc_lock s = Inr (s\<lparr>enable_int := if_flag s, if_flag := False\<rparr>)"
  by (simp add: liballoc_lock_def int_enabled_def int_disable_def)

lemma liballoc_unlock_eq:
  "\<not> if_flag s \<Longrightarrow> liballoc_unlock s = Inr (s\<lparr>if_flag := enable_int s\<rparr>)"
  by (simp add: liballoc_unlock_def int_enabled_def int_enable_def)

section \<open>Properties\<close>

text \<open>\<open>liballoc_alloc\<close> gives the allocator \<open>n\<close> consecutive pages of virtual memory: if the heap
  stays within 1 MiB and enough physical pages are free, it returns the old end of the heap, maps
  each page of the range to a physical page that was free, all to different ones, moves the end of
  the heap behind the range and disturbs no other mapping.\<close>

theorem liballoc_alloc_grows:
  assumes "heap_ok k s" "n \<noteq> 0" "k + unat n \<le> 256" "unat n \<le> free_count s"
  shows "\<exists>t. liballoc_alloc n s = Inr (heap_page k, t) \<and> grown k (unat n) s t"
  using alloc_pages_spec [OF assms(1,3,4)] heap_top [OF assms(1)] assms(2)
  by (auto simp: liballoc_alloc_def)

definition kheap_zero :: kernel_heap where
  "kheap_zero = \<lparr>out_log = [], con_log = [], if_flag = False, irq_mask = 0, tty_buf = 0xB8000,
     vga = (\<lambda>_. 0), tty_row = 0, tty_col = 0, tty_initialized = True, page_count = 16384,
     page_bitmap = page_bitmap pages_zero, page_bitmap_bits = [], pmem = pmem vm_zero,
     cr3 = 256, tlb_flushes = [], placement_heap = 0xC0200000,
     kheap = \<lparr>heap_base = KHEAP_START, heap_size = 0, heap_flags = 0\<rparr>, enable_int = False\<rparr>"

lemma kheap_zero_vm: "pmem kheap_zero = pmem vm_zero" "cr3 kheap_zero = cr3 vm_zero"
    "page_bitmap kheap_zero = page_bitmap vm_zero" "in_use kheap_zero = in_use vm_zero"
    "page_limit kheap_zero = page_limit vm_zero" "pages_ok kheap_zero = pages_ok vm_zero"
  by (simp_all add: kheap_zero_def vm_zero_def in_use_def page_limit_def pages_ok_def)

lemma kheap_zero_ok: "heap_ok 0 kheap_zero" and kheap_zero_free: "free_count kheap_zero = 8192"
proof -
  have "slot_free (heap_page j) kheap_zero" if "j < 256" for j
  proof -
    have "frame_of 0x101003 = 0x101" by (simp add: frame_of_def drop_bit_eq_div)
    then show ?thesis
      using that by (simp add: slot_free_def heap_page_parts kheap_zero_vm vm_zero_entries bit_numeral_rec)
  qed
  then show "heap_ok 0 kheap_zero"
    using vm_zero_ok by (simp add: heap_ok_def vm_ok_def recursive_def kheap_zero_vm) (simp add: kheap_zero_def)
  have "{..<16384} - {..<8192} = {8192..<16384 :: nat}" by auto
  then show "free_count kheap_zero = 8192"
    by (simp add: free_count_def kheap_zero_vm vm_zero_pages)
qed

theorem liballoc_alloc_grows_witness:
  "\<exists>t. liballoc_alloc 16 kheap_zero = Inr (heap_page 0, t) \<and> grown 0 16 kheap_zero t"
  using liballoc_alloc_grows [OF kheap_zero_ok, of 16] by (simp add: kheap_zero_free)

text \<open>Allocating pages and then returning them with \<open>liballoc_free\<close> gives back every physical page
  and every mapping: the pages of the range are unmapped again and all other addresses translate
  as before (the range of virtual addresses itself is not used again).\<close>

lemma liballoc_alloc_free:
  assumes "heap_ok k s" "n \<noteq> 0" "k + unat n \<le> 256" "unat n \<le> free_count s"
  shows "\<exists>t u. liballoc_alloc n s = Inr (heap_page k, t) \<and> liballoc_free (heap_page k) n t = Inr (0, u) \<and>
    in_use u = in_use s \<and> vm_ok u \<and>
    (\<forall>j<unat n. translate (heap_page (k + j)) u = Inl (Page_Fault (heap_page (k + j)))) \<and>
    (\<forall>a. (\<forall>j<unat n. other_entry s a (heap_page (k + j))) \<longrightarrow> translate a u = translate a s)"
proof -
  from alloc_pages_spec [OF assms(1,3,4)] obtain t where
    t: "alloc_pages (unat n) s = Inr t" "grown k (unat n) s t" by blast
  then obtain F where F: "\<forall>j<unat n. translate (heap_page (k + j)) t = Inr (F j) \<and> unat (F j) \<notin> in_use s"
    "inj_on F {..<unat n}" "in_use t = in_use s \<union> unat ` F ` {..<unat n}" by (auto simp: grown_def)
  from t(2) have ok: "heap_ok (k + unat n) t" "same_dir s t" by (simp_all add: grown_def)
  have vm: "vm_ok s" "vm_ok t" using assms(1) ok(1) by (simp_all add: heap_ok_def)
  have "data_frame t (F j)" if j: "j < unat n" for j
  proof -
    have "unat (F j) \<notin> in_use s" "unat (F j) \<in> in_use t" using F j by auto
    then show ?thesis using vm(1) ok(2) by (auto simp: data_frame_def vm_ok_def same_dir_def)
  qed
  then have D: "\<forall>j<unat n. translate (heap_page (k + j)) t = Inr (F j) \<and> data_frame t (F j)" using F(1) by simp
  have n: "0 < unat n" using assms(2) by (simp add: word_unat_eq_iff)
  have kk: "k < 256" using n assms(3) by linarith
  then have "table_of s (heap_page k) \<noteq> cr3 s" using assms(1) by (simp add: heap_ok_def slot_free_def)
  then have tbl: "frame_of (pmem t (cr3 t) 832) \<noteq> cr3 t"
    using kk ok(2) by (simp add: heap_page_parts same_dir_def)
  from free_pages_spec [OF vm(2) assms(3) D F(2) tbl] obtain u where
    u: "free_pages (unat n) (heap_page k) t = Inr u" "vm_ok u" "in_use u = in_use t - unat ` F ` {..<unat n}"
    "\<forall>j<unat n. translate (heap_page (k + j)) u = Inl (Page_Fault (heap_page (k + j)))"
    "\<forall>a. (\<forall>j<unat n. other_entry t a (heap_page (k + j))) \<longrightarrow> translate a u = translate a t" by blast
  have "\<not> heap_base (kheap t) + heap_size (kheap t) < heap_page k"
    using assms(3) heap_top [OF ok(1)] by (simp add: word_less_nat_alt heap_page_unat)
  moreover have "heap_page k \<noteq> 0" using heap_page_unat [of k] kk by (auto simp: word_unat_eq_iff)
  ultimately have "liballoc_free (heap_page k) n t = Inr (0, u)"
    using u(1) assms(2) kk heap_page_parts(3) [of k] by (simp add: liballoc_free_def)
  moreover have "liballoc_alloc n s = Inr (heap_page k, t)"
    using t(1) heap_top [OF assms(1)] assms(2) by (simp add: liballoc_alloc_def)
  moreover have "in_use u = in_use s" using u(3) F(1,3) by auto
  moreover have "translate a u = translate a s" if "\<forall>j<unat n. other_entry s a (heap_page (k + j))" for a
    using that u(5) t(2) other_entry_same_dir [OF ok(2)] by (simp add: grown_def)
  ultimately show ?thesis using u(2,4) by blast
qed

end
