(* ===== verification/Liballoc.thy ===== *)
theory Liballoc
  imports KernelHeap
begin

text \<open>
  \<open>klibc/liballoc/liballoc.c\<close>, the allocator behind \<open>kmalloc\<close>, \<open>kfree\<close>, \<open>kcalloc\<close> and \<open>krealloc\<close>, as
  built (\<open>INFO\<close> set, \<open>DEBUG\<close> not). Memory is a typed store: the major and minor headers and the
  alignment bytes live in maps from their addresses; the payload is a byte map. Sizes and addresses
  are 32-bit words and wrap as in C. Accesses through the pointers that a caller of \<open>kfree\<close> or \<open>krealloc\<close> gives are
  looked up in the walk of the MMU first (\<open>touch\<close>). The loops over the lists of majors and minors take fuel, since
  a corrupted list may be cyclic; \<open>Nesting\<close> is its exhaustion. \<open>ra\<close> is the return address that some
  messages print.
\<close>

record liballoc_major =
  maj_prev :: u32
  maj_next :: u32
  maj_pages :: u32
  maj_size :: u32
  maj_usage :: u32
  maj_first :: u32

record liballoc_minor =
  min_prev :: u32
  min_next :: u32
  min_block :: u32
  min_magic :: u32
  min_size :: u32
  min_req_size :: u32

record lalloc = kernel_heap +
  majors :: "u32 \<Rightarrow> liballoc_major"
  minors :: "u32 \<Rightarrow> liballoc_minor"
  align_bytes :: "u32 \<Rightarrow> u8"
  payload :: "u32 \<Rightarrow> u8"
  l_memRoot :: u32
  l_bestBet :: u32
  l_allocated :: u64
  l_inuse :: u64
  l_warningCount :: u64
  l_errorCount :: u64
  l_possibleOverruns :: u64

definition ALIGNMENT :: u32 where "ALIGNMENT = 16"
definition ALIGN_INFO :: u32 where "ALIGN_INFO = 16"
definition LIBALLOC_MAGIC :: u32 where "LIBALLOC_MAGIC = 0xc001c0de"
definition LIBALLOC_DEAD :: u32 where "LIBALLOC_DEAD = 0xdeaddead"
definition l_pageSize :: u32 where "l_pageSize = 4096"
definition l_pageCount :: u32 where "l_pageCount = 16"

definition sizeof_major :: u32 where "sizeof_major = 24"
definition sizeof_minor :: u32 where "sizeof_minor = 24"

abbreviation major :: "'a lalloc_scheme \<Rightarrow> u32 \<Rightarrow> liballoc_major" where "major s p \<equiv> majors s p"
abbreviation minor :: "'a lalloc_scheme \<Rightarrow> u32 \<Rightarrow> liballoc_minor" where "minor s p \<equiv> minors s p"

definition upd_major :: "u32 \<Rightarrow> (liballoc_major \<Rightarrow> liballoc_major) \<Rightarrow> 'a lalloc_scheme \<Rightarrow> 'a lalloc_scheme" where
  "upd_major p f s = s\<lparr>majors := (majors s)(p := f (majors s p))\<rparr>"

definition upd_minor :: "u32 \<Rightarrow> (liballoc_minor \<Rightarrow> liballoc_minor) \<Rightarrow> 'a lalloc_scheme \<Rightarrow> 'a lalloc_scheme" where
  "upd_minor p f s = s\<lparr>minors := (minors s)(p := f (minors s p))\<rparr>"

text \<open>
  An access through a pointer of the caller goes through the MMU first: the first and the last of its \<open>n\<close>
  bytes, which lie on at most two pages.
\<close>

definition touch :: "u32 \<Rightarrow> nat \<Rightarrow> 'a paging_scheme \<Rightarrow> unit kres" where
  "touch p n s =
     kbind (translate p s) (\<lambda>_.
     kbind (translate (PAGE_ALIGN_DOWN (p + of_nat n - 1)) s) (\<lambda>_. Inr ()))"

text \<open>A write through a null pointer.\<close>

definition nonnull :: "u32 \<Rightarrow> unit kres" where
  "nonnull p = (if p = 0 then Inl (Undefined ''null pointer'') else Inr ())"

section \<open>Alignment\<close>

definition align :: "u32 \<Rightarrow> 'a lalloc_scheme \<Rightarrow> u32 \<times> 'a lalloc_scheme" where
  "align ptr s =
     (let ptr1 = ptr + ALIGN_INFO; diff = ptr1 AND (ALIGNMENT - 1);
          (ptr2, diff2) = (if diff \<noteq> 0 then (ptr1 + (ALIGNMENT - diff), ALIGNMENT - diff) else (ptr1, diff))
      in (ptr2, s\<lparr>align_bytes := (align_bytes s)(ptr2 - ALIGN_INFO := ucast (diff2 + ALIGN_INFO))\<rparr>))"

definition unalign :: "u32 \<Rightarrow> 'a lalloc_scheme \<Rightarrow> u32" where
  "unalign ptr s =
     (let diff = (scast (align_bytes s (ptr - ALIGN_INFO)) :: u32)
      in if diff < ALIGNMENT + ALIGN_INFO then ptr - diff else ptr)"

section \<open>Helper functions\<close>

primrec liballoc_memset :: "nat \<Rightarrow> u32 \<Rightarrow> u32 \<Rightarrow> (u32 \<Rightarrow> u8) \<Rightarrow> u32 \<Rightarrow> u8" where
  "liballoc_memset 0 p c m = m"
| "liballoc_memset (Suc n) p c m = liballoc_memset n (p + 1) c (m(p := ucast c))"

text \<open>Words while there are four bytes left, then bytes.\<close>

fun liballoc_memcpy :: "nat \<Rightarrow> u32 \<Rightarrow> u32 \<Rightarrow> (u32 \<Rightarrow> u8) \<Rightarrow> u32 \<Rightarrow> u8" where
  "liballoc_memcpy (Suc (Suc (Suc (Suc n)))) d s m =
     liballoc_memcpy n (d + 4) (s + 4)
       (m(d := m s, d + 1 := m (s + 1), d + 2 := m (s + 2), d + 3 := m (s + 3)))"
| "liballoc_memcpy 0 d s m = m"
| "liballoc_memcpy (Suc n) d s m = liballoc_memcpy n (d + 1) (s + 1) (m(d := m s))"

definition liballoc_dump :: "'a lalloc_scheme \<Rightarrow> ('a lalloc_scheme) kres" where
  "liballoc_dump s =
     kbind (printf (CHR 0x0A # ''liballoc: ------ Memory data ---------------'' @ [CHR 0x0A]) [] s) (\<lambda>s.
     kbind (printf (''liballoc: System memory allocated: %i bytes'' @ [CHR 0x0A]) [VInt (ucast (l_allocated s))] s) (\<lambda>s.
     kbind (printf (''liballoc: Memory in used (malloc'' @ [CHR 0x27] @ ''ed): %i bytes'' @ [CHR 0x0A]) [VInt (ucast (l_inuse s))] s) (\<lambda>s.
     kbind (printf (''liballoc: Warning count: %i'' @ [CHR 0x0A]) [VInt (ucast (l_warningCount s))] s) (\<lambda>s.
     kbind (printf (''liballoc: Error count: %i'' @ [CHR 0x0A]) [VInt (ucast (l_errorCount s))] s) (\<lambda>s.
     printf (''liballoc: Possible overruns: %i'' @ [CHR 0x0A]) [VInt (ucast (l_possibleOverruns s))] s)))))"

text \<open>\<open>allocate_new_page\<close>: a fresh major block for \<open>size\<close> bytes, or null.\<close>

definition new_page_count :: "u32 \<Rightarrow> u32" where
  "new_page_count sz =
     (let st = sz + sizeof_major + sizeof_minor;
          st1 = (if st mod l_pageSize = 0 then st div l_pageSize else st div l_pageSize + 1)
      in if st1 < l_pageCount then l_pageCount else st1)"

definition allocate_new_page :: "u32 \<Rightarrow> 'a lalloc_scheme \<Rightarrow> (u32 \<times> 'a lalloc_scheme) kres" where
  "allocate_new_page sz s =
     (let st = new_page_count sz in
      kbind (liballoc_alloc st s) (\<lambda>(maj, s1).
      if maj = 0 then
        kbind (printf (''liballoc: WARNING: liballoc_alloc( %i ) return NULL'' @ [CHR 0x0A]) [VInt st]
          (s1\<lparr>l_warningCount := l_warningCount s1 + 1\<rparr>)) (\<lambda>s2. Inr (0, s2))
      else
        let s2 = upd_major maj (\<lambda>_. \<lparr>maj_prev = 0, maj_next = 0, maj_pages = st, maj_size = st * l_pageSize,
                   maj_usage = sizeof_major, maj_first = 0\<rparr>) s1
        in Inr (maj, s2\<lparr>l_allocated := l_allocated s2 + ucast (st * l_pageSize)\<rparr>)))"

section \<open>\<open>malloc\<close>\<close>

text \<open>The end of every successful case: the payload starts behind the minor header, aligned.\<close>

definition hand_out :: "u32 \<Rightarrow> 'a lalloc_scheme \<Rightarrow> (u32 \<times> 'a lalloc_scheme) kres" where
  "hand_out mino s =
     (let (p, s1) = align (mino + sizeof_minor) s in kbind (liballoc_unlock s1) (\<lambda>s2. Inr (p, s2)))"

definition count_use :: "u32 \<Rightarrow> u32 \<Rightarrow> 'a lalloc_scheme \<Rightarrow> 'a lalloc_scheme" where
  "count_use maj sz s =
     (let s1 = upd_major maj (\<lambda>b. b\<lparr>maj_usage := maj_usage b + (sz + sizeof_minor)\<rparr>) s
      in s1\<lparr>l_inuse := l_inuse s1 + ucast sz\<rparr>)"

text \<open>Case 2: a brand new block.\<close>

definition malloc_case2 :: "u32 \<Rightarrow> u32 \<Rightarrow> u32 \<Rightarrow> 'a lalloc_scheme \<Rightarrow> (u32 \<times> 'a lalloc_scheme) kres" where
  "malloc_case2 maj sz req s =
     (let mino = maj + sizeof_major;
          s1 = upd_major maj (\<lambda>b. b\<lparr>maj_first := mino\<rparr>) s;
          s2 = upd_minor mino (\<lambda>_. \<lparr>min_prev = 0, min_next = 0, min_block = maj, min_magic = LIBALLOC_MAGIC,
                 min_size = sz, min_req_size = req\<rparr>) s1
      in hand_out mino (count_use maj sz s2))"

text \<open>Case 3: enough space in front of the first minor.\<close>

definition malloc_case3 :: "u32 \<Rightarrow> u32 \<Rightarrow> u32 \<Rightarrow> 'a lalloc_scheme \<Rightarrow> (u32 \<times> 'a lalloc_scheme) kres" where
  "malloc_case3 maj sz req s =
     (let first = maj_first (major s maj); mino = maj + sizeof_major;
          s1 = upd_minor first (\<lambda>m. m\<lparr>min_prev := mino\<rparr>) s;
          s2 = upd_minor mino (\<lambda>m. m\<lparr>min_next := first\<rparr>) s1;
          s3 = upd_major maj (\<lambda>b. b\<lparr>maj_first := mino\<rparr>) s2;
          s4 = upd_minor mino (\<lambda>m. m\<lparr>min_magic := LIBALLOC_MAGIC, min_prev := 0, min_block := maj,
                 min_size := sz, min_req_size := req\<rparr>) s3
      in hand_out mino (count_use maj sz s4))"

text \<open>Case 4.1: behind the last minor.\<close>

definition malloc_case41 :: "u32 \<Rightarrow> u32 \<Rightarrow> u32 \<Rightarrow> u32 \<Rightarrow> 'a lalloc_scheme \<Rightarrow> (u32 \<times> 'a lalloc_scheme) kres" where
  "malloc_case41 maj final sz req s =
     (let mino = final + sizeof_minor + min_size (minor s final);
          s1 = upd_minor final (\<lambda>m. m\<lparr>min_next := mino\<rparr>) s;
          s2 = upd_minor mino (\<lambda>m. m\<lparr>min_prev := final\<rparr>) s1;
          s3 = upd_minor mino (\<lambda>m. m\<lparr>min_next := 0, min_magic := LIBALLOC_MAGIC, min_block := maj,
                 min_size := sz, min_req_size := req\<rparr>) s2
      in hand_out mino (count_use maj sz s3))"

text \<open>Case 4.2: between two minors.\<close>

definition malloc_case42 :: "u32 \<Rightarrow> u32 \<Rightarrow> u32 \<Rightarrow> u32 \<Rightarrow> 'a lalloc_scheme \<Rightarrow> (u32 \<times> 'a lalloc_scheme) kres" where
  "malloc_case42 maj mi sz req s =
     (let new_min = mi + sizeof_minor + min_size (minor s mi); nxt = min_next (minor s mi);
          s1 = upd_minor new_min (\<lambda>_. \<lparr>min_prev = mi, min_next = nxt, min_block = maj,
                 min_magic = LIBALLOC_MAGIC, min_size = sz, min_req_size = req\<rparr>) s;
          s2 = upd_minor nxt (\<lambda>m. m\<lparr>min_prev := new_min\<rparr>) s1;
          s3 = upd_minor mi (\<lambda>m. m\<lparr>min_next := new_min\<rparr>) s2
      in hand_out new_min (count_use maj sz s3))"

text \<open>Case 4: the loop over the minors of a block.\<close>

primrec scan_minors :: "nat \<Rightarrow> u32 \<Rightarrow> u32 \<Rightarrow> u32 \<Rightarrow> u32 \<Rightarrow> 'a lalloc_scheme \<Rightarrow>
    ((u32 \<times> 'a lalloc_scheme) option) kres" where
  "scan_minors 0 mi maj sz req s = Inl Nesting"
| "scan_minors (Suc n) mi maj sz req s =
     (if mi = 0 then Inr None
      else if min_next (minor s mi) = 0 \<and>
          maj + maj_size (major s maj) - mi - sizeof_minor - min_size (minor s mi) \<ge> sz + sizeof_minor
        then kbind (malloc_case41 maj mi sz req s) (\<lambda>r. Inr (Some r))
      else if min_next (minor s mi) \<noteq> 0 \<and>
          min_next (minor s mi) - mi - sizeof_minor - min_size (minor s mi) \<ge> sz + sizeof_minor
        then kbind (malloc_case42 maj mi sz req s) (\<lambda>r. Inr (Some r))
      else scan_minors n (min_next (minor s mi)) maj sz req s)"

text \<open>Cases 2 to 4 on one block.\<close>

definition use_block :: "nat \<Rightarrow> u32 \<Rightarrow> u32 \<Rightarrow> u32 \<Rightarrow> 'a lalloc_scheme \<Rightarrow>
    ((u32 \<times> 'a lalloc_scheme) option) kres" where
  "use_block fuel maj sz req s =
     (if maj_first (major s maj) = 0 then kbind (malloc_case2 maj sz req s) (\<lambda>r. Inr (Some r))
      else if maj_first (major s maj) - maj - sizeof_major \<ge> sz + sizeof_minor
        then kbind (malloc_case3 maj sz req s) (\<lambda>r. Inr (Some r))
      else scan_minors fuel (maj_first (major s maj)) maj sz req s)"

definition malloc_fails :: "u32 \<Rightarrow> 'a lalloc_scheme \<Rightarrow> (u32 \<times> 'a lalloc_scheme) kres" where
  "malloc_fails sz s =
     kbind (liballoc_unlock s) (\<lambda>s1.
     kbind (printf (''liballoc: WARNING: PREFIX(malloc)( %i ) returning NULL.'' @ [CHR 0x0A]) [VInt sz] s1) (\<lambda>s2.
     kbind (liballoc_dump s2) (\<lambda>s3. Inr (0, s3))))"

text \<open>A new major block behind \<open>maj\<close>; the result is its address, null if there is no memory.\<close>

definition append_major :: "u32 \<Rightarrow> u32 \<Rightarrow> 'a lalloc_scheme \<Rightarrow> (u32 \<times> 'a lalloc_scheme) kres" where
  "append_major maj sz s =
     kbind (allocate_new_page sz s) (\<lambda>(new, s1).
     let s2 = upd_major maj (\<lambda>b. b\<lparr>maj_next := new\<rparr>) s1
     in Inr (new, if new = 0 then s2 else upd_major new (\<lambda>b. b\<lparr>maj_prev := maj\<rparr>) s2))"

text \<open>The loop over the major blocks, with cases 1 and 5; \<open>best\<close> is \<open>bestSize\<close>.\<close>

primrec major_loop :: "nat \<Rightarrow> nat \<Rightarrow> u32 \<Rightarrow> u64 \<Rightarrow> bool \<Rightarrow> u32 \<Rightarrow> u32 \<Rightarrow> 'a lalloc_scheme \<Rightarrow>
    (u32 \<times> 'a lalloc_scheme) kres" where
  "major_loop fuel 0 maj best startedBet sz req s = Inl Nesting"
| "major_loop fuel (Suc n) maj best startedBet sz req s =
     (if maj = 0 then malloc_fails sz s
      else
        let diff = maj_size (major s maj) - maj_usage (major s maj);
            (s1, best1) = (if best < ucast diff then (s\<lparr>l_bestBet := maj\<rparr>, ucast diff) else (s, best));
            case5 = (\<lambda>maj s.
              if maj_next (major s maj) = 0 then
                if startedBet then major_loop fuel n (l_memRoot s) best1 False sz req s
                else kbind (append_major maj sz s) (\<lambda>(new, s').
                  if new = 0 then malloc_fails sz s'
                  else major_loop fuel n (maj_next (major s' maj)) best1 startedBet sz req s')
              else major_loop fuel n (maj_next (major s maj)) best1 startedBet sz req s);
            cases2to5 = (\<lambda>maj s.
              kbind (use_block fuel maj sz req s) (\<lambda>r.
              case r of Some result \<Rightarrow> Inr result | None \<Rightarrow> case5 maj s))
        in if diff < sz + sizeof_minor then
             (if maj_next (major s1 maj) \<noteq> 0 then major_loop fuel n (maj_next (major s1 maj)) best1 startedBet sz req s1
              else if startedBet then major_loop fuel n (l_memRoot s1) best1 False sz req s1
              else kbind (append_major maj sz s1) (\<lambda>(new, s2).
                if new = 0 then malloc_fails sz s2 else cases2to5 new s2))
           else cases2to5 maj s1)"

definition malloc_sized :: "nat \<Rightarrow> u32 \<Rightarrow> u32 \<Rightarrow> 'a lalloc_scheme \<Rightarrow> (u32 \<times> 'a lalloc_scheme) kres" where
  "malloc_sized fuel sz req s =
     kbind (if l_memRoot s = 0 then
              kbind (allocate_new_page sz s) (\<lambda>(r, s1). Inr (s1\<lparr>l_memRoot := r\<rparr>))
            else Inr s) (\<lambda>s1.
     if l_memRoot s1 = 0 then kbind (liballoc_unlock s1) (\<lambda>s2. Inr (0, s2))
     else
       let bet = l_bestBet s1;
           best = (if bet \<noteq> 0 then (ucast (maj_size (major s1 bet) - maj_usage (major s1 bet)) :: u64) else 0)
       in if bet \<noteq> 0 \<and> best > ucast (sz + sizeof_minor) then major_loop fuel fuel bet best True sz req s1
          else major_loop fuel fuel (l_memRoot s1) best False sz req s1)"

definition kmalloc :: "nat \<Rightarrow> u32 \<Rightarrow> u32 \<Rightarrow> 'a lalloc_scheme \<Rightarrow> (u32 \<times> 'a lalloc_scheme) kres" where
  "kmalloc fuel ra req s =
     (let sz = req + (ALIGNMENT + ALIGN_INFO) in
      kbind (liballoc_lock s) (\<lambda>s1.
      if sz = 0 then
        kbind (printf (''liballoc: WARNING: alloc( 0 ) called from %x'' @ [CHR 0x0A]) [VInt ra]
          (s1\<lparr>l_warningCount := l_warningCount s1 + 1\<rparr>)) (\<lambda>s2.
        kbind (liballoc_unlock s2) (\<lambda>s3.
        kbind (liballoc_lock s3) (\<lambda>s4.
        malloc_sized fuel (1 + (ALIGNMENT + ALIGN_INFO)) 1 s4)))
      else malloc_sized fuel sz req s1))"

section \<open>\<open>free\<close>\<close>

text \<open>A pointer whose header has a wrong magic number.\<close>

definition bad_magic :: "u32 \<Rightarrow> u32 \<Rightarrow> u32 \<Rightarrow> 'a lalloc_scheme \<Rightarrow> ('a lalloc_scheme) kres" where
  "bad_magic ra ptr magic s =
     (let s1 = s\<lparr>l_errorCount := l_errorCount s + 1\<rparr>;
          overrun = magic AND 0xFFFFFF = LIBALLOC_MAGIC AND 0xFFFFFF \<or> magic AND 0xFFFF = LIBALLOC_MAGIC AND 0xFFFF \<or>
            magic AND 0xFF = LIBALLOC_MAGIC AND 0xFF
      in kbind (if overrun then
                  printf (''liballoc: ERROR: Possible 1-3 byte overrun for magic %x != %x'' @ [CHR 0x0A])
                    [VInt magic, VInt LIBALLOC_MAGIC] (s1\<lparr>l_possibleOverruns := l_possibleOverruns s1 + 1\<rparr>)
                else Inr s1) (\<lambda>s2.
         kbind (if magic = LIBALLOC_DEAD then
                  printf (''liballoc: ERROR: multiple PREFIX(free)() attempt on %x from %x.'' @ [CHR 0x0A])
                    [VInt ptr, VInt ra] s2
                else printf (''liballoc: ERROR: Bad PREFIX(free)( %x ) called from %x'' @ [CHR 0x0A])
                    [VInt ptr, VInt ra] s2) (\<lambda>s3.
         liballoc_unlock s3)))"

text \<open>Unlinking a minor from its block, and an empty block from the list of majors.\<close>

definition unlink_minor :: "u32 \<Rightarrow> 'a lalloc_scheme \<Rightarrow> 'a lalloc_scheme" where
  "unlink_minor mi s =
     (let maj = min_block (minor s mi);
          s1 = s\<lparr>l_inuse := l_inuse s - ucast (min_size (minor s mi))\<rparr>;
          s2 = upd_major maj (\<lambda>b. b\<lparr>maj_usage := maj_usage b - (min_size (minor s1 mi) + sizeof_minor)\<rparr>) s1;
          s3 = upd_minor mi (\<lambda>m. m\<lparr>min_magic := LIBALLOC_DEAD\<rparr>) s2;
          s4 = (if min_next (minor s3 mi) \<noteq> 0
                then upd_minor (min_next (minor s3 mi)) (\<lambda>m. m\<lparr>min_prev := min_prev (minor s3 mi)\<rparr>) s3 else s3);
          s5 = (if min_prev (minor s4 mi) \<noteq> 0
                then upd_minor (min_prev (minor s4 mi)) (\<lambda>m. m\<lparr>min_next := min_next (minor s4 mi)\<rparr>) s4 else s4)
      in if min_prev (minor s5 mi) = 0 then upd_major maj (\<lambda>b. b\<lparr>maj_first := min_next (minor s5 mi)\<rparr>) s5 else s5)"

definition release_major :: "u32 \<Rightarrow> 'a lalloc_scheme \<Rightarrow> ('a lalloc_scheme) kres" where
  "release_major maj s =
     (let s1 = (if l_memRoot s = maj then s\<lparr>l_memRoot := maj_next (major s maj)\<rparr> else s);
          s2 = (if l_bestBet s1 = maj then s1\<lparr>l_bestBet := 0\<rparr> else s1);
          s3 = (if maj_prev (major s2 maj) \<noteq> 0
                then upd_major (maj_prev (major s2 maj)) (\<lambda>b. b\<lparr>maj_next := maj_next (major s2 maj)\<rparr>) s2 else s2);
          s4 = (if maj_next (major s3 maj) \<noteq> 0
                then upd_major (maj_next (major s3 maj)) (\<lambda>b. b\<lparr>maj_prev := maj_prev (major s3 maj)\<rparr>) s3 else s3);
          s5 = s4\<lparr>l_allocated := l_allocated s4 - ucast (maj_size (major s4 maj))\<rparr>
      in kbind (liballoc_free maj (maj_pages (major s5 maj)) s5) (\<lambda>(_, s6). Inr s6))"

text \<open>The sizes are compared as signed integers.\<close>

definition better_bet :: "u32 \<Rightarrow> 'a lalloc_scheme \<Rightarrow> 'a lalloc_scheme" where
  "better_bet maj s =
     (if l_bestBet s \<noteq> 0 \<and>
         sint (maj_size (major s maj) - maj_usage (major s maj)) >
         sint (maj_size (major s (l_bestBet s)) - maj_usage (major s (l_bestBet s)))
      then s\<lparr>l_bestBet := maj\<rparr> else s)"

definition kfree :: "u32 \<Rightarrow> u32 \<Rightarrow> 'a lalloc_scheme \<Rightarrow> ('a lalloc_scheme) kres" where
  "kfree ra ptr s =
     (if ptr = 0 then
        printf (''liballoc: WARNING: PREFIX(free)( NULL ) called from %x'' @ [CHR 0x0A]) [VInt ra]
          (s\<lparr>l_warningCount := l_warningCount s + 1\<rparr>)
      else
        kbind (touch (ptr - ALIGN_INFO) 1 s) (\<lambda>_.
        let ptr1 = unalign ptr s in
        kbind (liballoc_lock s) (\<lambda>s1.
        let mi = ptr1 - sizeof_minor in
        kbind (touch (mi + 12) 4 s1) (\<lambda>_.
        if min_magic (minor s1 mi) \<noteq> LIBALLOC_MAGIC then bad_magic ra ptr1 (min_magic (minor s1 mi)) s1
        else
          kbind (touch mi 24 s1) (\<lambda>_.
          let maj = min_block (minor s1 mi); s2 = unlink_minor mi s1 in
          kbind (touch maj 24 s1) (\<lambda>_.
          kbind (if maj_first (major s2 maj) = 0 then release_major maj s2 else Inr (better_bet maj s2)) (\<lambda>s3.
          liballoc_unlock s3)))))))"

section \<open>\<open>calloc\<close> and \<open>realloc\<close>\<close>

text \<open>The result of \<open>malloc\<close> is used without a check for null.\<close>

definition kcalloc :: "nat \<Rightarrow> u32 \<Rightarrow> u32 \<Rightarrow> u32 \<Rightarrow> 'a lalloc_scheme \<Rightarrow> (u32 \<times> 'a lalloc_scheme) kres" where
  "kcalloc fuel ra nobj sz s =
     (let real_size = nobj * sz in
      kbind (kmalloc fuel ra real_size s) (\<lambda>(p, s1).
      kbind (if real_size = 0 then Inr () else nonnull p) (\<lambda>_.
      Inr (p, s1\<lparr>payload := liballoc_memset (unat real_size) p 0 (payload s1)\<rparr>))))"

definition krealloc :: "nat \<Rightarrow> u32 \<Rightarrow> u32 \<Rightarrow> u32 \<Rightarrow> 'a lalloc_scheme \<Rightarrow> (u32 \<times> 'a lalloc_scheme) kres" where
  "krealloc fuel ra p sz s =
     (if sz = 0 then kbind (kfree ra p s) (\<lambda>s1. Inr (0, s1))
      else if p = 0 then kmalloc fuel ra sz s
      else
        kbind (touch (p - ALIGN_INFO) 1 s) (\<lambda>_.
        let ptr = unalign p s in
        kbind (liballoc_lock s) (\<lambda>s1.
        let mi = ptr - sizeof_minor in
        kbind (touch (mi + 12) 4 s1) (\<lambda>_.
        if min_magic (minor s1 mi) \<noteq> LIBALLOC_MAGIC then
          kbind (bad_magic ra ptr (min_magic (minor s1 mi)) s1) (\<lambda>s2. Inr (0, s2))
        else
          kbind (touch mi 24 s1) (\<lambda>_.
          let real_size = min_req_size (minor s1 mi) in
          if real_size \<ge> sz then
            kbind (liballoc_unlock (upd_minor mi (\<lambda>m. m\<lparr>min_req_size := sz\<rparr>) s1)) (\<lambda>s2. Inr (p, s2))
          else
            kbind (liballoc_unlock s1) (\<lambda>s2.
            kbind (kmalloc fuel ra sz s2) (\<lambda>(q, s3).
            kbind (if real_size = 0 then Inr () else nonnull q) (\<lambda>_.
            kbind (kfree ra p (s3\<lparr>payload := liballoc_memcpy (unat real_size) q p (payload s3)\<rparr>)) (\<lambda>s4.
            Inr (q, s4))))))))))"

end
