(* ===== verification/BitmapHeap.thy ===== *)
theory BitmapHeap
  imports Liballoc
begin

text \<open>
  \<open>bitmap_alloc\<close> and \<open>bitmap_free\<close> of \<open>kernel/kernel/util/bitmap.c\<close>, which put bitmaps on the kernel heap.
  Nothing in the kernel calls them, so their structures are a store of their own, indexed by address; the
  words of a bitmap are bytes of the heap.
\<close>

record bitmap_struct =
  bs_word_count :: u32
  bs_bits :: u32
  bs_flags :: u8

record bitmap_heap = lalloc +
  bitmap_structs :: "u32 \<Rightarrow> bitmap_struct"

definition upd_bitmap :: "u32 \<Rightarrow> (bitmap_struct \<Rightarrow> bitmap_struct) \<Rightarrow> 'a bitmap_heap_scheme \<Rightarrow> 'a bitmap_heap_scheme" where
  "upd_bitmap p f s = s\<lparr>bitmap_structs := (bitmap_structs s)(p := f (bitmap_structs s p))\<rparr>"

definition words_needed :: "u32 \<Rightarrow> u32" where
  "words_needed num_bits =
     (let num_words = num_bits div BITS_PER_WORD in
      if num_bits mod BITS_PER_WORD \<noteq> 0 then num_words + 1 else num_words)"

definition bitmap_alloc :: "nat \<Rightarrow> u32 \<Rightarrow> u32 \<Rightarrow> u32 \<Rightarrow> 'a bitmap_heap_scheme \<Rightarrow> (u32 \<times> 'a bitmap_heap_scheme) kres" where
  "bitmap_alloc fuel ra bm num_bits s =
     kbind (if bm = 0 then
              kbind (kcalloc fuel ra 1 12 s) (\<lambda>(p, s1).
              if p = 0 then Inl (Undefined ''null bitmap'')
              else Inr (p, upd_bitmap p (\<lambda>_. \<lparr>bs_word_count = 0, bs_bits = 0, bs_flags = 0 OR BITMAP_FREE_STRUCT\<rparr>) s1))
            else Inr (bm, s)) (\<lambda>(p, s1).
     kbind (kcalloc fuel ra (words_needed num_bits) 4
       (upd_bitmap p (\<lambda>b. b\<lparr>bs_word_count := words_needed num_bits\<rparr>) s1)) (\<lambda>(w, s2).
     Inr (p, upd_bitmap p (\<lambda>b. b\<lparr>bs_bits := w\<rparr>) s2)))"

definition bitmap_free :: "u32 \<Rightarrow> u32 \<Rightarrow> 'a bitmap_heap_scheme \<Rightarrow> ('a bitmap_heap_scheme) kres" where
  "bitmap_free ra bm s =
     (if bm = 0 then Inr (worry ''freeing NULL bitmap'' s)
      else if bs_flags (bitmap_structs s bm) AND BITMAP_FREE_NOTHING \<noteq> 0 then
        Inr (worry ''tried to free un-freeable bitmap'' s)
      else
        kbind (kfree ra (bs_bits (bitmap_structs s bm))
          (worry_if (bs_bits (bitmap_structs s bm) = 0) ''freeing bitmap with null bits'' s)) (\<lambda>s1.
        if bs_flags (bitmap_structs s1 bm) AND BITMAP_FREE_STRUCT \<noteq> 0 then kfree ra bm s1
        else Inr (upd_bitmap bm (\<lambda>_. \<lparr>bs_word_count = 0, bs_bits = 0, bs_flags = 0\<rparr>) s1)))"

section \<open>The number of words\<close>

lemma ceiling_32: "(n + 31) div 32 = (if n mod 32 = 0 then n div 32 else n div 32 + (1 :: nat))"
proof -
  define q r where "q = n div 32" and "r = n mod 32"
  then have n: "n = 32 * q + r" "r < 32" by simp_all
  have "(32 * q + r + 31) div 32 = (if r = 0 then q else q + 1)"
    using n(2) by (cases "r = 0") (auto intro!: div_nat_eqI)
  then show ?thesis by (simp only: q_def r_def mult_div_mod_eq)
qed

lemma words_needed_ceiling: "unat (words_needed num_bits) = (unat num_bits + 31) div 32"
proof -
  have d: "unat (num_bits div BITS_PER_WORD) = unat num_bits div 32"
    "unat (num_bits mod BITS_PER_WORD) = unat num_bits mod 32"
    by (simp_all add: BITS_PER_WORD_def unat_div unat_mod)
  have zero: "num_bits mod BITS_PER_WORD = 0 \<longleftrightarrow> unat num_bits mod 32 = 0"
    using d(2) by (simp flip: unat_eq_0)
  have "unat (num_bits div BITS_PER_WORD + 1) = unat num_bits div 32 + 1"
    using unat_lt_2p [of num_bits] u32_add_no_wrap [of "num_bits div BITS_PER_WORD" 1]
    unfolding d(1) by simp
  then have "unat (words_needed num_bits) = (if unat num_bits mod 32 = 0 then unat num_bits div 32 else unat num_bits div 32 + 1)"
    using d(1) by (simp add: words_needed_def Let_def zero)
  then show ?thesis using ceiling_32 by metis
qed

end
