(* ===== verification/HeapBlock.thy ===== *)
theory HeapBlock
  imports Liballoc
begin

text \<open>
  One major block of liballoc: its list of minors, the invariant of the list, and what a request and
  the release of a minor do to it. Nothing outside of the block changes.
\<close>

section \<open>Alignment of the payload\<close>

lemma liballoc_consts: "unat sizeof_minor = 24" "unat sizeof_major = 24"
  by (simp_all add: sizeof_minor_def sizeof_major_def)

lemma and_15: "w AND (ALIGNMENT - 1) = of_nat (unat w mod 16)"
proof -
  have "ALIGNMENT - 1 = (mask 4 :: u32)" by (simp add: ALIGNMENT_def mask_eq_exp_minus_1)
  then have "w AND (ALIGNMENT - 1) = take_bit 4 w" by (simp only: take_bit_eq_mask)
  then have "unat (w AND (ALIGNMENT - 1)) = take_bit 4 (unat w)" by (simp only: unsigned_take_bit_eq)
  then have "unat (w AND (ALIGNMENT - 1)) = unat w mod 16" by (simp add: take_bit_eq_mod)
  then show ?thesis by (metis of_nat_unat ucast_id)
qed

text \<open>What \<open>ALIGN\<close> adds: between 16 and 31 bytes.\<close>

definition align_gap :: "u32 \<Rightarrow> nat" where
  "align_gap ptr = 16 + (if unat (ptr + 16) mod 16 = 0 then 0 else 16 - unat (ptr + 16) mod 16)"

lemma align_gap_bounds: "16 \<le> align_gap ptr" "align_gap ptr < 32"
  unfolding align_gap_def by simp_all

lemma align_eq:
  "align ptr s = (ptr + of_nat (align_gap ptr),
     s\<lparr>align_bytes := (align_bytes s)(ptr + of_nat (align_gap ptr) - ALIGN_INFO := of_nat (align_gap ptr))\<rparr>)"
proof -
  define r where "r = unat (ptr + 16) mod 16"
  have r: "r < 16" by (simp add: r_def)
  have rw: "(of_nat r :: u32) = 0 \<longleftrightarrow> r = 0"
    using u32_of_nat_inj [of r 0] r by simp
  show ?thesis
  proof (cases "r = 0")
    case True
    then show ?thesis
      unfolding align_def Let_def and_15 align_gap_def
      by (simp add: r_def [symmetric] ALIGN_INFO_def)
  next
    case False
    have e1: "(ALIGNMENT - of_nat r :: u32) = of_nat (16 - r)"
      using r by (simp add: ALIGNMENT_def of_nat_diff)
    have e2: "(of_nat (16 - r) + ALIGN_INFO :: u32) = of_nat (16 + (16 - r))" by (simp add: ALIGN_INFO_def)
    have e3: "(ucast (of_nat (16 - r) + ALIGN_INFO :: u32) :: u8) = of_nat (16 + (16 - r))"
      unfolding ucast_of_nat e2 by (subst unat_of_nat_u32) (use r in simp_all)
    have e4: "ptr + ALIGN_INFO + of_nat (16 - r) = ptr + of_nat (16 + (16 - r))"
      unfolding e2 [symmetric] by (simp only: ac_simps)
    have i: "ptr + ALIGN_INFO = ptr + 16" by (simp add: ALIGN_INFO_def)
    show ?thesis
      unfolding align_def Let_def and_15 align_gap_def i [symmetric]
      unfolding i r_def [symmetric] if_not_P [OF False] rw
      unfolding i [symmetric] e1 using False e4 e3 by simp
  qed
qed

text \<open>\<open>UNALIGN\<close> undoes \<open>ALIGN\<close>: the byte in front of the payload holds the distance.\<close>

lemma scast_small: "n < 128 \<Longrightarrow> (scast (of_nat n :: u8) :: u32) = of_nat n"
proof -
  assume "n < 128"
  then have "sint (of_nat n :: u8) = int n"
    by (simp add: sint_uint signed_take_bit_eq_if_positive unsigned_of_nat take_bit_nat_eq_self take_bit_of_nat
        bit_iff_odd flip: of_nat_take_bit)
  then show ?thesis by (metis of_int_of_nat_eq of_int_sint)
qed

lemma align_gap_small: "(of_nat (align_gap ptr) :: u32) < ALIGNMENT + ALIGN_INFO"
  using align_gap_bounds(2) [of ptr]
  by (simp add: word_less_nat_alt unat_of_nat_u32 ALIGNMENT_def ALIGN_INFO_def)

lemma unalign_at_gap:
  "align_bytes s (p - ALIGN_INFO) = of_nat (align_gap ptr) \<Longrightarrow> p = ptr + of_nat (align_gap ptr) \<Longrightarrow>
    unalign p s = ptr"
proof -
  assume a: "align_bytes s (p - ALIGN_INFO) = of_nat (align_gap ptr)" and p: "p = ptr + of_nat (align_gap ptr)"
  have "(scast (of_nat (align_gap ptr) :: u8) :: u32) = of_nat (align_gap ptr)"
    using align_gap_bounds(2) [of ptr] by (intro scast_small) simp
  then show "unalign p s = ptr"
    unfolding unalign_def Let_def a using align_gap_small [of ptr] by (simp add: p)
qed

lemma gap_fills_16: "(n + (16 + (if (n + 16) mod 16 = 0 then 0 else 16 - (n + 16) mod 16))) mod 16 = (0::nat)"
proof (cases "n mod 16 = 0")
  case False
  define q r where "q = n div 16" and "r = n mod 16"
  have n: "n = 16 * q + r" "r < 16" by (simp_all add: q_def r_def)
  then have "n + (16 + (16 - r)) = 16 * (q + 2)" by simp
  then show ?thesis using False unfolding mod_add_self2 r_def [symmetric] by (metis mod_mult_self1_is_0)
qed simp

lemma align_gap_aligns:
  "unat ptr + 32 < 4294967296 \<Longrightarrow> unat (ptr + of_nat (align_gap ptr)) mod 16 = 0 \<and>
    unat (ptr + of_nat (align_gap ptr)) = unat ptr + align_gap ptr"
proof
  assume a: "unat ptr + 32 < 4294967296"
  have p16: "unat (ptr + 16) = unat ptr + 16" using a by (simp add: u32_add_no_wrap)
  show e: "unat (ptr + of_nat (align_gap ptr)) = unat ptr + align_gap ptr"
    using a align_gap_bounds(2) [of ptr] by (simp add: u32_add_no_wrap unat_of_nat_u32)
  show "unat (ptr + of_nat (align_gap ptr)) mod 16 = 0"
    unfolding e unfolding align_gap_def p16 by (rule gap_fills_16)
qed

section \<open>The layout of a block\<close>

text \<open>
  \<open>minors_ok m maj pv p lo hi xs\<close>: the doubly linked list that starts at \<open>p\<close>, behind the minor
  \<open>pv\<close>, has the minors \<open>xs\<close>, all of block \<open>maj\<close>; each lies behind the bytes of the one before it, and
  all of them lie between the addresses \<open>lo\<close> and \<open>hi\<close>.
\<close>

fun minors_ok :: "(u32 \<Rightarrow> liballoc_minor) \<Rightarrow> u32 \<Rightarrow> u32 \<Rightarrow> u32 \<Rightarrow> nat \<Rightarrow> nat \<Rightarrow> u32 list \<Rightarrow> bool" where
  "minors_ok m maj pv p lo hi [] \<longleftrightarrow> p = 0 \<and> lo \<le> hi"
| "minors_ok m maj pv p lo hi (x # xs) \<longleftrightarrow> p = x \<and> x \<noteq> 0 \<and> min_prev (m x) = pv \<and>
     min_block (m x) = maj \<and> min_magic (m x) = LIBALLOC_MAGIC \<and> lo \<le> unat x \<and>
     minors_ok m maj x (min_next (m x)) (unat x + 24 + unat (min_size (m x))) hi xs"

definition used_bytes :: "(u32 \<Rightarrow> liballoc_minor) \<Rightarrow> u32 list \<Rightarrow> nat" where
  "used_bytes m xs = sum_list (map (\<lambda>x. unat (min_size (m x)) + 24) xs)"

definition block_ok :: "'a lalloc_scheme \<Rightarrow> u32 \<Rightarrow> u32 list \<Rightarrow> bool" where
  "block_ok s maj xs \<longleftrightarrow> unat maj + unat (maj_size (major s maj)) < 4294967296 \<and>
     minors_ok (minors s) maj 0 (maj_first (major s maj)) (unat maj + 24)
       (unat maj + unat (maj_size (major s maj))) xs \<and>
     unat (maj_usage (major s maj)) = 24 + used_bytes (minors s) xs"

lemma minors_ok_bounds: "minors_ok m maj pv p lo hi xs \<Longrightarrow> lo + used_bytes m xs \<le> hi"
  by (induction xs arbitrary: pv p lo) (fastforce simp: used_bytes_def)+

lemma minors_ok_mem:
  "minors_ok m maj pv p lo hi xs \<Longrightarrow> x \<in> set xs \<Longrightarrow>
    lo \<le> unat x \<and> unat x + 24 + unat (min_size (m x)) \<le> hi \<and> x \<noteq> 0"
proof (induction xs arbitrary: pv p lo)
  case (Cons y xs)
  note tail = Cons.prems(1) [unfolded minors_ok.simps]
  show ?case
  proof (cases "x = y")
    case True
    then show ?thesis using tail minors_ok_bounds [of m maj y "min_next (m y)"] by fastforce
  next
    case False
    then have "x \<in> set xs" using Cons.prems(2) by simp
    with Cons.IH tail show ?thesis by fastforce
  qed
qed simp

lemma minors_ok_cong:
  "(\<And>x. x \<in> set xs \<Longrightarrow> m x = m' x) \<Longrightarrow> minors_ok m maj pv p lo hi xs = minors_ok m' maj pv p lo hi xs"
  by (induction xs arbitrary: pv p lo) simp_all

lemma minors_ok_lo: "minors_ok m maj pv p lo hi xs \<Longrightarrow> lo' \<le> lo \<Longrightarrow> minors_ok m maj pv p lo' hi xs"
  by (cases xs) auto

lemma minors_ok_head: "minors_ok m maj pv p lo hi xs \<Longrightarrow> p = (case xs of [] \<Rightarrow> 0 | x # _ \<Rightarrow> x)"
  by (cases xs) auto

text \<open>Changing the back link of the first minor.\<close>

lemma minors_ok_set_prev:
  assumes "minors_ok m maj pv p lo hi xs"
    and "xs \<noteq> [] \<Longrightarrow> m' (hd xs) = (m (hd xs))\<lparr>min_prev := q\<rparr>"
    and "\<And>x. x \<in> set (tl xs) \<Longrightarrow> m' x = m x"
  shows "minors_ok m' maj q p lo hi xs"
proof (cases xs)
  case Nil
  then show ?thesis using assms(1) by simp
next
  case (Cons x ys)
  have e: "m' x = (m x)\<lparr>min_prev := q\<rparr>" and eq: "\<And>y. y \<in> set ys \<Longrightarrow> m' y = m y"
    using assms(2,3) Cons by simp_all
  have "minors_ok m' maj x (min_next (m x)) (unat x + 24 + unat (min_size (m x))) hi ys"
    using minors_ok_cong [of ys m' m] eq assms(1) Cons by simp
  then show ?thesis using assms(1) Cons e by simp
qed

text \<open>The bytes of a minor in front of \<open>zs\<close> end where the first of \<open>zs\<close>, or the block, ends.\<close>

definition gap_limit :: "nat \<Rightarrow> u32 list \<Rightarrow> nat" where
  "gap_limit hi zs = (case zs of [] \<Rightarrow> hi | z # _ \<Rightarrow> unat z)"

lemma minors_ok_tighten:
  "minors_ok m maj pv p lo hi zs \<Longrightarrow> lo' \<le> gap_limit hi zs \<Longrightarrow> minors_ok m maj pv p lo' hi zs"
  by (cases zs) (auto simp: gap_limit_def)

definition fresh_minor :: "u32 \<Rightarrow> u32 \<Rightarrow> u32 \<Rightarrow> u32 \<Rightarrow> u32 \<Rightarrow> liballoc_minor" where
  "fresh_minor maj pv nx sz req = \<lparr>min_prev = pv, min_next = nx, min_block = maj, min_magic = LIBALLOC_MAGIC,
     min_size = sz, min_req_size = req\<rparr>"

lemma fresh_minor_sel [simp]:
  "min_prev (fresh_minor maj pv nx sz req) = pv" "min_next (fresh_minor maj pv nx sz req) = nx"
  "min_block (fresh_minor maj pv nx sz req) = maj" "min_magic (fresh_minor maj pv nx sz req) = LIBALLOC_MAGIC"
  "min_size (fresh_minor maj pv nx sz req) = sz" "min_req_size (fresh_minor maj pv nx sz req) = req"
  by (simp_all add: fresh_minor_def)

text \<open>Linking a minor in front of the list.\<close>

lemma minors_ok_push:
  assumes ok: "minors_ok m maj pv p lo hi zs"
    and n: "n \<noteq> 0" "lo \<le> unat n" "unat n + 24 + unat sz \<le> gap_limit hi zs"
    and m': "m' n = fresh_minor maj pv p sz req" "zs \<noteq> [] \<Longrightarrow> m' (hd zs) = (m (hd zs))\<lparr>min_prev := n\<rparr>"
      "\<And>x. x \<in> set (tl zs) \<Longrightarrow> m' x = m x"
  shows "minors_ok m' maj pv n lo hi (n # zs)"
proof -
  have "minors_ok m maj pv p (unat n + 24 + unat sz) hi zs"
    using ok n(3) by (rule minors_ok_tighten)
  then have "minors_ok m' maj n p (unat n + 24 + unat sz) hi zs"
    using m'(2,3) by (rule minors_ok_set_prev)
  then show ?thesis using n m'(1) by simp
qed

text \<open>Linking a minor behind \<open>a\<close>.\<close>

lemma minors_ok_insert:
  assumes "minors_ok m maj pv p lo hi (ys @ a # zs)"
    and n: "unat n = unat a + 24 + unat (min_size (m a))" "unat n + 24 + unat sz \<le> gap_limit hi zs"
    and m': "m' n = fresh_minor maj a (min_next (m a)) sz req" "m' a = (m a)\<lparr>min_next := n\<rparr>"
      "zs \<noteq> [] \<Longrightarrow> m' (hd zs) = (m (hd zs))\<lparr>min_prev := n\<rparr>"
      "\<And>x. x \<in> set ys \<union> set (tl zs) \<Longrightarrow> m' x = m x"
  shows "minors_ok m' maj pv p lo hi (ys @ a # n # zs)"
  using assms(1) m'(4)
proof (induction ys arbitrary: pv p lo)
  case Nil
  have "n \<noteq> 0" using n(1) by auto
  have "minors_ok m' maj a n (unat a + 24 + unat (min_size (m a))) hi (n # zs)"
  proof (rule minors_ok_push)
    show "minors_ok m maj a (min_next (m a)) (unat a + 24 + unat (min_size (m a))) hi zs"
      using Nil.prems(1) by simp
    show "m' x = m x" if "x \<in> set (tl zs)" for x using that Nil.prems(2) by simp
  qed (use n m' \<open>n \<noteq> 0\<close> in simp_all)
  then show ?case using Nil.prems(1) m'(2) by simp
next
  case (Cons y ys)
  then have "m' y = m y" by simp
  with Cons show ?case by simp
qed

text \<open>Unlinking the minor \<open>a\<close>.\<close>

lemma minors_ok_remove_head:
  assumes "minors_ok m maj pv p lo hi (a # zs)"
    and "zs \<noteq> [] \<Longrightarrow> m' (hd zs) = (m (hd zs))\<lparr>min_prev := min_prev (m a)\<rparr>"
    and "\<And>x. x \<in> set (tl zs) \<Longrightarrow> m' x = m x"
  shows "minors_ok m' maj pv (min_next (m a)) lo hi zs"
proof -
  have "minors_ok m maj a (min_next (m a)) (unat a + 24 + unat (min_size (m a))) hi zs"
    and lo: "lo \<le> unat a + 24 + unat (min_size (m a))" and pv: "min_prev (m a) = pv"
    using assms(1) by simp_all
  then have "minors_ok m maj a (min_next (m a)) lo hi zs" by (metis minors_ok_lo)
  then have "minors_ok m' maj (min_prev (m a)) (min_next (m a)) lo hi zs"
    using assms(2,3) by (rule minors_ok_set_prev)
  then show ?thesis by (simp only: pv)
qed

lemma minors_ok_remove:
  assumes "minors_ok m maj pv p lo hi (ys @ y # a # zs)"
    and zs: "zs \<noteq> [] \<Longrightarrow> m' (hd zs) = (m (hd zs))\<lparr>min_prev := min_prev (m a)\<rparr>"
    and y: "m' y = (m y)\<lparr>min_next := min_next (m a)\<rparr>"
    and "\<And>x. x \<in> set ys \<union> set (tl zs) \<Longrightarrow> m' x = m x"
  shows "minors_ok m' maj pv p lo hi (ys @ y # zs)"
  using assms(1,4)
proof (induction ys arbitrary: pv p lo)
  case Nil
  have "minors_ok m maj y (min_next (m y)) (unat y + 24 + unat (min_size (m y))) hi (a # zs)"
    using Nil.prems(1) by simp
  then have "minors_ok m' maj y (min_next (m a)) (unat y + 24 + unat (min_size (m y))) hi zs"
    by (rule minors_ok_remove_head) (use zs Nil.prems(2) in simp_all)
  then show ?case using Nil.prems(1) y by simp
next
  case (Cons x ys)
  then have "m' x = m x" by simp
  with Cons show ?case by simp
qed

lemma used_bytes_simps [simp]:
  "used_bytes m [] = 0" "used_bytes m (x # xs) = unat (min_size (m x)) + 24 + used_bytes m xs"
  "used_bytes m (xs @ ys) = used_bytes m xs + used_bytes m ys"
  by (simp_all add: used_bytes_def)

lemma used_bytes_cong:
  "(\<And>x. x \<in> set xs \<Longrightarrow> min_size (m x) = min_size (m' x)) \<Longrightarrow> used_bytes m xs = used_bytes m' xs"
  unfolding used_bytes_def by (metis (mono_tags, lifting) map_eq_conv)

lemma minors_ok_distinct: "minors_ok m maj pv p lo hi xs \<Longrightarrow> distinct xs"
proof (induction xs arbitrary: pv p lo)
  case (Cons y xs)
  then show ?case
    using minors_ok_mem [of m maj y "min_next (m y)" "unat y + 24 + unat (min_size (m y))" hi xs y] by auto
qed simp

lemma block_ok_carved:
  assumes ok: "block_ok s maj (ys @ zs)"
    and new: "minors_ok (minors s') maj 0 (maj_first (major s' maj)) (unat maj + 24)
        (unat maj + unat (maj_size (major s maj))) (ys @ n # zs)"
    and sizes: "\<And>x. x \<in> set (ys @ zs) \<Longrightarrow> min_size (minors s' x) = min_size (minors s x)"
      "min_size (minors s' n) = sz"
    and maj: "maj_size (major s' maj) = maj_size (major s maj)"
      "maj_usage (major s' maj) = maj_usage (major s maj) + (sz + sizeof_minor)"
  shows "block_ok s' maj (ys @ n # zs)"
proof -
  let ?u = "used_bytes (minors s) (ys @ zs)"
  have u: "used_bytes (minors s') ys = used_bytes (minors s) ys" "used_bytes (minors s') zs = used_bytes (minors s) zs"
    using sizes(1) by (auto intro!: used_bytes_cong)
  have size: "unat maj + unat (maj_size (major s maj)) < 4294967296"
    and usage: "unat (maj_usage (major s maj)) = 24 + ?u"
    using ok by (simp_all add: block_ok_def)
  have "24 + ?u + unat sz + 24 < 4294967296"
    using minors_ok_bounds [OF new] size u sizes(2) by simp
  then have "unat (maj_usage (major s maj) + (sz + sizeof_minor)) = 24 + ?u + (unat sz + 24)"
    using usage by (simp add: u32_add_no_wrap liballoc_consts)
  then show ?thesis
    using size new u sizes(2) maj by (simp add: block_ok_def)
qed

section \<open>The cases of \<open>malloc\<close> on a block\<close>

definition same_vm :: "'a kernel_heap_scheme \<Rightarrow> 'a kernel_heap_scheme \<Rightarrow> bool" where
  "same_vm s t \<longleftrightarrow> kheap t = kheap s \<and> pmem t = pmem s \<and> cr3 t = cr3 s \<and> page_bitmap t = page_bitmap s \<and>
     page_count t = page_count s"

text \<open>Outside of the block \<open>maj\<close> nothing changes, and of its header only the first minor and the usage.\<close>

definition outside :: "'a lalloc_scheme \<Rightarrow> u32 \<Rightarrow> u32 \<Rightarrow> bool" where
  "outside s maj x \<longleftrightarrow> unat x < unat maj + 24 \<or> unat maj + unat (maj_size (major s maj)) \<le> unat x"

definition same_blocks :: "u32 \<Rightarrow> 'a lalloc_scheme \<Rightarrow> 'a lalloc_scheme \<Rightarrow> bool" where
  "same_blocks maj s t \<longleftrightarrow> (\<forall>b. b \<noteq> maj \<longrightarrow> major t b = major s b) \<and>
     maj_prev (major t maj) = maj_prev (major s maj) \<and> maj_next (major t maj) = maj_next (major s maj) \<and>
     maj_pages (major t maj) = maj_pages (major s maj) \<and> maj_size (major t maj) = maj_size (major s maj) \<and>
     (\<forall>x. outside s maj x \<longrightarrow> minor t x = minor s x)"

definition same_rest :: "u32 \<Rightarrow> 'a lalloc_scheme \<Rightarrow> 'a lalloc_scheme \<Rightarrow> bool" where
  "same_rest maj s t \<longleftrightarrow> l_memRoot t = l_memRoot s \<and> l_bestBet t = l_bestBet s \<and> lalloc.more t = lalloc.more s \<and>
     payload t = payload s \<and> same_vm s t \<and> same_blocks maj s t"

lemma same_vm_upd [simp]:
  "same_vm s (t\<lparr>majors := x1\<rparr>) = same_vm s t" "same_vm s (t\<lparr>minors := x2\<rparr>) = same_vm s t"
  "same_vm s (t\<lparr>align_bytes := x3\<rparr>) = same_vm s t" "same_vm s (t\<lparr>l_bestBet := x4\<rparr>) = same_vm s t"
  "same_vm s (t\<lparr>l_inuse := x5\<rparr>) = same_vm s t" "same_vm s (t\<lparr>if_flag := x6\<rparr>) = same_vm s t"
  "same_vm s (t\<lparr>enable_int := x7\<rparr>) = same_vm s t" "same_vm s (t\<lparr>l_memRoot := x8\<rparr>) = same_vm s t"
  "same_vm s (t\<lparr>l_errorCount := x9\<rparr>) = same_vm s t" "same_vm s (t\<lparr>con_log := x10\<rparr>) = same_vm s t"
  "same_vm s (t\<lparr>payload := x11\<rparr>) = same_vm s t" "same_vm s (t\<lparr>l_allocated := x12\<rparr>) = same_vm s t" "same_vm s s"
  by (simp_all add: same_vm_def)

lemma same_rest_trans: "same_rest maj s t \<Longrightarrow> same_rest maj t u \<Longrightarrow> same_rest maj s u"
  by (simp add: same_rest_def same_blocks_def same_vm_def outside_def)

lemma same_vm_trans: "same_vm s t \<Longrightarrow> same_vm t u \<Longrightarrow> same_vm s u"
  by (simp add: same_vm_def)

definition payload_of :: "u32 \<Rightarrow> u32" where
  "payload_of mino = mino + sizeof_minor + of_nat (align_gap (mino + sizeof_minor))"

lemma hand_out_spec:
  assumes "\<not> if_flag s"
  obtains s' where "hand_out mino s = Inr (payload_of mino, s')" "majors s' = majors s" "minors s' = minors s"
    "align_bytes s' (payload_of mino - ALIGN_INFO) = of_nat (align_gap (mino + sizeof_minor))"
    "if_flag s' = enable_int s" "lalloc.more s' = lalloc.more s" "l_memRoot s' = l_memRoot s" "l_bestBet s' = l_bestBet s"
    "\<And>q. q \<noteq> payload_of mino - ALIGN_INFO \<Longrightarrow> align_bytes s' q = align_bytes s q" "same_vm s s'"
    "payload s' = payload s"
proof
  let ?g = "align_gap (mino + sizeof_minor)"
  let ?s = "s\<lparr>align_bytes := (align_bytes s)(payload_of mino - ALIGN_INFO := of_nat ?g)\<rparr>"
  have "align (mino + sizeof_minor) s = (payload_of mino, ?s)"
    unfolding align_eq payload_of_def by simp
  moreover have "liballoc_unlock ?s = Inr (?s\<lparr>if_flag := enable_int s\<rparr>)"
    using liballoc_unlock_eq [of ?s] assms by simp
  ultimately show "hand_out mino s = Inr (payload_of mino, ?s\<lparr>if_flag := enable_int s\<rparr>)"
    unfolding hand_out_def by simp
qed simp_all

lemma payload_bounds:
  assumes "unat mino + 24 + unat sz < 4294967296" and "unat sz = unat req + 32"
  shows "unat (payload_of mino) mod 16 = 0" "unat mino + 24 + 16 \<le> unat (payload_of mino)"
    "unat (payload_of mino) + unat req \<le> unat mino + 24 + unat sz"
proof -
  have m: "unat (mino + sizeof_minor) = unat mino + 24"
    using assms by (simp add: u32_add_no_wrap liballoc_consts)
  then have "unat (mino + sizeof_minor) + 32 < 4294967296" using assms by simp
  note aligned = align_gap_aligns [OF this, folded payload_of_def]
  from aligned show "unat (payload_of mino) mod 16 = 0" by (rule conjunct1)
  from aligned align_gap_bounds [of "mino + sizeof_minor"] m assms
  show "unat mino + 24 + 16 \<le> unat (payload_of mino)"
    "unat (payload_of mino) + unat req \<le> unat mino + 24 + unat sz"
    by linarith+
qed

lemma payload_unaligns:
  "align_bytes s (payload_of mino - ALIGN_INFO) = of_nat (align_gap (mino + sizeof_minor)) \<Longrightarrow>
    unalign (payload_of mino) s = mino + sizeof_minor"
  by (erule unalign_at_gap) (simp add: payload_of_def)

text \<open>The minors after linking \<open>b\<close> behind \<open>a\<close>.\<close>

definition link_behind :: "u32 \<Rightarrow> u32 \<Rightarrow> u32 \<Rightarrow> u32 \<Rightarrow> u32 \<Rightarrow> (u32 \<Rightarrow> liballoc_minor) \<Rightarrow> u32 \<Rightarrow> liballoc_minor" where
  "link_behind maj a b sz req m =
     (let nx = min_next (m a);
          m1 = m(b := fresh_minor maj a nx sz req);
          m2 = (if nx = 0 then m1 else m1(nx := (m1 nx)\<lparr>min_prev := b\<rparr>))
      in m2(a := (m2 a)\<lparr>min_next := b\<rparr>))"

definition minor_end :: "'a lalloc_scheme \<Rightarrow> u32 \<Rightarrow> u32" where
  "minor_end s a = a + sizeof_minor + min_size (minor s a)"

lemma minor_all_set:
  "(m :: liballoc_minor)\<lparr>min_prev := pv, min_next := nx, min_magic := LIBALLOC_MAGIC, min_block := maj,
    min_size := sz, min_req_size := req\<rparr> = fresh_minor maj pv nx sz req"
  "m\<lparr>min_next := nx, min_magic := LIBALLOC_MAGIC, min_prev := pv, min_block := maj,
    min_size := sz, min_req_size := req\<rparr> = fresh_minor maj pv nx sz req"
  by (cases m; simp add: fresh_minor_def)+

lemma malloc_case41_eq:
  "min_next (minor s a) = 0 \<Longrightarrow> minor_end s a \<noteq> a \<Longrightarrow> malloc_case41 maj a sz req s =
    hand_out (minor_end s a) (count_use maj sz (s\<lparr>minors := link_behind maj a (minor_end s a) sz req (minors s)\<rparr>))"
  unfolding malloc_case41_def Let_def minor_end_def [symmetric]
  by (simp add: upd_minor_def link_behind_def minor_all_set fun_upd_twist)

lemma malloc_case42_eq:
  "min_next (minor s a) \<noteq> 0 \<Longrightarrow> minor_end s a \<noteq> a \<Longrightarrow> malloc_case42 maj a sz req s =
    hand_out (minor_end s a) (count_use maj sz (s\<lparr>minors := link_behind maj a (minor_end s a) sz req (minors s)\<rparr>))"
  unfolding malloc_case42_def Let_def minor_end_def [symmetric]
  by (simp add: upd_minor_def link_behind_def fresh_minor_def Let_def)

lemma minors_ok_suffix:
  "minors_ok m maj pv p lo hi (us @ vs) \<Longrightarrow> \<exists>pv' p' lo'. lo \<le> lo' \<and> minors_ok m maj pv' p' lo' hi vs"
proof (induction us arbitrary: pv p lo)
  case (Cons u us)
  then obtain pv' p' lo' where "unat u + 24 + unat (min_size (m u)) \<le> lo'" "minors_ok m maj pv' p' lo' hi vs"
    by fastforce
  moreover have "lo \<le> unat u" using Cons.prems by simp
  ultimately show ?case by (meson le_trans le_add1)
qed auto

lemma minors_ok_before:
  assumes "minors_ok m maj pv p lo hi (us @ a # vs)"
  shows "u \<in> set us \<Longrightarrow> unat u + 24 + unat (min_size (m u)) \<le> unat a"
    "v \<in> set vs \<Longrightarrow> unat a + 24 + unat (min_size (m a)) \<le> unat v"
    "gap_limit hi vs \<le> hi"
proof -
  show "unat u + 24 + unat (min_size (m u)) \<le> unat a" if u: "u \<in> set us"
  proof -
    obtain as bs where "us = as @ u # bs" using u by (meson split_list)
    then obtain pv' p' lo' where "minors_ok m maj pv' p' lo' hi (u # bs @ a # vs)"
      using minors_ok_suffix [of m maj pv p lo hi as "u # bs @ a # vs"] assms by auto
    then show ?thesis
      using minors_ok_mem [of m maj u _ _ hi "bs @ a # vs" a] by auto
  qed
  obtain pv' p' lo' where a: "minors_ok m maj pv' p' lo' hi (a # vs)"
    using minors_ok_suffix [OF assms] by blast
  show "unat a + 24 + unat (min_size (m a)) \<le> unat v" if "v \<in> set vs"
    using minors_ok_mem [of m maj a _ _ hi vs v] a that by auto
  show "gap_limit hi vs \<le> hi"
  proof (cases vs)
    case (Cons v ws)
    from a have "minors_ok m maj a (min_next (m a)) (unat a + 24 + unat (min_size (m a))) hi vs" by simp
    then have "unat v + 24 + unat (min_size (m v)) \<le> hi"
      using minors_ok_mem Cons by (metis list.set_intros(1))
    then show ?thesis using Cons by (simp add: gap_limit_def)
  qed (simp add: gap_limit_def)
qed

lemma link_behind_other:
  "x \<noteq> a \<Longrightarrow> x \<noteq> b \<Longrightarrow> (min_next (m a) \<noteq> 0 \<Longrightarrow> x \<noteq> min_next (m a)) \<Longrightarrow> link_behind maj a b sz req m x = m x"
  by (simp add: link_behind_def Let_def)

lemma minors_ok_next:
  "minors_ok m maj pv p lo hi (us @ a # vs) \<Longrightarrow> min_next (m a) = (case vs of [] \<Rightarrow> 0 | v # _ \<Rightarrow> v)"
  using minors_ok_suffix minors_ok_head by fastforce

text \<open>The two sizes of a minor: of its room, and the one that was asked for.\<close>

definition sizes :: "liballoc_minor \<Rightarrow> u32 \<times> u32" where
  "sizes m = (min_size m, min_req_size m)"

lemma link_behind_ok:
  assumes ok: "minors_ok m maj pv p lo hi (us @ a # vs)" and hi: "hi < 4294967296"
    and room: "unat a + 24 + unat (min_size (m a)) + (unat sz + 24) \<le> gap_limit hi vs"
    and b: "b = a + sizeof_minor + min_size (m a)"
  shows "unat b = unat a + 24 + unat (min_size (m a))" (is ?b)
    and "minors_ok (link_behind maj a b sz req m) maj pv p lo hi (us @ a # b # vs)"
    and "\<And>x. x \<in> set (us @ a # vs) \<Longrightarrow> sizes (link_behind maj a b sz req m x) = sizes (m x)"
    and "sizes (link_behind maj a b sz req m b) = (sz, req)"
proof -
  note before = minors_ok_before [OF ok]
  have "unat a + 24 + unat (min_size (m a)) < 4294967296" using before(3) room hi by linarith
  then show ub: ?b
    unfolding b by (simp add: u32_add_no_wrap liballoc_consts)
  have nx: "min_next (m a) = (case vs of [] \<Rightarrow> 0 | v # _ \<Rightarrow> v)"
    using minors_ok_suffix [OF ok] minors_ok_head by fastforce
  have ba: "b \<noteq> a" using ub by auto
  have lt: "unat b < unat v" if "v \<in> set vs" for v
  proof -
    obtain pv' p' lo' where "minors_ok m maj pv' p' lo' hi (a # vs)"
      using minors_ok_suffix [OF ok] by blast
    then have vs: "minors_ok m maj a (min_next (m a)) (unat a + 24 + unat (min_size (m a))) hi vs" by simp
    have "gap_limit hi vs \<le> unat v"
      using minors_ok_mem [OF minors_ok_tighten [OF vs order_refl] that] that by simp
    then show ?thesis using room ub by linarith
  qed
  have bn: "b \<notin> set (us @ a # vs)"
    using ba lt before(1) [of b] ub by fastforce
  have d: "distinct (us @ a # vs)" by (rule minors_ok_distinct [OF ok])
  have nz: "0 \<notin> set (us @ a # vs)" using minors_ok_mem [OF ok] by blast
  define m' where "m' = link_behind maj a b sz req m"
  have m'b: "m' b = fresh_minor maj a (min_next (m a)) sz req"
    unfolding m'_def link_behind_def Let_def nx using ba bn by (cases vs) auto
  have m'a: "m' a = (m a)\<lparr>min_next := b\<rparr>"
    unfolding m'_def link_behind_def Let_def nx using ba d by (cases vs) auto
  have m'h: "m' (hd vs) = (m (hd vs))\<lparr>min_prev := b\<rparr>" if "vs \<noteq> []"
    unfolding m'_def link_behind_def Let_def nx using that bn d nz by (cases vs) auto
  have m'o: "m' x = m x" if "x \<in> set us \<union> set (tl vs)" for x
    unfolding m'_def link_behind_def Let_def nx using that bn d by (cases vs) auto
  show "minors_ok (link_behind maj a b sz req m) maj pv p lo hi (us @ a # b # vs)"
    unfolding m'_def [symmetric]
  proof (rule minors_ok_insert [OF ok ub _ m'b m'a m'h m'o])
    show "unat b + 24 + unat sz \<le> gap_limit hi vs" using room ub by simp
  qed
  show "sizes (link_behind maj a b sz req m b) = (sz, req)"
    unfolding m'_def [symmetric] m'b by (simp add: sizes_def)
  show "sizes (link_behind maj a b sz req m x) = sizes (m x)" if "x \<in> set (us @ a # vs)" for x
    unfolding m'_def [symmetric] using that m'a m'h m'o by (cases vs) (auto simp: sizes_def)
qed

text \<open>Is there room for \<open>need\<close> bytes behind one of the minors?\<close>

fun gap_behind :: "(u32 \<Rightarrow> liballoc_minor) \<Rightarrow> nat \<Rightarrow> nat \<Rightarrow> u32 list \<Rightarrow> bool" where
  "gap_behind m need hi [] \<longleftrightarrow> False"
| "gap_behind m need hi (x # xs) \<longleftrightarrow>
     unat x + 24 + unat (min_size (m x)) + need \<le> gap_limit hi xs \<or> gap_behind m need hi xs"

text \<open>The guards of cases 4.1 and 4.2 compute the gap in 32-bit words.\<close>

lemma gap_word:
  assumes "unat lim \<ge> unat a + 24 + unat msz"
  shows "unat (lim - a - sizeof_minor - msz) = unat lim - (unat a + 24 + unat msz)"
  using assms by (simp add: u32_sub_no_wrap liballoc_consts)

lemma scan_minors_spec:
  assumes "\<not> if_flag s" and size: "unat maj + unat (maj_size (major s maj)) < 4294967296"
    and need: "unat sz + 24 < 4294967296"
  defines "hi \<equiv> unat maj + unat (maj_size (major s maj))"
  shows "minors_ok (minors s) maj pv mi lo hi zs \<Longrightarrow> length zs < n \<Longrightarrow>
    (\<not> gap_behind (minors s) (unat sz + 24) hi zs \<and> scan_minors n mi maj sz req s = Inr None) \<or>
    (\<exists>us a vs. zs = us @ a # vs \<and> unat a + 24 + unat (min_size (minor s a)) + (unat sz + 24) \<le> gap_limit hi vs \<and>
      scan_minors n mi maj sz req s = kbind (hand_out (minor_end s a)
        (count_use maj sz (s\<lparr>minors := link_behind maj a (minor_end s a) sz req (minors s)\<rparr>))) (\<lambda>r. Inr (Some r)))"
proof (induction zs arbitrary: n pv mi lo)
  case Nil
  then show ?case by (cases n) simp_all
next
  case (Cons a vs)
  then obtain k where n: "n = Suc k" by (cases n) simp_all
  let ?behind = "unat a + 24 + unat (min_size (minor s a))"
  have a: "mi = a" "a \<noteq> 0" and vs: "minors_ok (minors s) maj a (min_next (minor s a)) ?behind hi vs"
    using Cons.prems(1) by simp_all
  have nx: "min_next (minor s a) = (case vs of [] \<Rightarrow> 0 | v # _ \<Rightarrow> v)" by (rule minors_ok_head [OF vs])
  have lim: "?behind \<le> gap_limit hi vs"
    using vs by (cases vs) (simp_all add: gap_limit_def)
  have "minors_ok (minors s) maj pv mi lo hi ([] @ a # vs)" using Cons.prems(1) by simp
  then have lim2: "gap_limit hi vs \<le> hi" by (rule minors_ok_before(3))
  define L where "L = (if min_next (minor s a) = 0 then maj + maj_size (major s maj) else min_next (minor s a))"
  have L: "unat L = gap_limit hi vs"
    unfolding L_def nx using vs size by (cases vs) (auto simp: gap_limit_def hi_def u32_add_no_wrap)
  have guard: "L - a - sizeof_minor - min_size (minor s a) \<ge> sz + sizeof_minor \<longleftrightarrow> ?behind + (unat sz + 24) \<le> gap_limit hi vs"
    using gap_word [of a "min_size (minor s a)" L] L lim need
    by (auto simp: word_le_nat_alt u32_add_no_wrap liballoc_consts)
  have "unat (minor_end s a) = ?behind"
    using lim lim2 size unfolding minor_end_def hi_def by (simp add: u32_add_no_wrap liballoc_consts)
  then have ne: "minor_end s a \<noteq> a" by auto
  show ?case
  proof (cases "?behind + (unat sz + 24) \<le> gap_limit hi vs")
    case True
    have "scan_minors n mi maj sz req s = kbind (hand_out (minor_end s a)
        (count_use maj sz (s\<lparr>minors := link_behind maj a (minor_end s a) sz req (minors s)\<rparr>))) (\<lambda>r. Inr (Some r))"
      using True guard a ne unfolding n L_def
      by (cases "min_next (minor s a) = 0") (simp_all add: malloc_case41_eq malloc_case42_eq)
    with True show ?thesis by (intro disjI2 exI [of _ "[]"] exI [of _ a] exI [of _ vs]) simp
  next
    case False
    have step: "scan_minors n mi maj sz req s = scan_minors k (min_next (minor s a)) maj sz req s"
      using False guard a unfolding n L_def by (cases "min_next (minor s a) = 0") simp_all
    have "length vs < k" using Cons.prems(2) n by simp
    from Cons.IH [OF vs this] show ?thesis
    proof (elim disjE exE conjE)
      assume "\<not> gap_behind (minors s) (unat sz + 24) hi vs" "scan_minors k (min_next (minor s a)) maj sz req s = Inr None"
      then show ?thesis using False step by simp
    next
      fix us b ws
      assume "vs = us @ b # ws"
      then have "a # vs = (a # us) @ b # ws" by simp
      moreover assume "unat b + 24 + unat (min_size (minor s b)) + (unat sz + 24) \<le> gap_limit hi ws"
        "scan_minors k (min_next (minor s a)) maj sz req s = kbind (hand_out (minor_end s b)
          (count_use maj sz (s\<lparr>minors := link_behind maj b (minor_end s b) sz req (minors s)\<rparr>))) (\<lambda>r. Inr (Some r))"
      ultimately show ?thesis unfolding step by blast
    qed
  qed
qed

section \<open>A block serves a request\<close>

definition has_gap :: "'a lalloc_scheme \<Rightarrow> u32 \<Rightarrow> nat \<Rightarrow> u32 list \<Rightarrow> bool" where
  "has_gap s maj need xs \<longleftrightarrow>
     (let hi = unat maj + unat (maj_size (major s maj))
      in unat maj + 24 + need \<le> gap_limit hi xs \<or> gap_behind (minors s) need hi xs)"

text \<open>
  \<open>p\<close> is served: a minor \<open>n\<close> of \<open>sz\<close> bytes is new among the minors \<open>xs\<close>, the others keep their
  bytes, and \<open>p\<close> is the payload of \<open>n\<close> (in it by \<open>payload_bounds\<close>, unless \<open>sz\<close> wrapped around). Of the rest of the state
  only the lock, the usage and the alignment byte in front of \<open>p\<close> change.
\<close>

lemma maj_size_upd [simp]:
  "maj_size ((f(m := (f m)\<lparr>maj_usage := u\<rparr>)) b) = maj_size (f b)"
  "maj_size ((f(m := (f m)\<lparr>maj_first := n\<rparr>)) b) = maj_size (f b)"
  by simp_all

definition served :: "'a lalloc_scheme \<Rightarrow> 'a lalloc_scheme \<Rightarrow> u32 \<Rightarrow> u32 list \<Rightarrow> u32 \<Rightarrow> u32 \<Rightarrow> u32 \<Rightarrow> bool" where
  "served s s' maj xs sz req p \<longleftrightarrow>
     (\<exists>ys n zs. xs = ys @ zs \<and> block_ok s' maj (ys @ n # zs) \<and> sizes (minor s' n) = (sz, req) \<and>
        (\<forall>x \<in> set xs. sizes (minor s' x) = sizes (minor s x)) \<and>
        p = payload_of n \<and> unalign p s' = n + sizeof_minor) \<and>
     same_rest maj s s' \<and> if_flag s' = enable_int s \<and> (\<forall>q. q \<noteq> p - ALIGN_INFO \<longrightarrow> align_bytes s' q = align_bytes s q)"

lemma count_use_simps [simp]:
  "minors (count_use maj sz s) = minors s" "if_flag (count_use maj sz s) = if_flag s"
  "majors (count_use maj sz s) = (majors s)(maj := (majors s maj)\<lparr>maj_usage := maj_usage (majors s maj) + (sz + sizeof_minor)\<rparr>)"
  "enable_int (count_use maj sz s) = enable_int s" "align_bytes (count_use maj sz s) = align_bytes s"
  "same_rest maj u (count_use maj sz s) = same_rest maj u s"
  unfolding same_rest_def same_blocks_def by (auto simp: count_use_def Let_def upd_major_def)

lemma served_hand_out:
  assumes ok: "block_ok s maj (ys @ zs)" and "\<not> if_flag t"
    and new: "minors_ok (minors t) maj 0 (maj_first (major t maj)) (unat maj + 24)
        (unat maj + unat (maj_size (major s maj))) (ys @ n # zs)"
    and sizes: "\<And>x. x \<in> set (ys @ zs) \<Longrightarrow> sizes (minors t x) = sizes (minors s x)"
      "sizes (minors t n) = (sz, req)"
    and maj: "maj_size (major t maj) = maj_size (major s maj)" "maj_usage (major t maj) = maj_usage (major s maj)"
    and rest: "same_rest maj s t" "enable_int t = enable_int s" "align_bytes t = align_bytes s"
  shows "\<exists>s'. hand_out n (count_use maj sz t) = Inr (payload_of n, s') \<and> served s s' maj (ys @ zs) sz req (payload_of n)"
proof -
  obtain s' where s': "hand_out n (count_use maj sz t) = Inr (payload_of n, s')"
    "majors s' = majors (count_use maj sz t)" "minors s' = minors (count_use maj sz t)"
    "align_bytes s' (payload_of n - ALIGN_INFO) = of_nat (align_gap (n + sizeof_minor))"
    "same_rest maj (count_use maj sz t) s'" "if_flag s' = enable_int t"
    "\<And>q. q \<noteq> payload_of n - ALIGN_INFO \<Longrightarrow> align_bytes s' q = align_bytes t q"
    using hand_out_spec [of "count_use maj sz t" n] assms(2) unfolding same_rest_def same_blocks_def by auto
  have "same_rest maj s (count_use maj sz t)" using rest(1) by simp
  then have "same_rest maj s s'" using s'(5) same_rest_trans by blast
  have "block_ok s' maj (ys @ n # zs)"
    by (rule block_ok_carved [OF ok, where sz = sz]) (use new sizes maj s'(2,3) in \<open>simp_all add: sizes_def\<close>)
  moreover have "sizes (minor s' n) = (sz, req)" "\<forall>x \<in> set (ys @ zs). sizes (minor s' x) = sizes (minor s x)"
    using s'(3) sizes by simp_all
  ultimately have "served s s' maj (ys @ zs) sz req (payload_of n)"
    unfolding served_def using payload_unaligns [OF s'(4)] \<open>same_rest maj s s'\<close> s'(6,7) rest(2,3)
    by (intro conjI exI [of _ ys] exI [of _ n] exI [of _ zs]) simp_all
  with s'(1) show ?thesis by blast
qed

lemma room_word:
  assumes "block_ok s maj xs" and "\<not> maj_size (major s maj) - maj_usage (major s maj) < sz + sizeof_minor"
    and "unat sz + 24 < 4294967296"
  shows "unat (maj_usage (major s maj)) + (unat sz + 24) \<le> unat (maj_size (major s maj))"
proof -
  have "unat (maj_usage (major s maj)) \<le> unat (maj_size (major s maj))"
    using minors_ok_bounds [of "minors s" maj 0 _ _ _ xs] assms(1) unfolding block_ok_def by fastforce
  then show ?thesis
    using assms(2,3) by (simp add: word_less_nat_alt u32_sub_no_wrap u32_add_no_wrap liballoc_consts)
qed

lemma case2_served:
  assumes ok: "block_ok s maj []" and "\<not> if_flag s"
    and room: "unat (maj_usage (major s maj)) + (unat sz + 24) \<le> unat (maj_size (major s maj))"
  shows "\<exists>p s'. malloc_case2 maj sz req s = Inr (p, s') \<and> served s s' maj [] sz req p"
proof -
  let ?n = "maj + sizeof_major"
  have n: "unat ?n = unat maj + 24"
    using ok room unfolding block_ok_def by (simp add: u32_add_no_wrap liballoc_consts)
  have nb: "\<not> outside s maj ?n" using n room ok by (simp add: outside_def block_ok_def)
  define t where "t = s\<lparr>majors := (majors s)(maj := (major s maj)\<lparr>maj_first := ?n\<rparr>),
    minors := (minors s)(?n := fresh_minor maj 0 0 sz req)\<rparr>"
  have eq: "malloc_case2 maj sz req s = hand_out ?n (count_use maj sz t)"
    by (simp add: malloc_case2_def Let_def upd_major_def upd_minor_def t_def fresh_minor_def)
  have "minors_ok (minors t) maj 0 (maj_first (major t maj)) (unat maj + 24)
      (unat maj + unat (maj_size (major s maj))) ([] @ ?n # [])"
    using n room ok by (auto simp: t_def block_ok_def)
  then have "\<exists>s'. hand_out ?n (count_use maj sz t) = Inr (payload_of ?n, s') \<and>
      served s s' maj ([] @ []) sz req (payload_of ?n)"
    by (intro served_hand_out) (use assms nb in \<open>auto simp: t_def same_rest_def same_blocks_def sizes_def\<close>)
  with eq show ?thesis by auto
qed

lemma case3_served:
  assumes ok: "block_ok s maj (x # xs)" and "\<not> if_flag s"
    and room: "unat maj + 24 + (unat sz + 24) \<le> unat x"
  shows "\<exists>p s'. malloc_case3 maj sz req s = Inr (p, s') \<and> served s s' maj (x # xs) sz req p"
proof -
  let ?n = "maj + sizeof_major"
  have n: "unat ?n = unat maj + 24"
    using room unat_lt_2p [of x] by (simp add: u32_add_no_wrap liballoc_consts)
  have first: "maj_first (major s maj) = x" and "x \<noteq> 0" using ok by (simp_all add: block_ok_def)
  let ?hi = "unat maj + unat (maj_size (major s maj))"
  have list: "minors_ok (minors s) maj 0 x (unat maj + 24) ?hi (x # xs)"
    using ok first by (simp add: block_ok_def)
  have nx: "?n \<noteq> x" "?n \<notin> set xs"
  proof -
    show "?n \<noteq> x" using n room by auto
    show "?n \<notin> set xs"
      using minors_ok_before(2) [of "minors s" maj 0 x _ ?hi "[]" x xs ?n] list n room by auto
  qed
  have xb: "\<not> outside s maj x" "\<not> outside s maj ?n"
    using minors_ok_mem [OF list, of x] n room by (simp_all add: outside_def)
  have d: "x \<notin> set xs" using minors_ok_distinct [OF list] by simp
  define t where "t = s\<lparr>majors := (majors s)(maj := (major s maj)\<lparr>maj_first := ?n\<rparr>),
    minors := (minors s)(x := (minor s x)\<lparr>min_prev := ?n\<rparr>, ?n := fresh_minor maj 0 x sz req)\<rparr>"
  have eq: "malloc_case3 maj sz req s = hand_out ?n (count_use maj sz t)"
    using nx by (simp add: malloc_case3_def Let_def first upd_major_def upd_minor_def t_def minor_all_set)
  have "minors_ok (minors t) maj 0 ?n (unat maj + 24) ?hi (?n # x # xs)"
    by (rule minors_ok_push [OF list]) (use n nx d room in \<open>auto simp: t_def gap_limit_def\<close>)
  then have "minors_ok (minors t) maj 0 (maj_first (major t maj)) (unat maj + 24) ?hi ([] @ ?n # x # xs)"
    by (simp add: t_def)
  then have "\<exists>s'. hand_out ?n (count_use maj sz t) = Inr (payload_of ?n, s') \<and>
      served s s' maj ([] @ x # xs) sz req (payload_of ?n)"
    by (intro served_hand_out) (use assms nx xb in \<open>auto simp: t_def same_rest_def same_blocks_def sizes_def\<close>)
  with eq show ?thesis by auto
qed

lemma case4_served:
  assumes ok: "block_ok s maj (us @ a # vs)" and "\<not> if_flag s"
    and room: "unat a + 24 + unat (min_size (minor s a)) + (unat sz + 24)
      \<le> gap_limit (unat maj + unat (maj_size (major s maj))) vs"
  shows "\<exists>p s'. hand_out (minor_end s a) (count_use maj sz
      (s\<lparr>minors := link_behind maj a (minor_end s a) sz req (minors s)\<rparr>)) = Inr (p, s') \<and>
    served s s' maj (us @ a # vs) sz req p"
proof -
  let ?hi = "unat maj + unat (maj_size (major s maj))"
  let ?t = "s\<lparr>minors := link_behind maj a (minor_end s a) sz req (minors s)\<rparr>"
  have list: "minors_ok (minors s) maj 0 (maj_first (major s maj)) (unat maj + 24) ?hi (us @ a # vs)"
    and hi: "?hi < 4294967296"
    using ok by (simp_all add: block_ok_def)
  note linked = link_behind_ok [OF list hi room minor_end_def]
  have frame: "link_behind maj a (minor_end s a) sz req (minors s) x = minor s x" if "outside s maj x" for x
  proof (rule link_behind_other)
    have "\<not> outside s maj y" if "y \<in> set (us @ a # vs)" for y
      using minors_ok_mem [OF list that] by (simp add: outside_def)
    moreover have "min_next (minor s a) \<noteq> 0 \<Longrightarrow> min_next (minor s a) \<in> set vs"
      using minors_ok_next [OF list] by (cases vs) simp_all
    moreover have "\<not> outside s maj (minor_end s a)"
      using linked(1) room minors_ok_before(3) [OF list] minors_ok_mem [OF list, of a] by (simp add: outside_def)
    ultimately show "x \<noteq> a" "x \<noteq> minor_end s a" "min_next (minor s a) \<noteq> 0 \<Longrightarrow> x \<noteq> min_next (minor s a)"
      using that by auto
  qed
  have "\<exists>s'. hand_out (minor_end s a) (count_use maj sz ?t) = Inr (payload_of (minor_end s a), s') \<and>
      served s s' maj ((us @ [a]) @ vs) sz req (payload_of (minor_end s a))"
    by (rule served_hand_out) (use assms linked frame in \<open>simp_all add: same_rest_def same_blocks_def\<close>)
  then show ?thesis by auto
qed

text \<open>A major block serves a request exactly if a gap of it has the bytes for the request and its header.\<close>

lemma use_block_spec:
  assumes ok: "block_ok s maj xs" and "\<not> if_flag s"
    and enough: "\<not> maj_size (major s maj) - maj_usage (major s maj) < sz + sizeof_minor"
    and need: "unat sz + 24 < 4294967296" and fuel: "length xs < fuel"
  shows "if has_gap s maj (unat sz + 24) xs
    then \<exists>p s'. use_block fuel maj sz req s = Inr (Some (p, s')) \<and> served s s' maj xs sz req p
    else use_block fuel maj sz req s = Inr None"
proof -
  let ?hi = "unat maj + unat (maj_size (major s maj))"
  have list: "minors_ok (minors s) maj 0 (maj_first (major s maj)) (unat maj + 24) ?hi xs" and hi: "?hi < 4294967296"
    using ok by (simp_all add: block_ok_def)
  note room = room_word [OF ok enough need]
  show ?thesis
  proof (cases xs)
    case Nil
    have "maj_first (major s maj) = 0" using list Nil by simp
    moreover have "has_gap s maj (unat sz + 24) xs"
      using room ok Nil by (simp add: has_gap_def Let_def gap_limit_def block_ok_def)
    ultimately show ?thesis
      using case2_served [of s maj sz req] assms(2) ok room Nil unfolding use_block_def by auto
  next
    case (Cons x ys)
    have x: "maj_first (major s maj) = x" "x \<noteq> 0" "unat maj + 24 \<le> unat x" using list Cons by simp_all
    have front: "x - maj - sizeof_major \<ge> sz + sizeof_minor \<longleftrightarrow> unat maj + 24 + (unat sz + 24) \<le> unat x"
      using x(3) need by (auto simp: word_le_nat_alt u32_sub_no_wrap u32_add_no_wrap liballoc_consts)
    show ?thesis
    proof (cases "unat maj + 24 + (unat sz + 24) \<le> unat x")
      case True
      then have "has_gap s maj (unat sz + 24) xs" using Cons by (simp add: has_gap_def Let_def gap_limit_def)
      then show ?thesis
        using case3_served [of s maj x ys sz req] assms(2) ok True front x Cons unfolding use_block_def by auto
    next
      case False
      then have gap: "has_gap s maj (unat sz + 24) xs \<longleftrightarrow> gap_behind (minors s) (unat sz + 24) ?hi xs"
        using Cons by (simp add: has_gap_def Let_def gap_limit_def)
      have ub: "use_block fuel maj sz req s = scan_minors fuel (maj_first (major s maj)) maj sz req s"
        using False front x unfolding use_block_def by simp
      from scan_minors_spec [OF assms(2) hi need list fuel, of req] show ?thesis
      proof (elim disjE exE conjE)
        fix us a vs
        assume xs: "xs = us @ a # vs"
          and r: "unat a + 24 + unat (min_size (minor s a)) + (unat sz + 24) \<le> gap_limit ?hi vs"
          and scan: "scan_minors fuel (maj_first (major s maj)) maj sz req s = kbind (hand_out (minor_end s a)
            (count_use maj sz (s\<lparr>minors := link_behind maj a (minor_end s a) sz req (minors s)\<rparr>))) (\<lambda>r. Inr (Some r))"
        have "gap_behind (minors s) (unat sz + 24) ?hi (us @ a # vs)"
          using r by (induction us) simp_all
        moreover from case4_served [OF ok [unfolded xs] assms(2) r, of req] obtain p s' where
          "hand_out (minor_end s a) (count_use maj sz
            (s\<lparr>minors := link_behind maj a (minor_end s a) sz req (minors s)\<rparr>)) = Inr (p, s')"
          "served s s' maj xs sz req p" unfolding xs by blast
        ultimately show ?thesis using gap xs ub scan by simp
      qed (simp add: gap ub)
    qed
  qed
qed

definition lalloc_zero :: lalloc where
  "lalloc_zero = kernel_heap.extend kheap_zero
     \<lparr>majors = (\<lambda>_. \<lparr>maj_prev = 0, maj_next = 0, maj_pages = 16, maj_size = 65536, maj_usage = 24, maj_first = 0\<rparr>),
      minors = (\<lambda>_. fresh_minor 0 0 0 0 0), align_bytes = (\<lambda>_. 0), payload = (\<lambda>_. 0), l_memRoot = 0xD0000000,
      l_bestBet = 0, l_allocated = 65536, l_inuse = 0, l_warningCount = 0, l_errorCount = 0,
      l_possibleOverruns = 0\<rparr>"

lemma lalloc_zero_sel [simp]:
  "if_flag lalloc_zero = False" "enable_int lalloc_zero = False" "l_memRoot lalloc_zero = 0xD0000000"
  "l_bestBet lalloc_zero = 0" "con_log lalloc_zero = []"
  "majors lalloc_zero p = \<lparr>maj_prev = 0, maj_next = 0, maj_pages = 16, maj_size = 65536, maj_usage = 24, maj_first = 0\<rparr>"
  by (simp_all add: lalloc_zero_def kernel_heap.defs kheap_zero_def)

lemma lalloc_zero_ok: "block_ok lalloc_zero 0xD0000000 []"
  by (simp add: block_ok_def)

section \<open>Freeing a minor\<close>

definition freed_minors :: "u32 \<Rightarrow> (u32 \<Rightarrow> liballoc_minor) \<Rightarrow> u32 \<Rightarrow> liballoc_minor" where
  "freed_minors a m =
     (let nx = min_next (m a); pv = min_prev (m a);
          m1 = m(a := (m a)\<lparr>min_magic := LIBALLOC_DEAD\<rparr>);
          m2 = (if nx \<noteq> 0 then m1(nx := (m1 nx)\<lparr>min_prev := pv\<rparr>) else m1)
      in if pv \<noteq> 0 then m2(pv := (m2 pv)\<lparr>min_next := nx\<rparr>) else m2)"

lemma upd_simps:
  "minors (upd_minor p f s) = (minors s)(p := f (minors s p))" "majors (upd_minor p f s) = majors s"
  "majors (upd_major p g s) = (majors s)(p := g (majors s p))" "minors (upd_major p g s) = minors s"
  by (simp_all add: upd_minor_def upd_major_def)

lemma unlink_minor_parts:
  assumes "min_next (minor s a) \<noteq> a" and "min_prev (minor s a) \<noteq> a"
  shows "minors (unlink_minor a s) = freed_minors a (minors s)"
    and "major (unlink_minor a s) (min_block (minor s a)) = (major s (min_block (minor s a)))
       \<lparr>maj_usage := maj_usage (major s (min_block (minor s a))) - (min_size (minor s a) + sizeof_minor),
        maj_first := (if min_prev (minor s a) = 0 then min_next (minor s a)
          else maj_first (major s (min_block (minor s a))))\<rparr>"
proof -
  show "minors (unlink_minor a s) = freed_minors a (minors s)"
    using assms by (cases "min_next (minor s a) = 0"; cases "min_prev (minor s a) = 0";
      simp add: unlink_minor_def freed_minors_def Let_def upd_simps)
qed (use assms in \<open>simp add: unlink_minor_def Let_def upd_simps\<close>)

lemma minors_ok_links:
  assumes "minors_ok m maj pv p lo hi (us @ a # vs)"
  shows "min_next (m a) = (case vs of [] \<Rightarrow> 0 | v # _ \<Rightarrow> v)"
    "min_prev (m a) = (if us = [] then pv else List.last us)" "min_block (m a) = maj" "min_magic (m a) = LIBALLOC_MAGIC"
proof -
  obtain pv' p' lo' where a: "minors_ok m maj pv' p' lo' hi (a # vs)"
    using minors_ok_suffix [OF assms] by blast
  then show "min_block (m a) = maj" "min_magic (m a) = LIBALLOC_MAGIC" by simp_all
  show "min_next (m a) = (case vs of [] \<Rightarrow> 0 | v # _ \<Rightarrow> v)" by (rule minors_ok_next [OF assms])
  show "min_prev (m a) = (if us = [] then pv else List.last us)"
    using assms by (induction us arbitrary: pv p lo) auto
qed

lemma minors_ok_links_ne:
  assumes "minors_ok m maj 0 p lo hi (us @ a # vs)"
  shows "min_next (m a) \<noteq> a" "min_prev (m a) \<noteq> a"
proof -
  note links = minors_ok_links [OF assms]
  have d: "distinct (us @ a # vs)" "a \<noteq> 0" using minors_ok_distinct [OF assms] minors_ok_mem [OF assms, of a] by simp_all
  show "min_next (m a) \<noteq> a" using links(1) d by (cases vs) auto
  have "us \<noteq> [] \<Longrightarrow> List.last us \<in> set us" by simp
  then show "min_prev (m a) \<noteq> a" using links(2) d by (auto split: if_splits)
qed

lemma freed_minors_ok:
  assumes ok: "minors_ok m maj 0 p lo hi (us @ a # vs)"
  shows "minors_ok (freed_minors a m) maj 0 (if us = [] then min_next (m a) else p) lo hi (us @ vs)"
    and "\<And>x. sizes (freed_minors a m x) = sizes (m x)"
proof -
  note links = minors_ok_links [OF ok]
  have d: "distinct (us @ a # vs)" by (rule minors_ok_distinct [OF ok])
  have nz: "0 \<notin> set (us @ a # vs)" using minors_ok_mem [OF ok] by blast
  show "sizes (freed_minors a m x) = sizes (m x)" for x
    by (simp add: freed_minors_def Let_def sizes_def)
  have hd: "freed_minors a m (hd vs) = (m (hd vs))\<lparr>min_prev := min_prev (m a)\<rparr>" if ne: "vs \<noteq> []"
  proof -
    obtain v ws where vs: "vs = v # ws" using ne by (cases vs) auto
    have "v \<noteq> a" "v \<noteq> 0" "us \<noteq> [] \<Longrightarrow> List.last us \<noteq> v" using d nz vs by (auto dest: last_in_set)
    then show ?thesis using links(1,2) vs by (auto simp: freed_minors_def Let_def)
  qed
  have tl: "freed_minors a m x = m x" if "x \<in> set (tl vs)" for x
    using that d nz links(1,2)
    by (cases vs; cases us rule: rev_cases) (fastforce simp: freed_minors_def)+
  show "minors_ok (freed_minors a m) maj 0 (if us = [] then min_next (m a) else p) lo hi (us @ vs)"
  proof (cases us rule: rev_cases)
    case Nil
    then show ?thesis using minors_ok_remove_head [of m maj 0 p lo hi a vs, OF _ hd tl] ok by simp
  next
    case (snoc ys y)
    have y: "freed_minors a m y = (m y)\<lparr>min_next := min_next (m a)\<rparr>"
      using d nz links snoc by (cases vs) (auto simp: freed_minors_def Let_def)
    have other: "freed_minors a m x = m x" if "x \<in> set ys" for x
      using that d nz links snoc by (cases vs) (auto simp: freed_minors_def Let_def)
    have "minors_ok (freed_minors a m) maj 0 p lo hi (ys @ y # vs)"
      by (rule minors_ok_remove [OF _ hd y]) (use ok snoc tl other in auto)
    then show ?thesis using snoc by simp
  qed
qed

text \<open>Freeing a minor takes it, and no other minor, out of the list of its block and gives its bytes back.\<close>

lemma unlink_minor_spec:
  assumes "block_ok s maj (us @ a # vs)"
  shows "block_ok (unlink_minor a s) maj (us @ vs) \<and> min_magic (minor (unlink_minor a s) a) = LIBALLOC_DEAD \<and>
    (\<forall>x. sizes (minor (unlink_minor a s) x) = sizes (minor s x))"
proof -
  let ?hi = "unat maj + unat (maj_size (major s maj))"
  have list: "minors_ok (minors s) maj 0 (maj_first (major s maj)) (unat maj + 24) ?hi (us @ a # vs)"
    and hi: "?hi < 4294967296" and usage: "unat (maj_usage (major s maj)) = 24 + used_bytes (minors s) (us @ a # vs)"
    using assms by (simp_all add: block_ok_def)
  note links = minors_ok_links [OF list]
  note ne = minors_ok_links_ne [OF list]
  note parts = unlink_minor_parts [OF ne, unfolded links(3)]
  note freed = freed_minors_ok [OF list]
  have p0: "min_prev (minor s a) = 0 \<longleftrightarrow> us = []"
    using links(2) minors_ok_mem [OF list] by (cases us rule: rev_cases) auto
  have first: "maj_first (major (unlink_minor a s) maj) =
      (if us = [] then min_next (minor s a) else maj_first (major s maj))"
    unfolding parts p0 by simp
  have "24 + used_bytes (minors s) (us @ a # vs) < 4294967296"
    using unat_lt_2p [of "maj_usage (major s maj)"] usage by simp
  then have u: "unat (maj_usage (major (unlink_minor a s) maj)) = 24 + used_bytes (minors s) (us @ vs)"
    unfolding parts using usage by (simp add: u32_sub_no_wrap u32_add_no_wrap liballoc_consts)
  have size: "maj_size (major (unlink_minor a s) maj) = maj_size (major s maj)"
    unfolding parts by simp
  have used: "used_bytes (minors (unlink_minor a s)) xs = used_bytes (minors s) xs" for xs
    unfolding parts using freed(2) by (intro used_bytes_cong) (simp add: sizes_def)
  have "block_ok (unlink_minor a s) maj (us @ vs)"
    unfolding block_ok_def size used u first using freed(1) hi parts(1) by simp
  moreover have "min_magic (minor (unlink_minor a s) a) = LIBALLOC_DEAD"
    unfolding parts using ne by (simp add: freed_minors_def Let_def)
  moreover have "\<forall>x. sizes (minor (unlink_minor a s) x) = sizes (minor s x)"
    unfolding parts using freed(2) by blast
  ultimately show ?thesis by blast
qed

lemma freed_minors_other:
  "x \<noteq> a \<Longrightarrow> (min_next (m a) \<noteq> 0 \<Longrightarrow> x \<noteq> min_next (m a)) \<Longrightarrow> (min_prev (m a) \<noteq> 0 \<Longrightarrow> x \<noteq> min_prev (m a)) \<Longrightarrow>
    freed_minors a m x = m x"
  by (simp add: freed_minors_def Let_def)

text \<open>Only headers and one of the counters change.\<close>

definition headers_only :: "'a lalloc_scheme \<Rightarrow> 'a lalloc_scheme \<Rightarrow> bool" where
  "headers_only s t \<longleftrightarrow> (\<exists>M m n. t = s\<lparr>majors := M, minors := m, l_inuse := n\<rparr>)"

lemma headers_only_upd:
  "headers_only s (s\<lparr>l_inuse := n\<rparr>)" "headers_only s t \<Longrightarrow> headers_only s (upd_major p g t)"
  "headers_only s t \<Longrightarrow> headers_only s (upd_minor p f t)"
proof -
  have "s\<lparr>l_inuse := n\<rparr> = s\<lparr>majors := majors s, minors := minors s, l_inuse := n\<rparr>" by simp
  then show "headers_only s (s\<lparr>l_inuse := n\<rparr>)" unfolding headers_only_def by blast
  assume "headers_only s t"
  then obtain M m n where t: "t = s\<lparr>majors := M, minors := m, l_inuse := n\<rparr>" by (auto simp: headers_only_def)
  have "upd_major p g t = s\<lparr>majors := M(p := g (M p)), minors := m, l_inuse := n\<rparr>" by (simp add: t upd_major_def)
  then show "headers_only s (upd_major p g t)" unfolding headers_only_def by blast
  have "upd_minor p f t = s\<lparr>majors := M, minors := m(p := f (m p)), l_inuse := n\<rparr>" by (simp add: t upd_minor_def)
  then show "headers_only s (upd_minor p f t)" unfolding headers_only_def by blast
qed

lemma headers_only_unlink: "headers_only s (unlink_minor a s)"
  unfolding unlink_minor_def Let_def by (simp add: headers_only_upd split del: if_split) (simp add: headers_only_upd)

lemma unlink_minor_rest:
  "l_memRoot (unlink_minor a s) = l_memRoot s" "l_bestBet (unlink_minor a s) = l_bestBet s"
  "align_bytes (unlink_minor a s) = align_bytes s" "if_flag (unlink_minor a s) = if_flag s"
  "enable_int (unlink_minor a s) = enable_int s" "lalloc.more (unlink_minor a s) = lalloc.more s"
  "same_vm s (unlink_minor a s)" "payload (unlink_minor a s) = payload s"
  "b \<noteq> min_block (minor s a) \<Longrightarrow> major (unlink_minor a s) b = major s b"
proof -
  obtain M m n where t: "unlink_minor a s = s\<lparr>majors := M, minors := m, l_inuse := n\<rparr>"
    using headers_only_unlink [of s a] by (auto simp: headers_only_def)
  show "l_memRoot (unlink_minor a s) = l_memRoot s" "l_bestBet (unlink_minor a s) = l_bestBet s"
    "align_bytes (unlink_minor a s) = align_bytes s" "if_flag (unlink_minor a s) = if_flag s"
    "enable_int (unlink_minor a s) = enable_int s" "lalloc.more (unlink_minor a s) = lalloc.more s"
    "same_vm s (unlink_minor a s)" "payload (unlink_minor a s) = payload s"
    by (simp_all add: t)
qed (simp add: unlink_minor_def Let_def upd_simps)

lemma unlink_minor_frame:
  assumes ok: "block_ok s maj (us @ a # vs)"
  shows "same_rest maj s (unlink_minor a s)"
proof -
  have list: "minors_ok (minors s) maj 0 (maj_first (major s maj)) (unat maj + 24)
      (unat maj + unat (maj_size (major s maj))) (us @ a # vs)"
    using ok by (simp add: block_ok_def)
  note links = minors_ok_links [OF list]
  note ne = minors_ok_links_ne [OF list]
  note parts = unlink_minor_parts [OF ne, unfolded links(3)]
  have inside: "\<not> outside s maj y" if "y \<in> set (us @ a # vs)" for y
    using minors_ok_mem [OF list that] by (simp add: outside_def)
  have nb: "min_next (minor s a) \<noteq> 0 \<Longrightarrow> min_next (minor s a) \<in> set (us @ a # vs)"
    "min_prev (minor s a) \<noteq> 0 \<Longrightarrow> min_prev (minor s a) \<in> set (us @ a # vs)"
    using links(1,2) by (cases vs; cases us rule: rev_cases; simp)+
  have "minor (unlink_minor a s) x = minor s x" if "outside s maj x" for x
    unfolding parts(1) by (rule freed_minors_other) (use inside nb that in auto)
  then show ?thesis
    unfolding same_rest_def same_blocks_def
    using unlink_minor_rest [where a = a and s = s] parts(2) links(3) by simp
qed

lemma ucast_of_nat64: "(ucast (w :: u32) :: u64) = of_nat (unat w)"
  by simp

lemma major_loop_hit:
  assumes "maj \<noteq> 0" and "best < ucast (maj_size (major s maj) - maj_usage (major s maj))"
    and "\<not> maj_size (major s maj) - maj_usage (major s maj) < sz + sizeof_minor"
    and "use_block fuel maj sz req (s\<lparr>l_bestBet := maj\<rparr>) = Inr (Some r)"
  shows "major_loop fuel (Suc n) maj best started sz req s = Inr r"
  unfolding major_loop.simps(2) Let_def
  by (simp only: assms if_True if_False prod.case kbind_Inr option.case)

section \<open>A request to the kernel's block\<close>

lemma gap_behind_room:
  "minors_ok m maj pv p lo hi xs \<Longrightarrow> gap_behind m need hi xs \<Longrightarrow> lo + used_bytes m xs + need \<le> hi"
proof (induction xs arbitrary: pv p lo)
  case (Cons x xs)
  have xs: "minors_ok m maj x (min_next (m x)) (unat x + 24 + unat (min_size (m x))) hi xs" "lo \<le> unat x"
    using Cons.prems(1) by simp_all
  show ?case
  proof (cases "gap_behind m need hi xs")
    case True
    then show ?thesis using Cons.IH [OF xs(1)] xs(2) by simp
  next
    case False
    then have "unat x + 24 + unat (min_size (m x)) + need \<le> gap_limit hi xs" using Cons.prems(2) by simp
    from minors_ok_bounds [OF minors_ok_tighten [OF xs(1) this]] xs(2) show ?thesis by simp
  qed
qed simp

lemma has_gap_room:
  assumes "block_ok s maj xs" and "has_gap s maj need xs"
  shows "unat (maj_usage (major s maj)) + need \<le> unat (maj_size (major s maj))"
proof -
  let ?hi = "unat maj + unat (maj_size (major s maj))"
  have list: "minors_ok (minors s) maj 0 (maj_first (major s maj)) (unat maj + 24) ?hi xs"
    and u: "unat (maj_usage (major s maj)) = 24 + used_bytes (minors s) xs"
    using assms(1) by (simp_all add: block_ok_def)
  have "unat maj + 24 + used_bytes (minors s) xs + need \<le> ?hi"
  proof (cases "gap_behind (minors s) need ?hi xs")
    case True
    then show ?thesis by (rule gap_behind_room [OF list])
  next
    case False
    then have "unat maj + 24 + need \<le> gap_limit ?hi xs" using assms(2) by (simp add: has_gap_def Let_def)
    from minors_ok_bounds [OF minors_ok_tighten [OF list this]] show ?thesis by simp
  qed
  then show ?thesis using u by simp
qed

section \<open>A request to a single empty block\<close>

lemma kmalloc_fresh_root:
  assumes ok: "block_ok s maj []" and root: "l_memRoot s = maj" "maj \<noteq> 0" "l_bestBet s = 0"
    and sz: "req + 32 \<noteq> 0" "unat (req + 32) + 24 < 4294967296"
    and enough: "unat (req + 32) + 48 \<le> unat (maj_size (major s maj))"
  shows "\<exists>s'. kmalloc (Suc fuel) ra req s = Inr (payload_of (maj + 24), s') \<and> if_flag s' = if_flag s \<and>
    minors s' = (minors s)(maj + 24 := fresh_minor maj 0 0 (req + 32) req) \<and> lalloc.more s' = lalloc.more s"
proof -
  define s0 where "s0 = s\<lparr>enable_int := if_flag s, if_flag := False\<rparr>"
  define s1 where "s1 = s0\<lparr>l_bestBet := maj\<rparr>"
  let ?n = "maj + sizeof_major"
  define t where "t = s1\<lparr>majors := (majors s)(maj := (major s maj)\<lparr>maj_first := ?n\<rparr>),
    minors := (minors s)(?n := fresh_minor maj 0 0 (req + 32) req)\<rparr>"
  have eq: "malloc_case2 maj (req + 32) req s1 = hand_out ?n (count_use maj (req + 32) t)"
    by (simp add: malloc_case2_def Let_def upd_major_def upd_minor_def t_def s1_def s0_def fresh_minor_def)
  obtain s' where s': "hand_out ?n (count_use maj (req + 32) t) = Inr (payload_of ?n, s')"
    "minors s' = minors (count_use maj (req + 32) t)" "if_flag s' = enable_int (count_use maj (req + 32) t)"
    "lalloc.more s' = lalloc.more (count_use maj (req + 32) t)"
    using hand_out_spec [of "count_use maj (req + 32) t" ?n] by (auto simp: t_def s1_def s0_def)
  have first: "maj_first (major s maj) = 0" and usage: "unat (maj_usage (major s maj)) = 24"
    using ok by (simp_all add: block_ok_def)
  let ?diff = "maj_size (major s maj) - maj_usage (major s maj)"
  have diff: "unat ?diff = unat (maj_size (major s maj)) - 24"
    using usage enough by (simp add: u32_sub_no_wrap)
  then have guard: "\<not> ?diff < (req + 32) + sizeof_minor"
    using enough sz(2) by (simp add: word_less_nat_alt u32_add_no_wrap liballoc_consts)
  have best: "(0 :: u64) < ucast ?diff"
  proof -
    have "unat (of_nat (unat ?diff) :: u64) = unat ?diff"
      by (subst unat_of_nat, rule mod_less) (use unat_lt_2p [of ?diff] in simp)
    moreover have "0 < unat ?diff" using diff enough by simp
    ultimately show ?thesis unfolding word_less_nat_alt ucast_of_nat64 by simp
  qed
  have loop: "major_loop (Suc fuel) (Suc fuel) maj 0 False (req + 32) req s0 = Inr (payload_of ?n, s')"
  proof (rule major_loop_hit)
    have "maj_first (major s1 maj) = 0" using first by (simp add: s1_def s0_def)
    then show "use_block (Suc fuel) maj (req + 32) req (s0\<lparr>l_bestBet := maj\<rparr>) = Inr (Some (payload_of ?n, s'))"
      unfolding s1_def [symmetric] use_block_def using eq s'(1) by simp
    show "\<not> maj_size (major s0 maj) - maj_usage (major s0 maj) < req + 32 + sizeof_minor"
      using guard by (simp only: s0_def lalloc.select_convs lalloc.update_convs kernel_heap.update_convs) simp
    show "0 < (ucast (maj_size (major s0 maj) - maj_usage (major s0 maj)) :: u64)"
      using best by (simp add: s0_def)
  qed (rule root)
  have "kmalloc (Suc fuel) ra req s = major_loop (Suc fuel) (Suc fuel) maj 0 False (req + 32) req s0"
    using sz(1) root
    by (simp add: kmalloc_def malloc_sized_def Let_def ALIGNMENT_def ALIGN_INFO_def liballoc_lock_eq s0_def)
  moreover have "enable_int (count_use maj (req + 32) t) = if_flag s"
    "lalloc.more (count_use maj (req + 32) t) = lalloc.more s"
    by (simp_all add: count_use_def Let_def upd_major_def t_def s1_def s0_def)
  ultimately show ?thesis
    using loop s'(2-4) by (simp add: t_def sizeof_major_def)
qed

end
