(* ===== verification/Majors.thy ===== *)
theory Majors
  imports HeapBlock
begin

text \<open>
  The heap as a whole: a doubly linked list of major blocks, each a range of heap pages that are mapped to
  physical pages of their own. Requests go to a block with room or to a new block, and an empty block
  is given back; the invariant ties the headers of liballoc to the paging structures below.
\<close>

section \<open>Doubly linked lists\<close>

text \<open>\<open>p\<close> is the head of a list of the nodes \<open>xs\<close>, linked by \<open>nx\<close> and \<open>pv\<close>; \<open>q\<close> is in front of it.\<close>

fun dlinked :: "(u32 \<Rightarrow> u32) \<Rightarrow> (u32 \<Rightarrow> u32) \<Rightarrow> u32 \<Rightarrow> u32 \<Rightarrow> u32 list \<Rightarrow> bool" where
  "dlinked nx pv q p [] \<longleftrightarrow> p = 0"
| "dlinked nx pv q p (x # xs) \<longleftrightarrow> p = x \<and> x \<noteq> 0 \<and> pv x = q \<and> dlinked nx pv x (nx x) xs"

lemma dlinked_cong:
  "(\<And>x. x \<in> set xs \<Longrightarrow> nx' x = nx x \<and> pv' x = pv x) \<Longrightarrow> dlinked nx' pv' q p xs = dlinked nx pv q p xs"
  by (induction xs arbitrary: q p) simp_all

lemma dlinked_nonzero: "dlinked nx pv q p xs \<Longrightarrow> 0 \<notin> set xs"
  by (induction xs arbitrary: q p) auto

lemma dlinked_head: "dlinked nx pv q p xs \<Longrightarrow> p = (case xs of [] \<Rightarrow> 0 | x # _ \<Rightarrow> x)"
  by (cases xs) simp_all

lemma dlinked_links:
  "dlinked nx pv q p (us @ a # vs) \<Longrightarrow>
    nx a = (case vs of [] \<Rightarrow> 0 | v # _ \<Rightarrow> v) \<and> pv a = (if us = [] then q else List.last us)"
proof (induction us arbitrary: q p)
  case Nil
  then show ?case using dlinked_head [of nx pv a "nx a" vs] by simp
next
  case (Cons u us)
  then show ?case using Cons.IH [of u "nx u"] by simp
qed

lemma dlinked_snoc:
  "dlinked nx pv q p (xs @ [l]) \<Longrightarrow> n \<notin> set (xs @ [l]) \<Longrightarrow> distinct (xs @ [l]) \<Longrightarrow> n \<noteq> 0 \<Longrightarrow> nx n = 0 \<Longrightarrow>
    dlinked (nx(l := n)) (pv(n := l)) q p (xs @ [l, n])"
  by (induction xs arbitrary: q p) auto

lemma dlinked_neighbours:
  assumes "dlinked nx pv 0 p (us @ a # vs)" "distinct (us @ a # vs)"
  shows "pv a \<noteq> a" "nx a \<noteq> a" "pv a \<noteq> 0 \<Longrightarrow> nx a \<noteq> pv a"
proof -
  note links = dlinked_links [OF assms(1)] and nz = dlinked_nonzero [OF assms(1)]
  have "pv a \<in> insert 0 (set us)" using links by (cases us rule: rev_cases) auto
  moreover have "nx a \<in> insert 0 (set vs)" using links by (cases vs) auto
  ultimately show "pv a \<noteq> a" "nx a \<noteq> a" "pv a \<noteq> 0 \<Longrightarrow> nx a \<noteq> pv a"
    using assms(2) nz by auto
qed

text \<open>Taking a node out.\<close>

definition bypass :: "(u32 \<Rightarrow> u32) \<Rightarrow> (u32 \<Rightarrow> u32) \<Rightarrow> u32 \<Rightarrow> u32 \<Rightarrow> u32" where
  "bypass f g a x = (if g a \<noteq> 0 \<and> x = g a then f a else f x)"

lemma dlinked_bypass_head:
  assumes "dlinked nx pv q p (a # vs)" "distinct (a # vs)"
  shows "dlinked nx (bypass pv nx a) q (nx a) vs"
proof (cases vs)
  case (Cons v ws)
  then have v: "nx a = v" "v \<noteq> 0" "pv a = q" "dlinked nx pv v (nx v) ws" "v \<notin> set ws" using assms by simp_all
  have "dlinked nx (bypass pv nx a) v (nx v) ws = dlinked nx pv v (nx v) ws"
    using v(1,5) by (intro dlinked_cong) (auto simp: bypass_def)
  then show ?thesis using v Cons by (simp add: bypass_def)
qed (use assms in simp)

lemma dlinked_bypass:
  assumes "dlinked nx pv q p (us @ a # vs)" "distinct (us @ a # vs)" "us \<noteq> []"
  shows "dlinked (bypass nx pv a) (bypass pv nx a) q p (us @ vs)"
  using assms
proof (induction us arbitrary: q p)
  case (Cons u us)
  have u: "p = u" "u \<noteq> 0" "pv u = q" "dlinked nx pv u (nx u) (us @ a # vs)" using Cons.prems(1) by simp_all
  have nz: "0 \<notin> set (us @ a # vs)" using dlinked_nonzero [OF u(4)] .
  note links = dlinked_links [OF u(4)]
  have pu: "bypass pv nx a u = q"
    using Cons.prems(2) links u(3) by (cases vs) (auto simp: bypass_def)
  show ?case
  proof (cases "us = []")
    case True
    then have a: "nx u = a" "pv a = u" using u(4) by simp_all
    have "dlinked nx (bypass pv nx a) u (nx a) vs"
      using dlinked_bypass_head [of nx pv u "nx u" a vs] u(4) True Cons.prems(2) by simp
    then have "dlinked (bypass nx pv a) (bypass pv nx a) u (nx a) vs"
      using Cons.prems(2) a(2) True by (subst dlinked_cong) (auto simp: bypass_def)
    moreover have "bypass nx pv a u = nx a" using a(2) u(2) by (simp add: bypass_def)
    ultimately show ?thesis using True u(1,2) pu by simp
  next
    case False
    then have "bypass nx pv a u = nx u"
      using links Cons.prems(2) by (auto simp: bypass_def)
    then show ?thesis using Cons.IH [OF u(4)] False Cons.prems(2) u(1,2) pu by simp
  qed
qed simp

section \<open>Blocks\<close>

text \<open>A block: its first heap page, the number of its pages, and the addresses of its minors.\<close>

type_synonym block = "nat \<times> nat \<times> u32 list"

abbreviation addr_of :: "block \<Rightarrow> u32" where
  "addr_of b \<equiv> heap_page (fst b)"

fun spans :: "nat \<Rightarrow> nat \<Rightarrow> block list \<Rightarrow> bool" where
  "spans lo k [] \<longleftrightarrow> lo \<le> k"
| "spans lo k ((j, n, xs) # bs) \<longleftrightarrow> lo \<le> j \<and> 0 < n \<and> spans (j + n) k bs"

definition block_pages :: "block list \<Rightarrow> nat set" where
  "block_pages bs = (\<Union>(j, n, xs) \<in> set bs. {j..<j + n})"

lemma spans_append: "spans lo k (us @ vs) \<longleftrightarrow> (\<exists>m. spans lo m us \<and> spans m k vs)"
proof (induction us arbitrary: lo)
  case Nil
  have "spans m k vs \<Longrightarrow> lo \<le> m \<Longrightarrow> spans lo k vs" for m by (cases vs) auto
  then show ?case by auto
next
  case (Cons b us)
  then show ?case by (cases b) auto
qed

lemma spans_lower: "spans m k bs \<Longrightarrow> lo \<le> m \<Longrightarrow> spans lo k bs"
  by (cases bs) auto

lemma spans_le: "spans lo k bs \<Longrightarrow> lo \<le> k"
  by (induction lo k bs rule: spans.induct) auto

lemma spans_mem: "spans lo k bs \<Longrightarrow> (j, n, xs) \<in> set bs \<Longrightarrow> lo \<le> j \<and> 0 < n \<and> j + n \<le> k"
proof (induction lo k bs rule: spans.induct)
  case (2 lo k i m ys bs)
  then show ?case using spans_le [of "i + m" k bs] by fastforce
qed simp

lemma spans_set_minors: "spans lo k (us @ (j, n, xs) # vs) = spans lo k (us @ (j, n, ys) # vs)"
  by (simp add: spans_append)

lemma spans_remove: "spans lo k (us @ b # vs) \<Longrightarrow> spans lo k (us @ vs)"
proof -
  assume a: "spans lo k (us @ b # vs)"
  obtain j n xs where b: "b = (j, n, xs)" by (cases b)
  with a obtain m where "spans lo m us" "m \<le> j" "spans (j + n) k vs" by (auto simp: spans_append)
  then show ?thesis using spans_lower [of "j + n" k vs m] by (auto simp: spans_append)
qed

lemma spans_snoc: "spans lo k bs \<Longrightarrow> 0 < n \<Longrightarrow> spans lo (k + n) (bs @ [(k, n, xs)])"
  by (auto simp: spans_append)

lemma spans_apart:
  assumes "spans lo k (us @ (j, n, xs) # vs)"
  shows "(i, m, ys) \<in> set us \<Longrightarrow> i + m \<le> j" and "(i, m, ys) \<in> set vs \<Longrightarrow> j + n \<le> i"
proof -
  from assms obtain l where l: "spans lo l us" "l \<le> j" "spans (j + n) k vs" by (auto simp: spans_append)
  show "(i, m, ys) \<in> set us \<Longrightarrow> i + m \<le> j" using spans_mem [OF l(1)] l(2) by fastforce
  show "(i, m, ys) \<in> set vs \<Longrightarrow> j + n \<le> i" using spans_mem [OF l(3)] by blast
qed

lemma spans_distinct: "spans lo k bs \<Longrightarrow> distinct (map fst bs) \<and> (\<forall>b \<in> set bs. lo \<le> fst b \<and> fst b < k)"
proof (induction lo k bs rule: spans.induct)
  case (2 lo k j n xs bs)
  then show ?case using spans_le [of "j + n" k bs] by fastforce
qed simp

lemma heap_page_inj:
  assumes "i < 1024" "j < 1024"
  shows "heap_page i = heap_page j \<longleftrightarrow> i = j"
proof
  assume "heap_page i = heap_page j"
  then have "3489660928 + 4096 * i = 3489660928 + 4096 * j"
    by (simp only: heap_page_unat [OF assms(1), symmetric] heap_page_unat [OF assms(2), symmetric])
  then show "i = j" by linarith
qed simp

lemma heap_page_nonzero: "j < 1024 \<Longrightarrow> heap_page j \<noteq> 0"
  using heap_page_unat [of j] by (auto simp: word_unat_eq_iff)

lemma addresses_distinct:
  assumes "spans lo k bs" "k \<le> 256"
  shows "distinct (map addr_of bs)"
proof -
  note d = spans_distinct [OF assms(1)]
  have "inj_on heap_page (set (map fst bs))"
  proof (rule inj_onI)
    fix i j assume i: "i \<in> set (map fst bs)" and j: "j \<in> set (map fst bs)" and eq: "heap_page i = heap_page j"
    have "i < 1024" "j < 1024" using i j d assms(2) by fastforce+
    with eq show "i = j" by (simp only: heap_page_inj)
  qed
  then have "distinct (map heap_page (map fst bs))" using d by (simp only: distinct_map simp_thms)
  then show ?thesis by (simp add: comp_def)
qed

lemma block_pages_append [simp]: "block_pages (us @ vs) = block_pages us \<union> block_pages vs"
  by (simp add: block_pages_def)

lemma block_pages_Cons [simp]: "block_pages ((j, n, xs) # bs) = {j..<j + n} \<union> block_pages bs"
  by (simp add: block_pages_def)

lemma block_pages_Nil [simp]: "block_pages [] = {}"
  by (simp add: block_pages_def)

lemma block_pages_below: "spans lo k bs \<Longrightarrow> block_pages bs \<subseteq> {lo..<k}"
  using spans_mem [of lo k bs] unfolding block_pages_def by fastforce

lemma block_pages_apart: "spans lo k (us @ (j, n, xs) # vs) \<Longrightarrow> {j..<j + n} \<inter> block_pages (us @ vs) = {}"
  using spans_apart [of lo k us j n xs vs] unfolding block_pages_def by fastforce

section \<open>The heap invariant\<close>

text \<open>The header of a block agrees with its place, and its minors are well formed.\<close>

definition content :: "'a lalloc_scheme \<Rightarrow> block \<Rightarrow> bool" where
  "content s = (\<lambda>(j, n, xs). maj_pages (major s (heap_page j)) = of_nat n \<and>
     maj_size (major s (heap_page j)) = of_nat (4096 * n) \<and> block_ok s (heap_page j) xs)"

text \<open>The pages \<open>P\<close> of the blocks are mapped to different physical pages, which the heap took; \<open>U\<close> is what was in use besides.\<close>

definition heap_frames :: "nat set \<Rightarrow> nat set \<Rightarrow> 'a kernel_heap_scheme \<Rightarrow> bool" where
  "heap_frames U P s \<longleftrightarrow> frame_of (pmem s (cr3 s) 832) \<noteq> cr3 s \<and>
     (\<exists>F. (\<forall>i \<in> P. translate (heap_page i) s = Inr (F i) \<and> data_frame s (F i) \<and> unat (F i) < page_limit s) \<and> inj_on F P \<and>
        in_use s = U \<union> unat ` F ` P \<and> U \<inter> unat ` F ` P = {})"

definition linked :: "'a lalloc_scheme \<Rightarrow> u32 list \<Rightarrow> bool" where
  "linked s as \<longleftrightarrow> dlinked (\<lambda>b. maj_next (major s b)) (\<lambda>b. maj_prev (major s b)) 0 (l_memRoot s) as \<and>
     (l_bestBet s = 0 \<or> l_bestBet s \<in> set as)"

text \<open>The heap has \<open>k\<close> pages and the blocks \<open>bs\<close>.\<close>

definition heap_state :: "nat \<Rightarrow> nat set \<Rightarrow> block list \<Rightarrow> 'a lalloc_scheme \<Rightarrow> bool" where
  "heap_state k U bs s \<longleftrightarrow> heap_ok k s \<and> heap_frames U (block_pages bs) s \<and> spans 0 k bs \<and>
     (\<forall>b \<in> set bs. content s b) \<and> linked s (map addr_of bs)"

lemma same_vm_facts:
  assumes "same_vm s t"
  shows "heap_ok k t = heap_ok k s" "heap_frames U P t = heap_frames U P s" "in_use t = in_use s"
    "translate a t = translate a s" "free_count t = free_count s"
proof -
  have eq: "in_use t = in_use s" "pages_ok t = pages_ok s" "translate a t = translate a s" "page_limit t = page_limit s" for a
    using assms by (simp_all add: same_vm_def in_use_def pages_ok_def translate_def page_limit_def Let_def)
  show "in_use t = in_use s" "translate a t = translate a s" by (rule eq)+
  show "free_count t = free_count s" by (simp add: free_count_def eq)
  show "heap_frames U P t = heap_frames U P s"
    using assms by (simp add: heap_frames_def data_frame_def eq) (simp add: same_vm_def)
  show "heap_ok k t = heap_ok k s"
    using assms by (simp add: heap_ok_def vm_ok_def recursive_def slot_free_def eq) (simp add: same_vm_def)
qed

lemma heap_state_bounds: "heap_state k U bs s \<Longrightarrow> k \<le> 256"
  by (simp add: heap_state_def heap_ok_def)

lemma block_facts:
  assumes "heap_state k U bs s" "(j, n, xs) \<in> set bs"
  shows "j + n \<le> k" "0 < n" "j + n \<le> 256" "unat (heap_page j) = 3489660928 + 4096 * j"
    "unat (maj_size (major s (heap_page j))) = 4096 * n" "block_ok s (heap_page j) xs" "heap_page j \<noteq> 0"
    "content s (j, n, xs)"
proof -
  have sp: "spans 0 k bs" "k \<le> 256" and c: "content s (j, n, xs)"
    using assms heap_state_bounds [OF assms(1)] by (auto simp: heap_state_def)
  show jn: "j + n \<le> k" "0 < n" using spans_mem [OF sp(1) assms(2)] by simp_all
  then show "j + n \<le> 256" using sp(2) by simp
  show "unat (heap_page j) = 3489660928 + 4096 * j" "heap_page j \<noteq> 0"
    using jn sp(2) by (intro heap_page_unat heap_page_nonzero; simp)+
  show "unat (maj_size (major s (heap_page j))) = 4096 * n"
    using c jn sp(2) unat_of_nat_u32 [of "4096 * n"] by (simp add: content_def)
  show "block_ok s (heap_page j) xs" using c by (simp add: content_def)
qed (use assms in \<open>auto simp: heap_state_def\<close>)

lemma minor_range:
  assumes "heap_state k U bs s" "(j, n, xs) \<in> set bs" "x \<in> set xs"
  shows "3489660928 + 4096 * j + 24 \<le> unat x" "unat x + 24 + unat (min_size (minor s x)) \<le> 3489660928 + 4096 * (j + n)"
proof -
  note f = block_facts [OF assms(1,2)]
  have "minors_ok (minors s) (heap_page j) 0 (maj_first (major s (heap_page j))) (unat (heap_page j) + 24)
      (unat (heap_page j) + unat (maj_size (major s (heap_page j)))) xs"
    using f(6) by (simp add: block_ok_def)
  from minors_ok_mem [OF this assms(3)] show "3489660928 + 4096 * j + 24 \<le> unat x"
    "unat x + 24 + unat (min_size (minor s x)) \<le> 3489660928 + 4096 * (j + n)"
    by (simp_all add: f(4,5))
qed

text \<open>The bytes of a block can be accessed.\<close>

lemma heap_touch:
  assumes heap: "heap_state k U bs s" and b: "(j, m, xs) \<in> set bs" and n: "0 < n"
    and p: "3489660928 + 4096 * j \<le> unat p" "unat p + n \<le> 3489660928 + 4096 * (j + m)"
  shows "touch p n s = Inr ()"
proof -
  obtain F where F: "\<And>i. i \<in> block_pages bs \<Longrightarrow> translate (heap_page i) s = Inr (F i)"
    using heap by (auto simp: heap_state_def heap_frames_def)
  have le: "j + m \<le> 256" by (rule block_facts(3) [OF heap b])
  have mapped: "\<exists>f. translate a s = Inr f"
    if a: "3489660928 + 4096 * j \<le> unat a" "unat a < 3489660928 + 4096 * (j + m)" for a
  proof -
    define i where "i = unat a div 4096 - 851968"
    have "851968 + j \<le> unat a div 4096" using a(1) by linarith
    moreover have "unat a div 4096 < 851968 + (j + m)" using a(2) by (intro less_mult_imp_div_less) simp
    ultimately have i: "j \<le> i" "i < j + m" "unat a div 4096 = 851968 + i" by (simp_all add: i_def)
    then have "i \<in> block_pages bs" using b by (force simp: block_pages_def)
    then show ?thesis using translate_heap_page [OF _ i(3), of s] F i(2) le by simp
  qed
  have "4096 * (j + m) \<le> 4096 * 256" using le by (rule mult_le_mono2)
  then have "unat (p + of_nat n) = unat p + n" using p(2) by (intro u32_add_of_nat) linarith
  then have last: "unat (p + of_nat n - 1) = unat p + n - 1"
    using n u32_sub_no_wrap [of 1 "p + of_nat n"] by simp
  have "851968 + j \<le> unat (p + of_nat n - 1) div 4096"
    using n p(1) unfolding last by (subst less_eq_div_iff_mult_less_eq) simp_all
  then have "3489660928 + 4096 * j \<le> 4096 * (unat (p + of_nat n - 1) div 4096)" by simp
  moreover have "4096 * (unat (p + of_nat n - 1) div 4096) < 3489660928 + 4096 * (j + m)"
    using n p(2) unfolding last by linarith
  moreover have "unat p < 3489660928 + 4096 * (j + m)" using n p(2) by linarith
  ultimately show ?thesis
    using mapped [OF p(1)] mapped [of "PAGE_ALIGN_DOWN (p + of_nat n - 1)"]
    by (auto simp: touch_def unat_PAGE_ALIGN_DOWN)
qed

lemma block_ok_cong:
  assumes "major t b = major s b" "\<And>x. x \<in> set xs \<Longrightarrow> minor t x = minor s x"
  shows "block_ok t b xs = block_ok s b xs"
  using minors_ok_cong [of xs "minors t" "minors s"] used_bytes_cong [of xs "minors t" "minors s"] assms
  by (simp add: block_ok_def)

text \<open>A change inside of one block does not reach the others.\<close>

lemma block_other:
  assumes heap: "heap_state k U (us @ (j, n, xs) # vs) s" and same: "same_blocks (heap_page j) s t"
    and b: "(i, m, ys) \<in> set (us @ vs)"
  shows "major t (heap_page i) = major s (heap_page i)" "x \<in> set ys \<Longrightarrow> minor t x = minor s x"
proof -
  have mem: "(i, m, ys) \<in> set (us @ (j, n, xs) # vs)" "(j, n, xs) \<in> set (us @ (j, n, xs) # vs)" using b by auto
  have sp: "spans 0 k (us @ (j, n, xs) # vs)" using heap by (simp add: heap_state_def)
  have apart: "i + m \<le> j \<or> j + n \<le> i" using spans_apart [OF sp] b by auto
  note f = block_facts [OF heap mem(1)] and g = block_facts [OF heap mem(2)]
  have "i \<noteq> j" using apart f(2) g(2) by auto
  then have "heap_page i \<noteq> heap_page j" using f(2,3) g(2,3) by (simp add: heap_page_inj)
  then show "major t (heap_page i) = major s (heap_page i)" using same by (simp add: same_blocks_def)
  assume x: "x \<in> set ys"
  note r = minor_range [OF heap mem(1) x]
  have "unat x < 3489660928 + 4096 * j + 24 \<or> 3489660928 + 4096 * j + 4096 * n \<le> unat x"
  proof (cases "i + m \<le> j")
    case True
    then have "4096 * (i + m) \<le> 4096 * j" by simp
    then show ?thesis using r(2) by simp
  next
    case False
    then have "4096 * (j + n) \<le> 4096 * i" using apart by simp
    then show ?thesis using r(1) by simp
  qed
  then have "outside s (heap_page j) x" by (simp add: outside_def g(4,5))
  then show "minor t x = minor s x" using same by (simp add: same_blocks_def)
qed

lemma content_other:
  assumes heap: "heap_state k U (us @ (j, n, xs) # vs) s" and same: "same_blocks (heap_page j) s t"
    and b: "b \<in> set (us @ vs)"
  shows "content t b"
proof -
  obtain i m ys where bi: "b = (i, m, ys)" by (cases b)
  have mem: "(i, m, ys) \<in> set (us @ vs)" "(i, m, ys) \<in> set (us @ (j, n, xs) # vs)" using b bi by auto
  note other = block_other [OF heap same mem(1)]
  show ?thesis
    using block_ok_cong [OF other(1), of ys] other(2) block_facts(6,8) [OF heap mem(2)]
    unfolding bi content_def by (simp add: other(1))
qed

lemma same_links:
  assumes "same_blocks maj s t"
  shows "(\<lambda>b. maj_next (major t b)) = (\<lambda>b. maj_next (major s b))" "(\<lambda>b. maj_prev (major t b)) = (\<lambda>b. maj_prev (major s b))"
proof -
  have "maj_next (major t b) = maj_next (major s b)" "maj_prev (major t b) = maj_prev (major s b)" for b
    using assms by (cases "b = maj"; simp add: same_blocks_def)+
  then show "(\<lambda>b. maj_next (major t b)) = (\<lambda>b. maj_next (major s b))"
    "(\<lambda>b. maj_prev (major t b)) = (\<lambda>b. maj_prev (major s b))" by simp_all
qed

text \<open>Inside of one block, the minors become \<open>ys\<close>.\<close>

lemma heap_state_block:
  assumes heap: "heap_state k U (us @ (j, n, xs) # vs) s" and same: "same_rest (heap_page j) s t"
    and ok: "block_ok t (heap_page j) ys"
  shows "heap_state k U (us @ (j, n, ys) # vs) t"
proof -
  have blocks: "same_blocks (heap_page j) s t" and vm: "same_vm s t"
    and root: "l_memRoot t = l_memRoot s" "l_bestBet t = l_bestBet s"
    using same by (simp_all add: same_rest_def)
  have "content s (j, n, xs)" using heap by (simp add: heap_state_def)
  then have "content t (j, n, ys)" using blocks ok by (simp add: content_def same_blocks_def)
  then have "\<forall>b \<in> set (us @ (j, n, ys) # vs). content t b"
    using content_other [OF heap blocks] by auto
  moreover have "spans 0 k (us @ (j, n, ys) # vs)"
    using heap spans_set_minors [of 0 k us j n xs vs ys] by (simp add: heap_state_def)
  moreover have "linked t (map addr_of (us @ (j, n, ys) # vs))"
    using heap root same_links [OF blocks] by (simp add: heap_state_def linked_def)
  ultimately show ?thesis
    using heap same_vm_facts(1,2) [OF vm] by (simp add: heap_state_def)
qed

lemma heap_state_bet:
  "heap_state k U bs s \<Longrightarrow> b \<in> set (map addr_of bs) \<or> b = 0 \<Longrightarrow> heap_state k U bs (s\<lparr>l_bestBet := b\<rparr>)"
  using same_vm_facts(1,2) [of s "s\<lparr>l_bestBet := b\<rparr>"]
  by (auto simp: heap_state_def linked_def content_def block_ok_def)

text \<open>The lock and the counters do not matter.\<close>

lemma heap_state_flags:
  "same_vm s t \<Longrightarrow> majors t = majors s \<Longrightarrow> minors t = minors s \<Longrightarrow> l_memRoot t = l_memRoot s \<Longrightarrow>
    l_bestBet t = l_bestBet s \<Longrightarrow> heap_state k U bs t = heap_state k U bs s"
  using same_vm_facts(1,2) [of s t] by (simp add: heap_state_def linked_def content_def block_ok_def)

section \<open>A new block\<close>

definition new_pages :: "u32 \<Rightarrow> nat" where
  "new_pages sz = unat (new_page_count sz)"

lemma div_up: "(n + 4095) div 4096 = (if n mod 4096 = 0 then n div 4096 else n div 4096 + 1 :: nat)"
proof -
  let ?q = "n div 4096" and ?r = "n mod 4096"
  have "n + 4095 = (?r + 4095) + 4096 * ?q" by simp
  then have "(n + 4095) div 4096 = ?q + (?r + 4095) div 4096" by (simp only: div_mult_self2)
  moreover have "(?r + 4095) div 4096 = 1" if "?r \<noteq> 0"
    by (rule div_nat_eqI) (use that in simp_all)
  ultimately show ?thesis by simp
qed

lemma new_pages_eq:
  assumes "unat sz + 48 < 4294963200"
  shows "new_pages sz = max 16 ((unat sz + 48 + 4095) div 4096)"
proof -
  let ?st = "sz + sizeof_major + sizeof_minor"
  have st: "unat ?st = unat sz + 48" using assms by (simp add: u32_add_no_wrap liballoc_consts)
  let ?c = "if ?st mod l_pageSize = 0 then ?st div l_pageSize else ?st div l_pageSize + 1"
  have d: "unat (?st div l_pageSize) = (unat sz + 48) div 4096" "unat (?st mod l_pageSize) = (unat sz + 48) mod 4096"
    using st by (simp_all add: unat_div unat_mod l_pageSize_def)
  have "(unat sz + 48) div 4096 + 1 < 4294967296" using assms by linarith
  then have "unat (?st div l_pageSize + 1) = (unat sz + 48) div 4096 + 1"
    using d(1) by (simp add: u32_add_no_wrap)
  moreover have "?st mod l_pageSize = 0 \<longleftrightarrow> (unat sz + 48) mod 4096 = 0"
    using d(2) by (metis unat_eq_zero)
  ultimately have c: "unat ?c = (unat sz + 48 + 4095) div 4096"
    unfolding div_up using d(1) by (simp split: if_split)
  have "unat (new_page_count sz) = max 16 (unat ?c)"
    by (simp add: new_page_count_def Let_def l_pageCount_def word_less_nat_alt max_def)
  then show ?thesis by (simp only: new_pages_def c)
qed

lemma new_pages_enough:
  assumes "unat sz + 48 < 4294963200"
  shows "16 \<le> new_pages sz" "unat sz + 48 \<le> 4096 * new_pages sz"
proof -
  note eq = new_pages_eq [OF assms]
  then show "16 \<le> new_pages sz" by simp
  have "unat sz + 48 \<le> 4096 * ((unat sz + 48 + 4095) div 4096)" by linarith
  also have "\<dots> \<le> 4096 * new_pages sz" unfolding eq by (intro mult_le_mono2) simp
  finally show "unat sz + 48 \<le> 4096 * new_pages sz" .
qed

lemma in_use_data_frame:
  assumes "vm_ok s" "same_dir s t" "unat f \<notin> in_use s" "unat f \<in> in_use t"
  shows "data_frame t f"
  using assms by (auto simp: data_frame_def vm_ok_def same_dir_def)

lemma heap_frames_grow:
  assumes ok: "heap_ok k s" and P: "P \<subseteq> {..<k}" and fr: "heap_frames U P s" and gr: "grown k n s t" and k: "k + n \<le> 256"
  shows "heap_frames U (P \<union> {k..<k + n}) t"
proof -
  obtain F where F: "\<And>i. i \<in> P \<Longrightarrow> translate (heap_page i) s = Inr (F i) \<and> data_frame s (F i) \<and> unat (F i) < page_limit s"
    "inj_on F P" "in_use s = U \<union> unat ` F ` P" "U \<inter> unat ` F ` P = {}"
    and tbl: "frame_of (pmem s (cr3 s) 832) \<noteq> cr3 s" using fr by (auto simp: heap_frames_def)
  obtain G where G: "\<And>j. j < n \<Longrightarrow> translate (heap_page (k + j)) t = Inr (G j) \<and> unat (G j) \<notin> in_use s \<and> unat (G j) < page_limit s"
    "inj_on G {..<n}" "in_use t = in_use s \<union> unat ` G ` {..<n}"
    and t: "same_dir s t" "page_limit t = page_limit s" "heap_ok (k + n) t"
      "\<And>a. \<forall>j<n. other_entry s a (heap_page (k + j)) \<Longrightarrow> translate a t = translate a s"
    using gr by (auto simp: grown_def same_outer_def)
  have vm: "vm_ok s" using ok by (simp add: heap_ok_def)
  define H where "H i = (if i < k then F i else G (i - k))" for i
  have old: "translate (heap_page i) t = Inr (H i) \<and> data_frame t (H i) \<and> unat (H i) < page_limit t" if "i \<in> P" for i
  proof -
    have "i < k" using P that by blast
    then have "translate (heap_page i) t = translate (heap_page i) s"
      using k by (intro t(4)) (auto intro!: heap_page_other)
    moreover have "data_frame t (F i)"
      using F(1) [OF that] G(3) by (intro data_frame_same_dir [OF t(1)]) (auto simp: data_frame_def)
    ultimately show ?thesis using F(1) [OF that] \<open>i < k\<close> t(2) by (simp add: H_def)
  qed
  have new: "translate (heap_page i) t = Inr (H i) \<and> data_frame t (H i) \<and> unat (H i) < page_limit t \<and> unat (H i) \<notin> in_use s"
    if "i \<in> {k..<k + n}" for i
  proof -
    have i: "i = k + (i - k)" "i - k < n" using that by auto
    have "data_frame t (G (i - k))"
      using G(1) [OF i(2)] G(3) i(2) by (intro in_use_data_frame [OF vm t(1)]) auto
    then show ?thesis using G(1) [OF i(2)] i t(2) by (simp add: H_def)
  qed
  have oldin: "unat (H i) \<in> in_use s" if "i \<in> P" for i using F(3) that P by (auto simp: H_def)
  have "inj_on H {k..<k + n}"
  proof (rule inj_onI)
    fix i j assume ij: "i \<in> {k..<k + n}" "j \<in> {k..<k + n}" "H i = H j"
    then have "G (i - k) = G (j - k)" "i - k \<in> {..<n}" "j - k \<in> {..<n}" by (auto simp: H_def)
    then have "i - k = j - k" using G(2) by (simp add: inj_on_def)
    then show "i = j" using ij by auto
  qed
  moreover have "inj_on H P" using F(2) P by (auto simp: inj_on_def H_def)
  moreover have "H i \<noteq> H j" if "i \<in> P" "j \<in> {k..<k + n}" for i j using oldin [OF that(1)] new [OF that(2)] by auto
  ultimately have inj: "inj_on H (P \<union> {k..<k + n})" by (fastforce simp: inj_on_Un)
  have imgs: "H ` P = F ` P" "H ` {k..<k + n} = G ` {..<n}"
  proof -
    show "H ` P = F ` P" using P by (auto simp: H_def image_iff subset_iff)
    have "{k..<k + n} = (\<lambda>j. k + j) ` {..<n}" by (simp add: lessThan_atLeast0 add.commute)
    then have "H ` {k..<k + n} = (\<lambda>j. H (k + j)) ` {..<n}" by (simp only: image_image)
    then show "H ` {k..<k + n} = G ` {..<n}" by (simp add: H_def)
  qed
  have "in_use t = U \<union> unat ` H ` (P \<union> {k..<k + n})" by (simp add: image_Un imgs G(3) F(3) Un_assoc)
  moreover have "U \<inter> unat ` H ` (P \<union> {k..<k + n}) = {}"
    using F(3,4) new by (auto simp: image_Un imgs(1))
  moreover have "frame_of (pmem t (cr3 t) 832) \<noteq> cr3 t" using tbl t(1) by (simp add: same_dir_def)
  ultimately show ?thesis
    unfolding heap_frames_def using old new inj by (intro conjI exI [of _ H]) auto
qed

lemma free_count_split:
  assumes "in_use t = in_use s \<union> I" "I \<inter> in_use s = {}" "I \<subseteq> {..<page_limit s}" "page_limit t = page_limit s"
  shows "free_count s = free_count t + card I"
proof -
  have "{..<page_limit s} - in_use s = ({..<page_limit t} - in_use t) \<union> I" using assms by auto
  moreover have "({..<page_limit t} - in_use t) \<inter> I = {}" using assms(1) by auto
  moreover have "finite I" using assms(3) finite_subset by blast
  ultimately show ?thesis by (simp add: free_count_def card_Un_disjoint)
qed

lemma grown_free_count:
  assumes "grown k n s t"
  shows "free_count s = free_count t + n"
proof -
  obtain G where G: "\<And>j. j < n \<Longrightarrow> unat (G j :: 20 word) \<notin> in_use s \<and> unat (G j) < page_limit s"
    "inj_on G {..<n}" "in_use t = in_use s \<union> unat ` G ` {..<n}" "page_limit t = page_limit s"
    using assms by (auto simp: grown_def same_outer_def)
  have "inj_on (\<lambda>j. unat (G j)) {..<n}" using G(2) by (simp add: inj_on_def flip: word_unat_eq_iff)
  then have "card (unat ` G ` {..<n}) = n" by (simp add: image_image card_image)
  then show ?thesis using free_count_split [of t s "unat ` G ` {..<n}"] G by (auto simp: image_subset_iff)
qed

definition fresh_major :: "u32 \<Rightarrow> liballoc_major" where
  "fresh_major n = \<lparr>maj_prev = 0, maj_next = 0, maj_pages = n, maj_size = n * l_pageSize, maj_usage = sizeof_major,
     maj_first = 0\<rparr>"

lemma outer_lalloc:
  assumes "same_outer s t"
  shows "majors t = majors s" "minors t = minors s" "align_bytes t = align_bytes s" "payload t = payload s"
    "l_memRoot t = l_memRoot s" "l_bestBet t = l_bestBet s" "lalloc.more t = lalloc.more s"
  using assms
  by (cases s rule: lalloc.cases_scheme, cases t rule: lalloc.cases_scheme; simp add: same_outer_def)+

text \<open>Everything besides the new header that later steps rely on.\<close>

definition same_client :: "'a lalloc_scheme \<Rightarrow> 'a lalloc_scheme \<Rightarrow> bool" where
  "same_client s t \<longleftrightarrow> minors t = minors s \<and> align_bytes t = align_bytes s \<and> payload t = payload s \<and>
     lalloc.more t = lalloc.more s \<and> if_flag t = if_flag s \<and> enable_int t = enable_int s"

lemma new_page_spec:
  assumes heap: "heap_state k U bs s" and size: "unat sz + 48 < 4294963200"
    and room: "k + new_pages sz \<le> 256" and free: "new_pages sz \<le> free_count s"
  obtains t where "allocate_new_page sz s = Inr (heap_page k, t)" "heap_ok (k + new_pages sz) t"
    "heap_frames U (block_pages bs \<union> {k..<k + new_pages sz}) t"
    "majors t = (majors s)(heap_page k := fresh_major (new_page_count sz))" "same_client s t"
    "l_memRoot t = l_memRoot s" "l_bestBet t = l_bestBet s" "free_count s = free_count t + new_pages sz"
proof -
  have ok: "heap_ok k s" "heap_frames U (block_pages bs) s" "spans 0 k bs" using heap by (simp_all add: heap_state_def)
  have n: "new_page_count sz \<noteq> 0" using new_pages_enough(1) [OF size] by (auto simp: new_pages_def)
  from alloc_pages_spec [OF ok(1) room free] obtain t where
    t: "alloc_pages (new_pages sz) s = Inr t" "grown k (new_pages sz) s t" by blast
  have outer: "same_outer s t" "heap_ok (k + new_pages sz) t" using t(2) by (simp_all add: grown_def)
  note same = outer_lalloc [OF outer(1)]
  have "liballoc_alloc (new_page_count sz) s = Inr (heap_page k, t)"
    using t(1) n heap_top [OF ok(1)] by (simp add: liballoc_alloc_def new_pages_def)
  moreover have "heap_page k \<noteq> 0"
    using room new_pages_enough(1) [OF size] by (intro heap_page_nonzero) simp
  ultimately have run: "allocate_new_page sz s = Inr (heap_page k,
      (upd_major (heap_page k) (\<lambda>_. fresh_major (new_page_count sz)) t)\<lparr>l_allocated :=
        l_allocated (upd_major (heap_page k) (\<lambda>_. fresh_major (new_page_count sz)) t) +
        ucast (new_page_count sz * l_pageSize)\<rparr>)" (is "_ = Inr (_, ?u)")
    by (simp add: allocate_new_page_def Let_def fresh_major_def)
  have vm: "same_vm t ?u" by (simp add: upd_major_def)
  note facts = same_vm_facts [OF vm]
  have "block_pages bs \<subseteq> {..<k}" using block_pages_below [OF ok(3)] by auto
  note frames = heap_frames_grow [OF ok(1) this ok(2) t(2) room]
  show thesis
  proof (rule that [OF run])
    show "heap_ok (k + new_pages sz) ?u" using outer(2) by (simp only: facts)
    show "heap_frames U (block_pages bs \<union> {k..<k + new_pages sz}) ?u" using frames by (simp only: facts)
    show "free_count s = free_count ?u + new_pages sz" using grown_free_count [OF t(2)] by (simp only: facts)
    show "same_client s ?u"
      using same outer(1) by (simp add: same_client_def upd_major_def same_outer_def)
  qed (simp_all add: upd_major_def same)
qed

lemma content_cong:
  assumes "minors t = minors s"
    and "maj_pages (major t (addr_of b)) = maj_pages (major s (addr_of b))" "maj_size (major t (addr_of b)) = maj_size (major s (addr_of b))"
    and "maj_usage (major t (addr_of b)) = maj_usage (major s (addr_of b))" "maj_first (major t (addr_of b)) = maj_first (major s (addr_of b))"
  shows "content t b = content s b"
  using assms by (cases b) (simp add: content_def block_ok_def)

lemma content_fresh:
  assumes "k + new_pages sz \<le> 256" "0 < new_pages sz"
    and "maj_pages (major t (heap_page k)) = new_page_count sz" "maj_size (major t (heap_page k)) = new_page_count sz * l_pageSize"
    and "maj_usage (major t (heap_page k)) = sizeof_major" "maj_first (major t (heap_page k)) = 0"
  shows "content t (k, new_pages sz, [])"
proof -
  have n: "new_page_count sz = of_nat (new_pages sz)" by (simp add: new_pages_def)
  have size: "maj_size (major t (heap_page k)) = of_nat (4096 * new_pages sz)"
    unfolding assms(4) n by (simp add: l_pageSize_def mult.commute)
  have "unat (maj_size (major t (heap_page k))) = 4096 * new_pages sz"
    unfolding size using assms(1) by (intro unat_of_nat_u32) simp
  moreover have "unat (heap_page k) = 3489660928 + 4096 * k" using assms(1,2) by (intro heap_page_unat) simp
  ultimately have "block_ok t (heap_page k) []"
    using assms by (simp add: block_ok_def liballoc_consts used_bytes_def)
  then show ?thesis using size assms(3) n by (simp add: content_def)
qed

lemma heap_state_fresh_address:
  "heap_state k U bs s \<Longrightarrow> k < 256 \<Longrightarrow> b \<in> set bs \<Longrightarrow> addr_of b \<noteq> heap_page k"
  using spans_distinct [of 0 k bs] heap_page_inj [of "fst b" k] by (fastforce simp: heap_state_def)

lemma append_major_spec:
  assumes heap: "heap_state k U (us @ [(j, n, xs)]) s" and size: "unat sz + 48 < 4294963200"
    and room: "k + new_pages sz \<le> 256" and free: "new_pages sz \<le> free_count s"
  obtains t where "append_major (heap_page j) sz s = Inr (heap_page k, t)"
    "heap_state (k + new_pages sz) U (us @ [(j, n, xs)] @ [(k, new_pages sz, [])]) t" "same_client s t"
    "maj_next (major t (heap_page j)) = heap_page k" "free_count s = free_count t + new_pages sz"
proof -
  let ?bs = "us @ [(j, n, xs)]" and ?N = "new_pages sz" and ?l = "heap_page j" and ?n = "heap_page k"
  obtain t where t: "allocate_new_page sz s = Inr (?n, t)" "heap_ok (k + ?N) t"
    "heap_frames U (block_pages ?bs \<union> {k..<k + ?N}) t" "majors t = (majors s)(?n := fresh_major (new_page_count sz))"
    "same_client s t" "l_memRoot t = l_memRoot s" "l_bestBet t = l_bestBet s" "free_count s = free_count t + ?N"
    by (rule new_page_spec [OF heap size room free])
  have N: "0 < ?N" using new_pages_enough(1) [OF size] by simp
  have k: "k < 256" "?n \<noteq> 0" using N room heap_page_nonzero by simp_all
  note fresh = heap_state_fresh_address [OF heap k(1)]
  have ln: "?l \<noteq> ?n" using fresh [of "(j, n, xs)"] by simp
  define u where "u = upd_major ?n (\<lambda>b. b\<lparr>maj_prev := ?l\<rparr>) (upd_major ?l (\<lambda>b. b\<lparr>maj_next := ?n\<rparr>) t)"
  have mu: "majors u = (majors s)(?l := (major s ?l)\<lparr>maj_next := ?n\<rparr>, ?n := (fresh_major (new_page_count sz))\<lparr>maj_prev := ?l\<rparr>)"
    using ln by (simp add: u_def upd_major_def t(4) fun_eq_iff)
  have vm: "same_vm t u" by (simp add: u_def upd_major_def)
  note facts = same_vm_facts [OF vm]
  have run: "append_major ?l sz s = Inr (?n, u)"
    using t(1) k(2) by (simp add: append_major_def u_def)
  have client: "same_client s u" using t(5) by (simp add: u_def upd_major_def same_client_def)
  have "content u b" if "b \<in> set ?bs" for b
  proof -
    have "content s b" using heap that unfolding heap_state_def by blast
    moreover have "content u b = content s b"
      using client fresh [OF that] by (intro content_cong) (simp_all add: same_client_def mu)
    ultimately show ?thesis by simp
  qed
  moreover have "content u (k, ?N, [])"
    by (rule content_fresh [OF room N]) (simp_all add: mu fresh_major_def)
  moreover have "linked u (map addr_of (?bs @ [(k, ?N, [])]))"
  proof -
    let ?as = "map addr_of us" and ?nx = "\<lambda>b. maj_next (major s b)" and ?pv = "\<lambda>b. maj_prev (major s b)"
    have "dlinked ?nx ?pv 0 (l_memRoot s) (?as @ [?l])" using heap by (simp add: heap_state_def linked_def)
    moreover have new: "?n \<notin> set (?as @ [?l])"
    proof
      assume "?n \<in> set (?as @ [?l])"
      then have "?n \<in> addr_of ` set ?bs" by auto
      then obtain b where b: "b \<in> set ?bs" "?n = addr_of b" by (rule imageE)
      then show False using fresh [OF b(1)] by (simp only: simp_thms)
    qed
    ultimately have "dlinked (?nx(?n := 0)) ?pv 0 (l_memRoot s) (?as @ [?l])"
      by (subst dlinked_cong) auto
    moreover have "distinct (?as @ [?l])"
      using addresses_distinct [of 0 k ?bs] heap k(1) by (simp add: heap_state_def heap_ok_def)
    ultimately have "dlinked (?nx(?n := 0, ?l := ?n)) (?pv(?n := ?l)) 0 (l_memRoot s) (?as @ [?l, ?n])"
      using dlinked_snoc [of "?nx(?n := 0)" ?pv 0 "l_memRoot s" ?as ?l ?n] new k(2) by simp
    moreover have "(\<lambda>b. maj_next (major u b)) = ?nx(?n := 0, ?l := ?n)" "(\<lambda>b. maj_prev (major u b)) = ?pv(?n := ?l)"
      using ln by (auto simp: mu fresh_major_def fun_eq_iff)
    moreover have "l_memRoot u = l_memRoot s" "l_bestBet u = l_bestBet s"
      by (simp_all add: u_def upd_major_def t(6,7))
    ultimately show ?thesis using heap by (auto simp: linked_def heap_state_def)
  qed
  moreover have "spans 0 (k + ?N) (?bs @ [(k, ?N, [])])"
    using heap N by (intro spans_snoc) (simp_all add: heap_state_def)
  moreover have "heap_frames U (block_pages (?bs @ [(k, ?N, [])])) u"
    using t(3) by (simp only: facts block_pages_append block_pages_Cons block_pages_Nil Un_empty_right)
  moreover have "heap_ok (k + ?N) u" using t(2) by (simp only: facts)
  ultimately have "heap_state (k + ?N) U (?bs @ [(k, ?N, [])]) u" by (auto simp: heap_state_def)
  then show thesis
    using that [OF run] client t(8) ln by (simp add: mu facts(5))
qed

text \<open>The first block.\<close>

lemma first_major_spec:
  assumes heap: "heap_state k U [] s" and size: "unat sz + 48 < 4294963200"
    and room: "k + new_pages sz \<le> 256" and free: "new_pages sz \<le> free_count s"
  obtains t where "allocate_new_page sz s = Inr (heap_page k, t)"
    "heap_state (k + new_pages sz) U [(k, new_pages sz, [])] (t\<lparr>l_memRoot := heap_page k\<rparr>)"
    "same_client s t" "free_count s = free_count t + new_pages sz" "heap_page k \<noteq> 0" "l_bestBet t = 0"
proof -
  let ?N = "new_pages sz" and ?n = "heap_page k"
  obtain t where t: "allocate_new_page sz s = Inr (?n, t)" "heap_ok (k + ?N) t"
    "heap_frames U (block_pages [] \<union> {k..<k + ?N}) t" "majors t = (majors s)(?n := fresh_major (new_page_count sz))"
    "same_client s t" "l_memRoot t = l_memRoot s" "l_bestBet t = l_bestBet s" "free_count s = free_count t + ?N"
    by (rule new_page_spec [OF heap size room free])
  have N: "0 < ?N" using new_pages_enough(1) [OF size] by simp
  have k: "?n \<noteq> 0" using N room by (intro heap_page_nonzero) simp
  have bet: "l_bestBet t = 0" using heap t(7) by (simp add: heap_state_def linked_def)
  let ?u = "t\<lparr>l_memRoot := ?n\<rparr>"
  have "content ?u (k, ?N, [])" by (rule content_fresh [OF room N]) (simp_all add: t(4) fresh_major_def)
  moreover have "linked ?u [?n]" using bet k by (simp add: linked_def t(4) fresh_major_def)
  moreover have "same_vm t ?u" by simp
  note facts = same_vm_facts [OF this]
  have "heap_ok (k + ?N) ?u" "heap_frames U {k..<k + ?N} ?u" using t(2,3) by (simp_all add: facts)
  ultimately have "heap_state (k + ?N) U [(k, ?N, [])] ?u" using N by (simp add: heap_state_def)
  then show thesis using that [OF t(1)] t(5,8) k bet by blast
qed

section \<open>Serving a request\<close>

lemma linked_next:
  assumes "linked s (map addr_of (us @ b # vs))"
  shows "maj_next (major s (addr_of b)) = (case vs of [] \<Rightarrow> 0 | c # _ \<Rightarrow> addr_of c)"
proof -
  have "dlinked (\<lambda>b. maj_next (major s b)) (\<lambda>b. maj_prev (major s b)) 0 (l_memRoot s)
      (map addr_of us @ addr_of b # map addr_of vs)"
    using assms by (simp add: linked_def)
  from dlinked_links [OF this] show ?thesis by (cases vs) simp_all
qed

lemma linked_root: "linked s (map addr_of (b # bs)) \<Longrightarrow> l_memRoot s = addr_of b"
  by (simp add: linked_def)

text \<open>What the loop does with one block: the block serves the request exactly if it has a gap.\<close>

definition request :: "u32 \<Rightarrow> bool" where
  "request sz \<longleftrightarrow> unat sz + 48 < 4294963200"

text \<open>The request is served by a block of the heap, which may be a new one.\<close>

definition provided :: "nat \<Rightarrow> nat set \<Rightarrow> block list \<Rightarrow> 'a lalloc_scheme \<Rightarrow> u32 \<Rightarrow> u32 \<Rightarrow> u32 \<Rightarrow> 'a lalloc_scheme \<Rightarrow> bool" where
  "provided k U bs s sz req p t \<longleftrightarrow>
     (\<exists>k' s' us j n xs vs. heap_state k' U (us @ (j, n, xs) # vs) s' \<and> same_client s s' \<and>
        served s' t (heap_page j) xs sz req p \<and>
        (k' = k \<and> us @ (j, n, xs) # vs = bs \<and> free_count s' = free_count s \<or>
         k' = k + new_pages sz \<and> us = bs \<and> xs = [] \<and> vs = [] \<and> free_count s = free_count s' + new_pages sz))"

lemma use_block_heap:
  assumes heap: "heap_state k U bs s" and mem: "(j, n, xs) \<in> set bs" and req: "request sz" and "\<not> if_flag s"
    and enough: "\<not> maj_size (major s (heap_page j)) - maj_usage (major s (heap_page j)) < sz + sizeof_minor"
    and fuel: "length xs < fuel"
  shows "(\<exists>p t. use_block fuel (heap_page j) sz req s = Inr (Some (p, t)) \<and> served s t (heap_page j) xs sz req p) \<or>
    xs \<noteq> [] \<and> use_block fuel (heap_page j) sz req s = Inr None"
proof -
  note f = block_facts [OF heap mem]
  have need: "unat sz + 24 < 4294967296" using req by (simp_all add: request_def)
  have "has_gap s (heap_page j) (unat sz + 24) xs" if "xs = []"
    using room_word [OF f(6) enough need] f(6) that
    by (simp add: has_gap_def gap_limit_def block_ok_def used_bytes_def)
  then show ?thesis
    using use_block_spec [OF f(6) assms(4) enough need fuel, where req = req] by (auto split: if_splits)
qed

lemma same_client_bet [simp]:
  "same_client (s\<lparr>l_bestBet := b\<rparr>) t = same_client s t" "same_client s (t\<lparr>l_bestBet := b\<rparr>) = same_client s t"
  "same_client s s" "free_count (s\<lparr>l_bestBet := b\<rparr>) = free_count s"
  using same_vm_facts(5) [of s "s\<lparr>l_bestBet := b\<rparr>"] by (simp_all add: same_client_def)

lemma same_client_trans: "same_client s t \<Longrightarrow> same_client t u \<Longrightarrow> same_client s u"
  by (simp add: same_client_def)

lemma provided_bet: "provided k U bs (s\<lparr>l_bestBet := b\<rparr>) sz req p t \<Longrightarrow> provided k U bs s sz req p t"
  by (simp add: provided_def)

lemma provided_here:
  "heap_state k U (us @ (j, n, xs) # vs) s \<Longrightarrow> served s t (heap_page j) xs sz req p \<Longrightarrow>
    provided k U (us @ (j, n, xs) # vs) s sz req p t"
  unfolding provided_def by (intro exI [of _ k] exI [of _ s] exI [of _ us] exI [of _ j] exI [of _ n] exI [of _ xs] exI [of _ vs])
    simp

text \<open>The loop at a block that serves the request.\<close>

lemma loop_hit:
  assumes heap: "heap_state k U bs s" and mem: "(j, n, xs) \<in> set bs"
    and enough: "\<not> maj_size (major s (heap_page j)) - maj_usage (major s (heap_page j)) < sz + sizeof_minor"
    and serve: "\<And>b. b = l_bestBet s \<or> b = heap_page j \<Longrightarrow> \<exists>p t. use_block fuel (heap_page j) sz req (s\<lparr>l_bestBet := b\<rparr>) = Inr (Some (p, t)) \<and>
      served (s\<lparr>l_bestBet := b\<rparr>) t (heap_page j) xs sz req p"
  shows "\<exists>b p t. (b = l_bestBet s \<or> b = heap_page j) \<and>
    major_loop fuel (Suc m) (heap_page j) best started sz req s = Inr (p, t) \<and>
    served (s\<lparr>l_bestBet := b\<rparr>) t (heap_page j) xs sz req p"
proof -
  let ?d = "maj_size (major s (heap_page j)) - maj_usage (major s (heap_page j))"
  define b where "b = (if best < ucast ?d then heap_page j else l_bestBet s)"
  have s1: "(if best < ucast ?d then (s\<lparr>l_bestBet := heap_page j\<rparr>, ucast ?d) else (s, best)) =
    (s\<lparr>l_bestBet := b\<rparr>, if best < ucast ?d then ucast ?d else best)" by (simp add: b_def)
  have b: "b = l_bestBet s \<or> b = heap_page j" by (simp add: b_def)
  from serve [OF b] obtain p t where
    p: "use_block fuel (heap_page j) sz req (s\<lparr>l_bestBet := b\<rparr>) = Inr (Some (p, t))"
      "served (s\<lparr>l_bestBet := b\<rparr>) t (heap_page j) xs sz req p" by blast
  have "major_loop fuel (Suc m) (heap_page j) best started sz req s = Inr (p, t)"
    unfolding major_loop.simps(2) Let_def s1
    using p(1) enough block_facts(7) [OF heap mem] by (simp only: if_False prod.case kbind_Inr option.case)
  then show ?thesis using b p(2) by blast
qed

lemma fresh_block_serves:
  assumes heap: "heap_state k U (us @ [(j, new_pages sz, [])]) s" and req: "request sz" and "\<not> if_flag s" "0 < fuel"
  shows "\<not> maj_size (major s (heap_page j)) - maj_usage (major s (heap_page j)) < sz + sizeof_minor"
    and "b = l_bestBet s \<or> b = heap_page j \<Longrightarrow> \<exists>p t. use_block fuel (heap_page j) sz req (s\<lparr>l_bestBet := b\<rparr>) = Inr (Some (p, t)) \<and>
      served (s\<lparr>l_bestBet := b\<rparr>) t (heap_page j) [] sz req p"
proof -
  have mem: "(j, new_pages sz, []) \<in> set (us @ [(j, new_pages sz, [])])" by simp
  note f = block_facts [OF heap mem]
  have size: "unat sz + 48 < 4294963200" using req by (simp add: request_def)
  have "unat (maj_usage (major s (heap_page j))) = 24"
    using f(6) by (simp add: block_ok_def used_bytes_def)
  moreover have "unat (sz + sizeof_minor) = unat sz + 24"
    using size by (simp add: u32_add_no_wrap liballoc_consts)
  ultimately show enough: "\<not> maj_size (major s (heap_page j)) - maj_usage (major s (heap_page j)) < sz + sizeof_minor"
    using f(5) new_pages_enough [OF size] by (simp add: word_less_nat_alt u32_sub_no_wrap)
  assume b: "b = l_bestBet s \<or> b = heap_page j"
  let ?u = "s\<lparr>l_bestBet := b\<rparr>"
  have "heap_state k U (us @ [(j, new_pages sz, [])]) ?u"
  proof (rule heap_state_bet [OF heap])
    have "l_bestBet s \<in> set (map addr_of (us @ [(j, new_pages sz, [])])) \<or> l_bestBet s = 0"
      using heap unfolding heap_state_def linked_def by blast
    then show "b \<in> set (map addr_of (us @ [(j, new_pages sz, [])])) \<or> b = 0" using b by auto
  qed
  from use_block_heap [OF this mem req, of fuel] enough assms(3,4)
  show "\<exists>p t. use_block fuel (heap_page j) sz req ?u = Inr (Some (p, t)) \<and> served ?u t (heap_page j) [] sz req p"
    by simp
qed

lemma heap_state_bets:
  assumes heap: "heap_state k U bs s" and b: "b = l_bestBet s \<or> b \<in> set (map addr_of bs)"
  shows "heap_state k U bs (s\<lparr>l_bestBet := b\<rparr>)"
proof (rule heap_state_bet [OF heap])
  have "l_bestBet s \<in> set (map addr_of bs) \<or> l_bestBet s = 0"
    using heap unfolding heap_state_def linked_def by blast
  then show "b \<in> set (map addr_of bs) \<or> b = 0" using b by blast
qed

lemma provided_new:
  assumes "heap_state (k + new_pages sz) U (bs @ [(k, new_pages sz, [])]) t'" "same_client s t'"
    and "free_count s = free_count t' + new_pages sz" and b: "b = l_bestBet t' \<or> b = heap_page k"
    and "served (t'\<lparr>l_bestBet := b\<rparr>) t (heap_page k) [] sz req p"
  shows "provided k U bs s sz req p t"
proof -
  have "heap_state (k + new_pages sz) U (bs @ (k, new_pages sz, []) # []) (t'\<lparr>l_bestBet := b\<rparr>)"
    by (rule heap_state_bets [OF assms(1)]) (use b in auto)
  then show ?thesis unfolding provided_def using assms(2,3,5)
    by (intro exI [of _ "k + new_pages sz"] exI [of _ "t'\<lparr>l_bestBet := b\<rparr>"] exI [of _ bs] exI [of _ k]
        exI [of _ "new_pages sz"] exI [of _ "[]"]) simp
qed

lemma new_block_serves:
  assumes heap: "heap_state k U (us @ [(j, n, xs)]) s" and req: "request sz" and "\<not> if_flag s" "0 < fuel"
    and room: "k + new_pages sz \<le> 256" and free: "new_pages sz \<le> free_count s"
  obtains t' where "append_major (heap_page j) sz s = Inr (heap_page k, t')" "maj_next (major t' (heap_page j)) = heap_page k"
    "heap_page k \<noteq> 0"
    "\<exists>p t. use_block fuel (heap_page k) sz req t' = Inr (Some (p, t)) \<and> provided k U (us @ [(j, n, xs)]) s sz req p t"
    "\<And>m best. \<exists>p t. major_loop fuel (Suc m) (heap_page k) best False sz req t' = Inr (p, t) \<and>
      provided k U (us @ [(j, n, xs)]) s sz req p t"
proof -
  let ?bs = "us @ [(j, n, xs)]" and ?N = "new_pages sz"
  have size: "unat sz + 48 < 4294963200" using req by (simp add: request_def)
  obtain t' where t': "append_major (heap_page j) sz s = Inr (heap_page k, t')"
    "heap_state (k + ?N) U (us @ [(j, n, xs)] @ [(k, ?N, [])]) t'" "same_client s t'"
    "maj_next (major t' (heap_page j)) = heap_page k" "free_count s = free_count t' + ?N"
    by (rule append_major_spec [OF heap size room free])
  have heap': "heap_state (k + ?N) U (?bs @ [(k, ?N, [])]) t'" using t'(2) by simp
  have fl: "\<not> if_flag t'" using t'(3) assms(3) by (simp add: same_client_def)
  have mem: "(k, ?N, []) \<in> set (?bs @ [(k, ?N, [])])" by simp
  note fresh = fresh_block_serves [OF heap' req fl assms(4)]
  note new = provided_new [OF heap' t'(3,5)]
  show thesis
  proof (rule that [OF t'(1,4)])
    show "heap_page k \<noteq> 0" by (rule block_facts(7) [OF heap' mem])
    have "t'\<lparr>l_bestBet := l_bestBet t'\<rparr> = t'" by simp
    then show "\<exists>p t. use_block fuel (heap_page k) sz req t' = Inr (Some (p, t)) \<and> provided k U ?bs s sz req p t"
      using fresh(2) [of "l_bestBet t'"] new [of "l_bestBet t'"] by metis
    show "\<exists>p t. major_loop fuel (Suc m) (heap_page k) best False sz req t' = Inr (p, t) \<and> provided k U ?bs s sz req p t"
      for m best
      using loop_hit [OF heap' mem fresh, of m best False] new by blast
  qed
qed

lemma loop_step:
  assumes heap: "heap_state k U (us @ (j, n, xs) # vs) s" and req: "request sz" and fl: "\<not> if_flag s"
    and fuel: "length xs < fuel" "0 < m"
    and room: "k + new_pages sz \<le> 256" and free: "new_pages sz \<le> free_count s"
  shows "(\<exists>p t. major_loop fuel (Suc m) (heap_page j) best started sz req s = Inr (p, t) \<and>
      provided k U (us @ (j, n, xs) # vs) s sz req p t) \<or>
    (\<exists>b best1. (b = l_bestBet s \<or> b = heap_page j) \<and> (vs \<noteq> [] \<or> started) \<and>
      major_loop fuel (Suc m) (heap_page j) best started sz req s =
        (if vs = [] then major_loop fuel m (l_memRoot s) best1 False sz req (s\<lparr>l_bestBet := b\<rparr>)
         else major_loop fuel m (addr_of (hd vs)) best1 started sz req (s\<lparr>l_bestBet := b\<rparr>)))"
proof -
  let ?bs = "us @ (j, n, xs) # vs" and ?p = "heap_page j"
  have mem: "(j, n, xs) \<in> set ?bs" by simp
  note f = block_facts [OF heap mem]
  let ?d = "maj_size (major s ?p) - maj_usage (major s ?p)"
  define b where "b = (if best < ucast ?d then ?p else l_bestBet s)"
  define best1 where "best1 = (if best < ucast ?d then ucast ?d else best)"
  let ?s = "s\<lparr>l_bestBet := b\<rparr>"
  have s1: "(if best < ucast ?d then (s\<lparr>l_bestBet := ?p\<rparr>, ucast ?d) else (s, best)) = (?s, best1)"
    by (simp add: b_def best1_def)
  have b: "b = l_bestBet s \<or> b = ?p" by (simp add: b_def)
  have heap1: "heap_state k U ?bs ?s" by (rule heap_state_bets [OF heap]) (use b in auto)
  have nxt: "maj_next (major s ?p) = (case vs of [] \<Rightarrow> 0 | c # _ \<Rightarrow> addr_of c)"
    using linked_next [of s us "(j, n, xs)" vs] heap by (simp add: heap_state_def)
  have nxt0: "maj_next (major s ?p) = (if vs = [] then 0 else addr_of (hd vs))" "vs \<noteq> [] \<Longrightarrow> addr_of (hd vs) \<noteq> 0"
  proof -
    show "maj_next (major s ?p) = (if vs = [] then 0 else addr_of (hd vs))" using nxt by (cases vs) simp_all
    assume "vs \<noteq> []"
    then obtain i l zs ws where "vs = (i, l, zs) # ws" by (cases vs) auto
    then show "addr_of (hd vs) \<noteq> 0" using block_facts(7) [OF heap, of i l zs] by simp
  qed
  let ?next = "if vs = [] then major_loop fuel m (l_memRoot s) best1 False sz req ?s
    else major_loop fuel m (addr_of (hd vs)) best1 started sz req ?s"
  let ?L = "major_loop fuel (Suc m) ?p best started sz req s"
  have go_on: ?thesis if "vs \<noteq> [] \<or> started" "?L = ?next" using that b by blast
  have new: thesis if "vs = []" and "\<And>t'. append_major ?p sz ?s = Inr (heap_page k, t') \<Longrightarrow> heap_page k \<noteq> 0 \<Longrightarrow>
      maj_next (major t' ?p) = heap_page k \<Longrightarrow>
      \<exists>p t. use_block fuel (heap_page k) sz req t' = Inr (Some (p, t)) \<and> provided k U ?bs s sz req p t \<Longrightarrow>
      (\<And>m best. \<exists>p t. major_loop fuel (Suc m) (heap_page k) best False sz req t' = Inr (p, t) \<and>
        provided k U ?bs s sz req p t) \<Longrightarrow> thesis" for thesis
  proof -
    have heap2: "heap_state k U (us @ [(j, n, xs)]) ?s" using heap1 that(1) by simp
    have "\<not> if_flag ?s" "0 < fuel" "new_pages sz \<le> free_count ?s" using fl fuel free by simp_all
    from new_block_serves [OF heap2 req this(1,2) room this(3), where req = req] that(2) show thesis
      unfolding that(1) by (metis provided_bet)
  qed
  have sel: "major ?s = major s" "l_memRoot ?s = l_memRoot s" by simp_all
  note unf = major_loop.simps(2) Let_def s1 prod.case f(7) sel nxt0(1) if_True if_False simp_thms kbind_Inr option.case
  show ?thesis
  proof (cases "?d < sz + sizeof_minor")
    case True
    show ?thesis
    proof (cases "vs \<noteq> [] \<or> started")
      case go: True
      have "?L = ?next"
        using True go nxt0(2) by (cases "vs = []"; simp only: unf)
      then show ?thesis by (rule go_on [OF go])
    next
      case False
      then have stop: "vs = []" "\<not> started" by simp_all
      show ?thesis
      proof (rule new [OF stop(1)])
        fix t' assume t': "append_major ?p sz ?s = Inr (heap_page k, t')" "heap_page k \<noteq> 0"
          "\<exists>p t. use_block fuel (heap_page k) sz req t' = Inr (Some (p, t)) \<and> provided k U ?bs s sz req p t"
        then obtain p t where p: "use_block fuel (heap_page k) sz req t' = Inr (Some (p, t))" "provided k U ?bs s sz req p t"
          by blast
        have "?L = Inr (p, t)"
          using stop True t'(1,2) p(1) by (simp only: unf)
        with p(2) show ?thesis by blast
      qed
    qed
  next
    case enough: False
    have "\<not> maj_size (major ?s ?p) - maj_usage (major ?s ?p) < sz + sizeof_minor" "\<not> if_flag ?s"
      using enough fl by simp_all
    from use_block_heap [OF heap1 mem req this(2,1) fuel(1), where req = req] show ?thesis
    proof (elim disjE exE conjE)
      fix p t assume p: "use_block fuel ?p sz req ?s = Inr (Some (p, t))" "served ?s t ?p xs sz req p"
      have "?L = Inr (p, t)"
        using enough p(1) by (simp only: unf)
      moreover have "provided k U ?bs s sz req p t"
        using provided_here [OF heap1 p(2)] by (rule provided_bet)
      ultimately show ?thesis by blast
    next
      assume none: "use_block fuel ?p sz req ?s = Inr None"
      show ?thesis
      proof (cases "vs \<noteq> [] \<or> started")
        case go: True
        have "?L = ?next"
          using enough none go nxt0(2) by (cases "vs = []"; simp only: unf)
        then show ?thesis by (rule go_on [OF go])
      next
        case False
        then have stop: "vs = []" "\<not> started" by simp_all
        obtain m' where m: "m = Suc m'" using fuel(2) by (cases m) simp_all
        show ?thesis
        proof (rule new [OF stop(1)])
          fix t' assume t': "append_major ?p sz ?s = Inr (heap_page k, t')" "heap_page k \<noteq> 0"
            "maj_next (major t' ?p) = heap_page k"
            "\<And>m best. \<exists>p t. major_loop fuel (Suc m) (heap_page k) best False sz req t' = Inr (p, t) \<and>
              provided k U ?bs s sz req p t"
          obtain p t where p: "major_loop fuel m (heap_page k) best1 False sz req t' = Inr (p, t)"
            "provided k U ?bs s sz req p t" using t'(4) m by blast
          have "?L = Inr (p, t)"
            using stop enough none t'(1-3) p(1) by (simp only: unf)
          with p(2) show ?thesis by blast
        qed
      qed
    qed
  qed
qed

text \<open>The loop from any block, without and with a second round from the root.\<close>

definition short_lists :: "nat \<Rightarrow> block list \<Rightarrow> bool" where
  "short_lists fuel bs \<longleftrightarrow> 0 < fuel \<and> (\<forall>(j, n, xs) \<in> set bs. length xs < fuel)"

lemma loop_walk:
  assumes "heap_state k U (us @ b # vs) s" and req: "request sz" and "\<not> if_flag s"
    and fuel: "short_lists fuel (us @ b # vs)" and m: "length vs + 1 < m"
    and room: "k + new_pages sz \<le> 256" and "new_pages sz \<le> free_count s"
  shows "\<exists>p t. major_loop fuel m (addr_of b) best False sz req s = Inr (p, t) \<and> provided k U (us @ b # vs) s sz req p t"
  using assms
proof (induction vs arbitrary: us b s best m)
  case Nil
  obtain j n xs where b: "b = (j, n, xs)" by (cases b)
  obtain m' where m': "m = Suc m'" "0 < m'" using Nil.prems(5) by (cases m) simp_all
  show ?case
    using loop_step [of k U us j n xs "[]" s sz fuel m' best False] Nil.prems m'
    by (auto simp: b short_lists_def)
next
  case (Cons c vs)
  obtain j n xs where b: "b = (j, n, xs)" by (cases b)
  obtain m' where m': "m = Suc m'" "length vs + 1 < m'" using Cons.prems(5) by (cases m) simp_all
  have step: "heap_state k U (us @ (j, n, xs) # c # vs) s" "length xs < fuel" "0 < m'"
    using Cons.prems(1,4) m'(2) by (simp_all add: b short_lists_def)
  from loop_step [OF step(1) req Cons.prems(3) step(2,3) room Cons.prems(7), where req = req, of best False]
  consider (served) p t where "major_loop fuel (Suc m') (heap_page j) best False sz req s = Inr (p, t)"
      "provided k U (us @ (j, n, xs) # c # vs) s sz req p t"
    | (go_on) bet best1 where "bet = l_bestBet s \<or> bet = heap_page j" "major_loop fuel (Suc m') (heap_page j) best False sz req s =
        major_loop fuel m' (addr_of c) best1 False sz req (s\<lparr>l_bestBet := bet\<rparr>)"
    by auto
  then show ?case
  proof cases
    case (go_on bet best1)
    note bet = go_on(1) and go = go_on(2)
    have "heap_state k U ((us @ [b]) @ c # vs) (s\<lparr>l_bestBet := bet\<rparr>)"
      using heap_state_bets [OF step(1), of bet] bet by (auto simp: b)
    from Cons.IH [OF this req _ _ m'(2) room, where best = best1] Cons.prems(3,4,7)
    obtain p t where "major_loop fuel m' (addr_of c) best1 False sz req (s\<lparr>l_bestBet := bet\<rparr>) = Inr (p, t)"
      "provided k U (us @ b # c # vs) (s\<lparr>l_bestBet := bet\<rparr>) sz req p t" by auto
    then show ?thesis using go provided_bet by (auto simp: m'(1) b)
  qed (auto simp: m'(1) b)
qed

lemma loop_walk_bet:
  assumes "heap_state k U (us @ b # vs) s" and req: "request sz" and "\<not> if_flag s"
    and fuel: "short_lists fuel (us @ b # vs)" and m: "length vs + length (us @ b # vs) + 2 < m"
    and room: "k + new_pages sz \<le> 256" and "new_pages sz \<le> free_count s"
  shows "\<exists>p t. major_loop fuel m (addr_of b) best True sz req s = Inr (p, t) \<and> provided k U (us @ b # vs) s sz req p t"
  using assms
proof (induction vs arbitrary: us b s best m)
  case Nil
  obtain j n xs where b: "b = (j, n, xs)" by (cases b)
  obtain m' where m': "m = Suc m'" "length us + 2 < m'" using Nil.prems(5) by (cases m) simp_all
  have step: "heap_state k U (us @ [(j, n, xs)]) s" "length xs < fuel" "0 < m'"
    using Nil.prems(1,4) m'(2) by (simp_all add: b short_lists_def)
  from loop_step [OF step(1) req Nil.prems(3) step(2,3) room Nil.prems(7), where req = req, of best True]
  consider (served) p t where "major_loop fuel (Suc m') (heap_page j) best True sz req s = Inr (p, t)"
      "provided k U (us @ [(j, n, xs)]) s sz req p t"
    | (go_on) bet best1 where "bet = l_bestBet s \<or> bet = heap_page j" "major_loop fuel (Suc m') (heap_page j) best True sz req s =
        major_loop fuel m' (l_memRoot s) best1 False sz req (s\<lparr>l_bestBet := bet\<rparr>)"
    by auto
  then show ?case
  proof cases
    case (go_on bet best1)
    note bet = go_on(1) and go = go_on(2)
    obtain r rs where r: "us @ [b] = r # rs" by (cases us) auto
    have "heap_state k U (us @ [b]) (s\<lparr>l_bestBet := bet\<rparr>)"
      using heap_state_bets [OF step(1), of bet] bet by (auto simp: b)
    then have heap: "heap_state k U ([] @ r # rs) (s\<lparr>l_bestBet := bet\<rparr>)" by (simp add: r)
    have root: "l_memRoot s = addr_of r"
      using linked_root [of s r rs] Nil.prems(1) unfolding r heap_state_def by blast
    have "length rs = length us" using arg_cong [OF r, of length] by simp
    then have "length rs + 1 < m'" using m'(2) by simp
    from loop_walk [OF heap req _ _ this room, where best = best1 and fuel = fuel and req = req] Nil.prems(3,4,7)
    obtain p t where "major_loop fuel m' (addr_of r) best1 False sz req (s\<lparr>l_bestBet := bet\<rparr>) = Inr (p, t)"
      "provided k U (us @ [b]) (s\<lparr>l_bestBet := bet\<rparr>) sz req p t" by (auto simp: r)
    then show ?thesis using go provided_bet root by (auto simp: m'(1) b)
  qed (auto simp: m'(1) b)
next
  case (Cons c vs)
  obtain j n xs where b: "b = (j, n, xs)" by (cases b)
  obtain m' where m': "m = Suc m'" "length vs + length ((us @ [b]) @ c # vs) + 2 < m'"
    using Cons.prems(5) by (cases m) simp_all
  have step: "heap_state k U (us @ (j, n, xs) # c # vs) s" "length xs < fuel" "0 < m'"
    using Cons.prems(1,4) m'(2) by (simp_all add: b short_lists_def)
  from loop_step [OF step(1) req Cons.prems(3) step(2,3) room Cons.prems(7), where req = req, of best True]
  consider (served) p t where "major_loop fuel (Suc m') (heap_page j) best True sz req s = Inr (p, t)"
      "provided k U (us @ (j, n, xs) # c # vs) s sz req p t"
    | (go_on) bet best1 where "bet = l_bestBet s \<or> bet = heap_page j" "major_loop fuel (Suc m') (heap_page j) best True sz req s =
        major_loop fuel m' (addr_of c) best1 True sz req (s\<lparr>l_bestBet := bet\<rparr>)"
    by auto
  then show ?case
  proof cases
    case (go_on bet best1)
    note bet = go_on(1) and go = go_on(2)
    have "heap_state k U ((us @ [b]) @ c # vs) (s\<lparr>l_bestBet := bet\<rparr>)"
      using heap_state_bets [OF step(1), of bet] bet by (auto simp: b)
    from Cons.IH [OF this req _ _ m'(2) room, where best = best1] Cons.prems(3,4,7)
    obtain p t where "major_loop fuel m' (addr_of c) best1 True sz req (s\<lparr>l_bestBet := bet\<rparr>) = Inr (p, t)"
      "provided k U (us @ b # c # vs) (s\<lparr>l_bestBet := bet\<rparr>) sz req p t" by auto
    then show ?thesis using go provided_bet by (auto simp: m'(1) b)
  qed (auto simp: m'(1) b)
qed

section \<open>\<open>kmalloc\<close>\<close>

definition minors_of :: "block list \<Rightarrow> u32 list" where
  "minors_of bs = concat (map (\<lambda>(j, n, xs). xs) bs)"

lemma minors_of_simps [simp]:
  "minors_of [] = []" "minors_of ((j, n, xs) # bs) = xs @ minors_of bs" "minors_of (us @ vs) = minors_of us @ minors_of vs"
  by (simp_all add: minors_of_def)

text \<open>Between two calls no block is empty.\<close>

definition full :: "block list \<Rightarrow> bool" where
  "full = list_all (\<lambda>(j, n, xs). xs \<noteq> [])"

lemma full_simps [simp]:
  "full []" "full ((j, n, xs) # bs) \<longleftrightarrow> xs \<noteq> [] \<and> full bs" "full (us @ vs) \<longleftrightarrow> full us \<and> full vs"
  by (auto simp: full_def)

text \<open>The request \<open>req\<close> was given the new minor \<open>n\<close> with the payload at \<open>p\<close>; it took at most the pages of a new block.\<close>

definition given :: "nat \<Rightarrow> nat set \<Rightarrow> block list \<Rightarrow> 'a lalloc_scheme \<Rightarrow> u32 \<Rightarrow> u32 \<Rightarrow> 'a lalloc_scheme \<Rightarrow> bool" where
  "given k U bs s req p t \<longleftrightarrow> (\<exists>k' bs' as n cs. heap_state k' U bs' t \<and>
     minors_of bs = as @ cs \<and> minors_of bs' = as @ n # cs \<and>
     (\<forall>x \<in> set (as @ cs). sizes (minor t x) = sizes (minor s x)) \<and> min_req_size (minor t n) = req \<and>
     min_size (minor t n) = req + 32 \<and> p = payload_of n \<and>
     unalign p t = n + sizeof_minor \<and> (\<forall>q. q \<noteq> p \<longrightarrow> unalign q t = unalign q s) \<and>
     k \<le> k' \<and> k' \<le> k + new_pages (req + 32) \<and> (full bs \<longrightarrow> full bs') \<and>
     free_count s \<le> free_count t + new_pages (req + 32) \<and>
     if_flag t = if_flag s \<and> payload t = payload s \<and> lalloc.more t = lalloc.more s)"

lemma minors_of_mem: "x \<in> set (minors_of bs) \<longleftrightarrow> (\<exists>j n xs. (j, n, xs) \<in> set bs \<and> x \<in> set xs)"
  by (auto simp: minors_of_def)

lemma provided_given:
  assumes prov: "provided k U bs s0 (req + 32) req p t"
    and s0: "s0 = s\<lparr>enable_int := if_flag s, if_flag := False\<rparr>"
  shows "given k U bs s req p t"
proof -
  obtain k' s' us j n xs vs where
    heap: "heap_state k' U (us @ (j, n, xs) # vs) s'" and client: "same_client s0 s'"
    and served: "served s' t (heap_page j) xs (req + 32) req p"
    and place: "k' = k \<and> us @ (j, n, xs) # vs = bs \<and> free_count s' = free_count s0 \<or>
      k' = k + new_pages (req + 32) \<and> us = bs \<and> xs = [] \<and> vs = [] \<and> free_count s0 = free_count s' + new_pages (req + 32)"
    using prov unfolding provided_def by blast
  obtain ys m zs where parts: "xs = ys @ zs" "block_ok t (heap_page j) (ys @ m # zs)" "sizes (minor t m) = (req + 32, req)"
    "\<And>x. x \<in> set xs \<Longrightarrow> sizes (minor t x) = sizes (minor s' x)" "p = payload_of m"
    "unalign p t = m + sizeof_minor"
    "same_rest (heap_page j) s' t" "if_flag t = enable_int s'" "\<And>q. q \<noteq> p - ALIGN_INFO \<Longrightarrow> align_bytes t q = align_bytes s' q"
    using served unfolding served_def by (elim exE conjE) (rule that; blast)
  let ?bs' = "us @ (j, n, ys @ m # zs) # vs"
  have heap': "heap_state k' U ?bs' t" by (rule heap_state_block [OF heap parts(7,2)])
  have blocks: "same_blocks (heap_page j) s' t" and vm: "same_vm s' t" and more: "lalloc.more t = lalloc.more s'" "payload t = payload s'"
    using parts(7) by (simp_all add: same_rest_def)
  have minors: "minor s' = minor s" "align_bytes s' = align_bytes s" "enable_int s' = if_flag s" "lalloc.more s' = lalloc.more s"
    "payload s' = payload s"
    using client by (simp_all add: same_client_def s0)
  have other: "sizes (minor t x) = sizes (minor s' x)" if x: "x \<in> set (minors_of (us @ (j, n, xs) # vs))" for x
  proof (cases "x \<in> set xs")
    case False
    then obtain i l ws where "(i, l, ws) \<in> set (us @ vs)" "x \<in> set ws"
      using x by (auto simp: minors_of_mem)
    then show ?thesis using block_other(2) [OF heap blocks] by simp
  qed (rule parts(4))
  have flat: "minors_of bs = (minors_of us @ ys) @ (zs @ minors_of vs)"
    "minors_of ?bs' = (minors_of us @ ys) @ m # (zs @ minors_of vs)"
    using place parts(1) by auto
  have sizes: "\<forall>x \<in> set ((minors_of us @ ys) @ (zs @ minors_of vs)). sizes (minor t x) = sizes (minor s x)"
    using other parts(1) minors(1) by auto
  have unal: "\<forall>q. q \<noteq> p \<longrightarrow> unalign q t = unalign q s"
    using parts(9) minors(2) by (simp add: unalign_def Let_def)
  have "free_count s0 = free_count s" using same_vm_facts(5) [of s s0] by (simp add: s0)
  then have free: "free_count s \<le> free_count t + new_pages (req + 32)"
    using place same_vm_facts(5) [OF vm] by auto
  have k: "k \<le> k' \<and> k' \<le> k + new_pages (req + 32)" using place by auto
  have new: "min_size (minor t m) = req + 32" "min_req_size (minor t m) = req" using parts(3) by (simp_all add: sizes_def)
  have "full bs \<longrightarrow> full ?bs'" using place by auto
  then show ?thesis
    unfolding given_def using heap' flat sizes unal free k new parts(5,6,8) minors(3-5) more
    by (intro exI [of _ k'] exI [of _ ?bs'] exI [of _ "minors_of us @ ys"] exI [of _ m] exI [of _ "zs @ minors_of vs"] conjI)
      (simp_all only:)
qed

lemma given_bounds:
  assumes "heap_state k U bs t" "n \<in> set (minors_of bs)" "min_size (minor t n) = req + 32" "unat (req + 32) = unat req + 32"
  shows "unat (payload_of n) mod 16 = 0" "unat n + 24 \<le> unat (payload_of n)"
    "unat (payload_of n) + unat req \<le> unat n + 24 + unat (min_size (minor t n))"
proof -
  obtain j m xs where b: "(j, m, xs) \<in> set bs" "n \<in> set xs" using assms(2) by (auto simp: minors_of_mem)
  have "unat n + 24 + unat (req + 32) < 4294967296"
    using minor_range(2) [OF assms(1) b] block_facts(3) [OF assms(1) b(1)] assms(3) by simp
  note payload_bounds [OF this assms(4)]
  then show "unat (payload_of n) mod 16 = 0" "unat n + 24 \<le> unat (payload_of n)"
    "unat (payload_of n) + unat req \<le> unat n + 24 + unat (min_size (minor t n))"
    unfolding assms(3) by simp_all
qed

lemma malloc_provides:
  assumes heap: "heap_state k U bs s" and req: "request sz" and fl: "\<not> if_flag s"
    and lists: "short_lists fuel bs" and fuel: "2 * length bs + 2 < fuel"
    and room: "k + new_pages sz \<le> 256" and free: "new_pages sz \<le> free_count s"
  shows "\<exists>p t. malloc_sized fuel sz req s = Inr (p, t) \<and> provided k U bs s sz req p t"
proof (cases bs)
  case Nil
  have size: "unat sz + 48 < 4294963200" using req by (simp add: request_def)
  have nil: "heap_state k U [] s" using heap Nil by simp
  from first_major_spec [OF nil size room free] obtain t where
    t: "allocate_new_page sz s = Inr (heap_page k, t)"
      "heap_state (k + new_pages sz) U [(k, new_pages sz, [])] (t\<lparr>l_memRoot := heap_page k\<rparr>)"
      "same_client s t" "free_count s = free_count t + new_pages sz" "heap_page k \<noteq> 0" "l_bestBet t = 0" by blast
  let ?t = "t\<lparr>l_memRoot := heap_page k\<rparr>"
  have heap': "heap_state (k + new_pages sz) U ([] @ [(k, new_pages sz, [])]) ?t" using t(2) by simp
  have client: "same_client s ?t" using t(3) by (simp add: same_client_def)
  have fl': "\<not> if_flag ?t" using t(3) fl by (simp add: same_client_def)
  have "free_count ?t = free_count t" using same_vm_facts(5) [of t ?t] by simp
  then have fc: "free_count s = free_count ?t + new_pages sz" using t(4) by simp
  have f0: "0 < fuel" using fuel by simp
  obtain f where f: "fuel = Suc f" using fuel by (cases fuel) simp_all
  note fresh = fresh_block_serves [OF heap' req fl' f0]
  from loop_hit [OF heap' _ fresh, where m = f and best = 0 and started = False and req = req] obtain b p u where
    u: "b = l_bestBet ?t \<or> b = heap_page k" "major_loop fuel fuel (heap_page k) 0 False sz req ?t = Inr (p, u)"
      "served (?t\<lparr>l_bestBet := b\<rparr>) u (heap_page k) [] sz req p"
    unfolding f by auto
  have "provided k U [] s sz req p u"
    by (rule provided_new [OF _ client fc u(1) u(3)]) (use heap' in simp)
  moreover have "l_memRoot s = 0" using nil by (simp add: heap_state_def linked_def)
  then have "malloc_sized fuel sz req s = Inr (p, u)"
    using t(1,5,6) u(2) by (simp add: malloc_sized_def)
  ultimately show ?thesis using Nil by blast
next
  case (Cons b bs')
  have root: "l_memRoot s = addr_of b" "addr_of b \<noteq> 0"
    using linked_root [of s b bs'] heap dlinked_nonzero unfolding Cons heap_state_def linked_def by auto
  show ?thesis
  proof (cases "l_bestBet s \<noteq> 0 \<and> ucast (maj_size (major s (l_bestBet s)) - maj_usage (major s (l_bestBet s))) >
      (ucast (sz + sizeof_minor) :: u64)")
    case True
    then have "l_bestBet s \<in> set (map addr_of bs)" using heap by (auto simp: heap_state_def linked_def)
    then obtain us c vs where c: "bs = us @ c # vs" "l_bestBet s = addr_of c"
      by (metis (no_types, lifting) imageE list.set_map split_list)
    have len: "length vs + length (us @ c # vs) + 2 < fuel" using fuel c(1) by simp
    from loop_walk_bet [OF heap [unfolded c(1)] req fl lists [unfolded c(1)] len room free,
        where req = req, of "ucast (maj_size (major s (l_bestBet s)) - maj_usage (major s (l_bestBet s)))"]
    show ?thesis using root True by (simp add: malloc_sized_def Let_def c)
  next
    case False
    have "heap_state k U ([] @ b # bs') s" "short_lists fuel ([] @ b # bs')" "length bs' + 1 < fuel"
      using heap lists fuel Cons by simp_all
    note walk = loop_walk [OF this(1) req fl this(2,3) room free, where req = req]
    let ?bet = "l_bestBet s"
    let ?best = "if ?bet \<noteq> 0 then ucast (maj_size (major s ?bet) - maj_usage (major s ?bet)) else 0"
    have "malloc_sized fuel sz req s = major_loop fuel fuel (addr_of b) ?best False sz req s"
      using False root by (cases "?bet = 0"; simp add: malloc_sized_def Let_def)
    with walk [of ?best] show ?thesis using Cons by simp
  qed
qed

text \<open>A request is given memory, from a block that has room or from a new one.\<close>

lemma kmalloc_gives:
  assumes heap: "heap_state k U bs s" and req: "req + 32 \<noteq> 0" "unat (req + 32) < 4294963152"
    and lists: "short_lists fuel bs" and fuel: "2 * length bs + 2 < fuel"
    and room: "k + new_pages (req + 32) \<le> 256" and free: "new_pages (req + 32) \<le> free_count s"
  shows "\<exists>p t. kmalloc fuel ra req s = Inr (p, t) \<and> given k U bs s req p t"
proof -
  define s0 where "s0 = s\<lparr>enable_int := if_flag s, if_flag := False\<rparr>"
  have r: "request (req + 32)" using req(2) by (simp add: request_def)
  have vm: "same_vm s s0" by (simp add: s0_def)
  have "heap_state k U bs s0" using heap heap_state_flags [OF vm] by (simp add: s0_def)
  moreover have "new_pages (req + 32) \<le> free_count s0" using free same_vm_facts(5) [OF vm] by simp
  ultimately obtain p t where t: "malloc_sized fuel (req + 32) req s0 = Inr (p, t)" "provided k U bs s0 (req + 32) req p t"
    using malloc_provides [OF _ r _ lists fuel room, of U s0 req] by (auto simp: s0_def)
  have "kmalloc fuel ra req s = Inr (p, t)"
    using req(1) t(1) by (simp add: kmalloc_def Let_def ALIGNMENT_def ALIGN_INFO_def liballoc_lock_eq s0_def)
  then show ?thesis using provided_given [OF t(2) s0_def] by blast
qed

section \<open>Giving a block back\<close>

text \<open>Taking a block out of the list, without the return of its pages.\<close>

lemma release_major_detach:
  assumes ne: "maj_prev (major s maj) \<noteq> maj" "maj_next (major s maj) \<noteq> maj"
    and ne2: "maj_prev (major s maj) \<noteq> 0 \<Longrightarrow> maj_next (major s maj) \<noteq> maj_prev (major s maj)"
  obtains u where "release_major maj s = kbind (liballoc_free maj (maj_pages (major s maj)) u) (\<lambda>(_, t). Inr t)"
    "(\<lambda>b. maj_next (major u b)) = bypass (\<lambda>b. maj_next (major s b)) (\<lambda>b. maj_prev (major s b)) maj"
    "(\<lambda>b. maj_prev (major u b)) = bypass (\<lambda>b. maj_prev (major s b)) (\<lambda>b. maj_next (major s b)) maj"
    "\<And>b. maj_pages (major u b) = maj_pages (major s b)" "\<And>b. maj_size (major u b) = maj_size (major s b)"
    "\<And>b. maj_usage (major u b) = maj_usage (major s b)" "\<And>b. maj_first (major u b) = maj_first (major s b)"
    "l_memRoot u = (if l_memRoot s = maj then maj_next (major s maj) else l_memRoot s)"
    "l_bestBet u = (if l_bestBet s = maj then 0 else l_bestBet s)" "same_vm s u" "same_client s u"
proof -
  let ?pv = "maj_prev (major s maj)" and ?nx = "maj_next (major s maj)"
  define s2 where "s2 = s\<lparr>l_memRoot := (if l_memRoot s = maj then ?nx else l_memRoot s),
    l_bestBet := (if l_bestBet s = maj then 0 else l_bestBet s)\<rparr>"
  define s3 where "s3 = (if ?pv \<noteq> 0 then upd_major ?pv (\<lambda>b. b\<lparr>maj_next := ?nx\<rparr>) s2 else s2)"
  define s4 where "s4 = (if ?nx \<noteq> 0 then upd_major ?nx (\<lambda>b. b\<lparr>maj_prev := ?pv\<rparr>) s3 else s3)"
  define u where "u = s4\<lparr>l_allocated := l_allocated s4 - ucast (maj_size (major s4 maj))\<rparr>"
  have m2: "majors s2 = majors s" by (simp add: s2_def)
  have m3: "majors s3 = (if ?pv \<noteq> 0 then (majors s)(?pv := (major s ?pv)\<lparr>maj_next := ?nx\<rparr>) else majors s)"
    by (simp add: s3_def upd_major_def m2)
  have m4: "majors u = (if ?nx \<noteq> 0 then (majors s3)(?nx := (majors s3 ?nx)\<lparr>maj_prev := ?pv\<rparr>) else majors s3)"
    by (simp add: u_def s4_def upd_major_def)
  show thesis
  proof (rule that)
    show "release_major maj s = kbind (liballoc_free maj (maj_pages (major s maj)) u) (\<lambda>(_, t). Inr t)"
      using ne by (cases "l_memRoot s = maj"; cases "l_bestBet s = maj"; cases "?pv = 0"; cases "?nx = 0";
        simp add: release_major_def Let_def u_def s4_def s3_def s2_def upd_major_def)
    show "(\<lambda>b. maj_next (major u b)) = bypass (\<lambda>b. maj_next (major s b)) (\<lambda>b. maj_prev (major s b)) maj"
      "(\<lambda>b. maj_prev (major u b)) = bypass (\<lambda>b. maj_prev (major s b)) (\<lambda>b. maj_next (major s b)) maj"
      using ne by (auto simp: fun_eq_iff m3 m4 bypass_def)
    show "maj_pages (major u b) = maj_pages (major s b)" "maj_size (major u b) = maj_size (major s b)"
      "maj_usage (major u b) = maj_usage (major s b)" "maj_first (major u b) = maj_first (major s b)" for b
      by (simp_all add: m3 m4)
    show "l_memRoot u = (if l_memRoot s = maj then ?nx else l_memRoot s)"
      "l_bestBet u = (if l_bestBet s = maj then 0 else l_bestBet s)" "same_vm s u" "same_client s u"
      by (simp_all add: u_def s4_def s3_def s2_def upd_major_def same_client_def same_vm_def)
  qed
qed

lemma slot_free_translate:
  "slot_free va s \<longleftrightarrow> pd_index va \<noteq> 1023 \<and> bit (pde_of s va) 0 \<and> table_of s va \<noteq> cr3 s \<and>
    translate va s = Inl (Page_Fault va)"
  by (auto simp: slot_free_def translate_def Let_def)

text \<open>The pages of a block are returned.\<close>

lemma heap_frames_shrink:
  assumes ok: "heap_ok k s" and fr: "heap_frames U P s" and P: "{j..<j + n} \<subseteq> P" "P \<subseteq> {..<k}" and n: "0 < n"
  obtains t where "free_pages n (heap_page j) s = Inr t" "heap_ok k t" "heap_frames U (P - {j..<j + n}) t"
    "same_outer s t" "free_count t = free_count s + n" "in_use t \<subseteq> in_use s"
    "\<And>i. i < n \<Longrightarrow> translate (heap_page (j + i)) t = Inl (Page_Fault (heap_page (j + i)))"
proof -
  obtain F where F: "\<And>i. i \<in> P \<Longrightarrow> translate (heap_page i) s = Inr (F i) \<and> data_frame s (F i) \<and> unat (F i) < page_limit s"
    "inj_on F P" "in_use s = U \<union> unat ` F ` P" "U \<inter> unat ` F ` P = {}"
    and tbl: "frame_of (pmem s (cr3 s) 832) \<noteq> cr3 s" using fr by (auto simp: heap_frames_def)
  let ?G = "\<lambda>i. F (j + i)"
  have k: "k \<le> 256" and vm: "vm_ok s" using ok by (simp_all add: heap_ok_def)
  have "j + (n - 1) \<in> {j..<j + n}" using n by simp
  then have "j + (n - 1) < k" using P by blast
  then have jk: "j + n \<le> k" using n by linarith
  then have jn: "j + n \<le> 256" using k by simp
  have G: "\<forall>i<n. translate (heap_page (j + i)) s = Inr (?G i) \<and> data_frame s (?G i)"
    using F(1) subsetD [OF P(1)] by simp
  have inj: "inj_on ?G {..<n}"
  proof (rule inj_onI)
    fix i l assume il: "i \<in> {..<n}" "l \<in> {..<n}" "F (j + i) = F (j + l)"
    then have "j + i \<in> P" "j + l \<in> P" using subsetD [OF P(1)] by simp_all
    then have "j + i = j + l" by (rule inj_onD [OF F(2) il(3)])
    then show "i = l" by simp
  qed
  from free_pages_spec [OF vm jn G inj tbl] obtain t where t: "free_pages n (heap_page j) s = Inr t" "vm_ok t" "in_use t = in_use s - unat ` ?G ` {..<n}"
    "same_dir s t" "same_outer s t" "kheap t = kheap s"
    "\<forall>i<n. translate (heap_page (j + i)) t = Inl (Page_Fault (heap_page (j + i)))"
    "\<forall>a. (\<forall>i<n. other_entry s a (heap_page (j + i))) \<longrightarrow> translate a t = translate a s"
    by blast
  have other: "translate (heap_page i) t = translate (heap_page i) s" if "i \<notin> {j..<j + n}" "i < 1024" for i
  proof -
    have "other_entry s (heap_page i) (heap_page (j + m))" if "m < n" for m
      using that jk k \<open>i \<notin> {j..<j + n}\<close> \<open>i < 1024\<close> by (intro heap_page_other) auto
    then show ?thesis using t(8) by blast
  qed
  have img: "?G ` {..<n} = F ` {j..<j + n}"
  proof -
    have "{j..<j + n} = (\<lambda>i. j + i) ` {..<n}" by (simp add: lessThan_atLeast0 add.commute)
    then show ?thesis by (simp only: image_image)
  qed
  have sub: "unat ` F ` {j..<j + n} \<subseteq> unat ` F ` P" using P(1) by blast
  have "inj_on (\<lambda>i. unat (F i)) P" using F(2) by (simp add: inj_on_def flip: word_unat_eq_iff)
  then have diff: "unat ` F ` (P - {j..<j + n}) = unat ` F ` P - unat ` F ` {j..<j + n}"
    using P(1) by (simp add: image_image inj_on_image_set_diff)
  have in_t: "in_use t = U \<union> unat ` F ` (P - {j..<j + n})"
    unfolding t(3) img diff F(3) using F(4) sub by blast
  have frames: "heap_frames U (P - {j..<j + n}) t"
    unfolding heap_frames_def
  proof (intro conjI exI [of _ F] ballI)
    fix i assume i: "i \<in> P - {j..<j + n}"
    then have "i < 1024" using P(2) k by auto
    then have "translate (heap_page i) t = Inr (F i)" using other [of i] F(1) i by auto
    moreover have "unat (F i) \<in> in_use t" using i in_t by blast
    then have "data_frame t (F i)" using F(1) i data_frame_same_dir [OF t(4)] by blast
    moreover have "unat (F i) < page_limit t" using F(1) i t(5) by (simp add: same_outer_def)
    ultimately show "translate (heap_page i) t = Inr (F i)" "data_frame t (F i)" "unat (F i) < page_limit t" by simp_all
  next
    show "frame_of (pmem t (cr3 t) 832) \<noteq> cr3 t" using tbl t(4) by (simp add: same_dir_def)
    show "inj_on F (P - {j..<j + n})" using F(2) by (rule inj_on_subset) blast
    show "in_use t = U \<union> unat ` F ` (P - {j..<j + n})" by (rule in_t)
    show "U \<inter> unat ` F ` (P - {j..<j + n}) = {}" using F(4) by blast
  qed
  have "slot_free (heap_page i) t" if "k \<le> i" "i < 256" for i
  proof -
    have "i \<notin> {j..<j + n}" using jk that by auto
    then have "translate (heap_page i) t = translate (heap_page i) s" using other that by simp
    moreover have "slot_free (heap_page i) s" using ok that by (simp add: heap_ok_def)
    ultimately show ?thesis using t(4) by (simp add: slot_free_translate same_dir_def)
  qed
  then have "heap_ok k t" using ok t(2,6) by (simp add: heap_ok_def)
  moreover have "free_count t = free_count s + n"
  proof -
    have "unat ` F ` {j..<j + n} \<subseteq> {..<page_limit t}" using F(1) P(1) t(5) by (auto simp: same_outer_def)
    moreover have "in_use s = in_use t \<union> unat ` F ` {j..<j + n}" "unat ` F ` {j..<j + n} \<inter> in_use t = {}"
      unfolding t(3) img F(3) using sub by blast+
    moreover have "card (unat ` F ` {j..<j + n}) = n"
    proof -
      have "inj_on (\<lambda>i. unat (F i)) {j..<j + n}"
        using \<open>inj_on (\<lambda>i. unat (F i)) P\<close> P(1) by (rule inj_on_subset)
      then show ?thesis by (simp add: image_image card_image)
    qed
    ultimately show ?thesis using free_count_split [of s t "unat ` F ` {j..<j + n}"] t(5) by (simp add: same_outer_def)
  qed
  moreover have "in_use t \<subseteq> in_use s" using t(3) by blast
  ultimately show thesis using that [OF t(1) _ frames t(5)] t(7) by blast
qed

text \<open>The addresses from \<open>lo\<close> on and below \<open>hi\<close> fault.\<close>

definition faults :: "nat \<Rightarrow> nat \<Rightarrow> 'a paging_scheme \<Rightarrow> bool" where
  "faults lo hi s \<longleftrightarrow> (\<forall>a. lo \<le> unat a \<longrightarrow> unat a < hi \<longrightarrow> translate a s = Inl (Page_Fault a))"

lemma faults_pages:
  assumes "\<And>i. i < n \<Longrightarrow> translate (heap_page (j + i)) s = Inl (Page_Fault (heap_page (j + i)))" "j + n \<le> 256"
  shows "faults (3489660928 + 4096 * j) (3489660928 + 4096 * (j + n)) s"
  unfolding faults_def
proof (intro allI impI)
  fix a :: u32 assume a: "3489660928 + 4096 * j \<le> unat a" "unat a < 3489660928 + 4096 * (j + n)"
  define i where "i = unat a div 4096 - 851968 - j"
  have "851968 + j \<le> unat a div 4096" using a(1) by linarith
  moreover have "unat a div 4096 < 851968 + (j + n)" using a(2) by (intro less_mult_imp_div_less) simp
  ultimately have "i < n" "unat a div 4096 = 851968 + (j + i)" by (simp_all add: i_def)
  then show "translate a s = Inl (Page_Fault a)" using translate_heap_page [of "j + i" a s] assms by simp
qed

lemma release_major_spec:
  assumes heap: "heap_state k U (us @ (j, n, []) # vs) s"
  obtains t where "release_major (heap_page j) s = Inr t" "heap_state k U (us @ vs) t" "same_client s t"
    "free_count t = free_count s + n" "in_use t \<subset> in_use s"
    "faults (3489660928 + 4096 * j) (3489660928 + 4096 * (j + n)) t"
proof -
  let ?bs = "us @ (j, n, []) # vs" and ?b = "heap_page j"
  let ?nx = "\<lambda>b. maj_next (major s b)" and ?pv = "\<lambda>b. maj_prev (major s b)"
  have mem: "(j, n, []) \<in> set ?bs" by simp
  note f = block_facts [OF heap mem]
  have st: "heap_ok k s" "heap_frames U (block_pages ?bs) s" "spans 0 k ?bs" "linked s (map addr_of ?bs)"
    using heap by (simp_all add: heap_state_def)
  let ?as = "map addr_of us" and ?cs = "map addr_of vs"
  have dl: "dlinked ?nx ?pv 0 (l_memRoot s) (?as @ ?b # ?cs)" using st(4) by (simp add: linked_def)
  have dist: "distinct (?as @ ?b # ?cs)"
    using addresses_distinct [OF st(3)] heap_state_bounds [OF heap] by simp
  note links = dlinked_links [OF dl] and nb = dlinked_neighbours [OF dl dist]
  obtain u where u: "release_major ?b s = kbind (liballoc_free ?b (maj_pages (major s ?b)) u) (\<lambda>(_, t). Inr t)"
    "(\<lambda>b. maj_next (major u b)) = bypass ?nx ?pv ?b" "(\<lambda>b. maj_prev (major u b)) = bypass ?pv ?nx ?b"
    "\<And>b. maj_pages (major u b) = maj_pages (major s b)" "\<And>b. maj_size (major u b) = maj_size (major s b)"
    "\<And>b. maj_usage (major u b) = maj_usage (major s b)" "\<And>b. maj_first (major u b) = maj_first (major s b)"
    "l_memRoot u = (if l_memRoot s = ?b then maj_next (major s ?b) else l_memRoot s)"
    "l_bestBet u = (if l_bestBet s = ?b then 0 else l_bestBet s)" "same_vm s u" "same_client s u"
    by (rule release_major_detach [of s ?b, OF nb(1,2)], erule nb(3), rule that) blast+
  note vm = same_vm_facts [OF u(10)]
  have below: "block_pages ?bs \<subseteq> {..<k}" using block_pages_below [OF st(3)] by auto
  have jn: "{j..<j + n} \<subseteq> block_pages ?bs" by auto
  have ok: "heap_ok k u" "heap_frames U (block_pages ?bs) u" using st(1,2) by (simp_all only: vm)
  obtain t where t: "free_pages n ?b u = Inr t" "heap_ok k t" "heap_frames U (block_pages ?bs - {j..<j + n}) t"
    "same_outer u t" "free_count t = free_count u + n" "in_use t \<subseteq> in_use u"
    "\<And>i. i < n \<Longrightarrow> translate (heap_page (j + i)) t = Inl (Page_Fault (heap_page (j + i)))"
    by (rule heap_frames_shrink [OF ok jn below f(2)]) (rule that)
  have pages: "block_pages ?bs - {j..<j + n} = block_pages (us @ vs)"
    using block_pages_apart [OF st(3)] by auto
  have np: "maj_pages (major s ?b) = of_nat n" "unat (of_nat n :: u32) = n" "(of_nat n :: u32) \<noteq> 0"
  proof -
    show "maj_pages (major s ?b) = of_nat n" using f(8) by (simp add: content_def)
    show "unat (of_nat n :: u32) = n" using f(3) by (intro unat_of_nat_u32) simp
    then show "(of_nat n :: u32) \<noteq> 0" using f(2) by (metis unat_0 less_irrefl)
  qed
  have top: "\<not> heap_base (kheap u) + heap_size (kheap u) < ?b"
    unfolding heap_top [OF ok(1)] using f(1) heap_state_bounds [OF heap] f(4)
    by (simp add: word_less_nat_alt heap_page_unat)
  have "IS_PAGE_ALIGNED ?b" using f(2,3) by (intro heap_page_parts(3)) simp
  then have run: "release_major ?b s = Inr t"
    using f(7) np top t(1) by (simp add: u(1) liballoc_free_def)
  note outer = outer_lalloc [OF t(4)]
  have client: "same_client s t" using u(11) outer t(4) by (simp add: same_client_def same_outer_def)
  have "content t b" if "b \<in> set (us @ vs)" for b
  proof -
    have "content s b" using heap that unfolding heap_state_def by auto
    moreover have "content t b = content s b"
      by (rule content_cong) (use outer u(4-7) client in \<open>simp_all add: same_client_def\<close>)
    ultimately show ?thesis by simp
  qed
  moreover have "linked t (map addr_of (us @ vs))"
  proof -
    have "dlinked (bypass ?nx ?pv ?b) (bypass ?pv ?nx ?b) 0 (l_memRoot u) (?as @ ?cs)"
    proof (cases "us = []")
      case True
      then have "bypass ?nx ?pv ?b = ?nx" "l_memRoot s = ?b" using links dl by (auto simp: bypass_def fun_eq_iff)
      then show ?thesis using dlinked_bypass_head [of ?nx ?pv 0 "l_memRoot s" ?b ?cs] dl dist True u(8) by simp
    next
      case False
      then have "l_memRoot s \<noteq> ?b" using dl dist by (cases us) auto
      then show ?thesis using dlinked_bypass [OF dl dist] False u(8) by simp
    qed
    moreover have "l_bestBet u = 0 \<or> l_bestBet u \<in> set (?as @ ?cs)" using st(4) u(9) by (auto simp: linked_def)
    ultimately show ?thesis using u(2,3) outer(1,5,6) by (simp add: linked_def)
  qed
  moreover have "spans 0 k (us @ vs)" using spans_remove [OF st(3)] .
  ultimately have "heap_state k U (us @ vs) t" using t(2,3) pages by (simp only: heap_state_def) simp
  moreover have "free_count t = free_count s + n" using t(5) vm(5) by simp
  moreover have "in_use t \<noteq> in_use u" using t(4,5) f(2) by (auto simp: free_count_def same_outer_def)
  then have "in_use t \<subset> in_use s" using t(6) vm(3) by blast
  ultimately show thesis using that [OF run] client faults_pages [OF t(7) f(3)] by blast
qed

section \<open>\<open>kfree\<close>\<close>

lemma minors_of_split:
  "minors_of bs = as @ a # cs \<Longrightarrow> \<exists>us j n xs ys vs. bs = us @ (j, n, xs @ a # ys) # vs \<and>
    as = minors_of us @ xs \<and> cs = ys @ minors_of vs"
proof (induction bs arbitrary: as)
  case (Cons b bs)
  obtain j n zs where b: "b = (j, n, zs)" by (cases b)
  then have "zs @ minors_of bs = as @ a # cs" using Cons.prems by simp
  then consider ys where "zs = as @ a # ys" "cs = ys @ minors_of bs" | ws where "as = zs @ ws" "minors_of bs = ws @ a # cs"
    by (auto simp: append_eq_append_conv2 append_eq_Cons_conv Cons_eq_append_conv)
  then show ?case
  proof cases
    case 1
    then show ?thesis using b by (intro exI [of _ "[]"] exI [of _ j] exI [of _ n] exI [of _ as] exI [of _ ys] exI [of _ bs]) simp
  next
    case (2 ws)
    from Cons.IH [OF 2(2)] obtain us i m xs ys vs where
      "bs = us @ (i, m, xs @ a # ys) # vs" "ws = minors_of us @ xs" "cs = ys @ minors_of vs" by blast
    then show ?thesis using b 2(1)
      by (intro exI [of _ "b # us"] exI [of _ i] exI [of _ m] exI [of _ xs] exI [of _ ys] exI [of _ vs]) simp
  qed
qed simp

text \<open>The minor \<open>a\<close> is taken out of its block, and an empty block out of the heap.\<close>

definition taken :: "nat \<Rightarrow> nat set \<Rightarrow> u32 list \<Rightarrow> u32 \<Rightarrow> 'a lalloc_scheme \<Rightarrow> 'a lalloc_scheme \<Rightarrow> bool" where
  "taken k U as a s t \<longleftrightarrow> (\<exists>bs'. heap_state k U bs' t \<and> full bs' \<and> minors_of bs' = as) \<and>
     min_magic (minor t a) = LIBALLOC_DEAD \<and> (\<forall>x. sizes (minor t x) = sizes (minor s x)) \<and>
     (\<forall>q. unalign q t = unalign q s) \<and> free_count s \<le> free_count t \<and>
     (in_use t = in_use s \<and> (\<forall>b. translate b t = translate b s) \<or>
      in_use t \<subset> in_use s \<and> faults (unat a) (unat a + 24 + unat (min_size (minor s a))) t) \<and>
     if_flag t = if_flag s \<and> payload t = payload s \<and> lalloc.more t = lalloc.more s"

lemma kfree_takes:
  assumes heap: "heap_state k U bs s" "full bs" and minors: "minors_of bs = as @ a # cs"
    and p: "p \<noteq> 0" "unalign p s = a + sizeof_minor" "unat a + 24 \<le> unat p" "unat p \<le> unat a + 24 + unat (min_size (minor s a))"
  shows "\<exists>t. kfree ra p s = Inr t \<and> taken k U (as @ cs) a s t"
proof -
  obtain us j n xs ys vs where bs: "bs = us @ (j, n, xs @ a # ys) # vs" "as = minors_of us @ xs" "cs = ys @ minors_of vs"
    using minors_of_split [OF minors] by blast
  define s0 where "s0 = s\<lparr>enable_int := if_flag s, if_flag := False\<rparr>"
  define t1 where "t1 = unlink_minor a s0"
  let ?b = "heap_page j"
  have vm0: "same_vm s s0" by (simp add: s0_def)
  have heap0: "heap_state k U (us @ (j, n, xs @ a # ys) # vs) s0"
    using heap(1) heap_state_flags [OF vm0] unfolding bs(1) by (simp add: s0_def)
  have ok: "block_ok s0 ?b (xs @ a # ys)" by (rule block_facts(6) [OF heap0, of j n]) simp
  have list: "minors_ok (minors s0) ?b 0 (maj_first (major s0 ?b)) (unat ?b + 24)
      (unat ?b + unat (maj_size (major s0 ?b))) (xs @ a # ys)"
    using ok by (simp add: block_ok_def)
  have a: "min_block (minor s a) = ?b" "min_magic (minor s a) = LIBALLOC_MAGIC"
    using minors_ok_links(3,4) [OF list] by (simp_all add: s0_def)
  note un = unlink_minor_spec [OF ok, folded t1_def]
  have frame: "same_rest ?b s0 t1" using unlink_minor_frame [OF ok] by (simp add: t1_def)
  have heap1: "heap_state k U (us @ (j, n, xs @ ys) # vs) t1"
    by (rule heap_state_block [OF heap0 frame]) (use un in blast)
  have sizes: "\<forall>x. sizes (minor t1 x) = sizes (minor s x)" "min_magic (minor t1 a) = LIBALLOC_DEAD"
    using un by (simp_all add: s0_def)
  have rest: "if_flag t1 = False" "enable_int t1 = if_flag s" "align_bytes t1 = align_bytes s"
    "payload t1 = payload s" "lalloc.more t1 = lalloc.more s"
    by (simp_all add: t1_def unlink_minor_rest) (simp_all add: s0_def)
  have free1: "free_count t1 = free_count s"
    using same_vm_facts(5) [OF vm0] same_vm_facts(5) [of s0 t1] frame by (simp add: same_rest_def)
  have first: "maj_first (major t1 ?b) = 0 \<longleftrightarrow> xs @ ys = []"
  proof -
    have "block_ok t1 ?b (xs @ ys)" using un by blast
    then have "minors_ok (minors t1) ?b 0 (maj_first (major t1 ?b)) (unat ?b + 24)
      (unat ?b + unat (maj_size (major t1 ?b))) (xs @ ys)" by (simp add: block_ok_def)
    then show ?thesis by (cases "xs @ ys") simp_all
  qed
  have mem: "(j, n, xs @ a # ys) \<in> set bs" "a \<in> set (xs @ a # ys)" by (simp_all add: bs(1))
  note range = minor_range [OF heap(1) mem] and size = block_facts(2,4) [OF heap(1) mem(1)]
  have touched: "touch (p - ALIGN_INFO) 1 s = Inr ()" "touch (a + 12) 4 s = Inr ()" "touch a 24 s = Inr ()" "touch ?b 24 s = Inr ()"
  proof -
    have "unat (p - ALIGN_INFO) = unat p - 16" using p(3) by (simp add: u32_sub_no_wrap ALIGN_INFO_def)
    moreover have "unat (a + 12) = unat a + 12" using range unat_lt_2p [of p] p(3) by (simp add: u32_add_no_wrap)
    ultimately show "touch (p - ALIGN_INFO) 1 s = Inr ()" "touch (a + 12) 4 s = Inr ()" "touch a 24 s = Inr ()" "touch ?b 24 s = Inr ()"
      using range size p(3,4) by (intro heap_touch [OF heap(1) mem(1)]; simp)+
  qed
  have touch0: "touch q m s0 = touch q m s" for q m using same_vm_facts(4) [OF vm0] by (simp add: touch_def)
  have run: "kfree ra p s = kbind (if maj_first (major t1 ?b) = 0 then release_major ?b t1 else Inr (better_bet ?b t1)) liballoc_unlock"
    using p a touched by (simp add: kfree_def Let_def liballoc_lock_eq s0_def [symmetric] t1_def [symmetric] touch0) (simp add: s0_def)
  have vm1: "same_vm s t1"
    using vm0 frame by (simp add: same_vm_def same_rest_def)
  note vm1 = same_vm_facts(3,4) [OF vm1]
  obtain t2 bs' where t2: "(if maj_first (major t1 ?b) = 0 then release_major ?b t1 else Inr (better_bet ?b t1)) = Inr t2"
    "heap_state k U bs' t2" "full bs'" "minors_of bs' = as @ cs" "same_client t1 t2" "free_count t1 \<le> free_count t2"
    "in_use t2 = in_use s \<and> (\<forall>b. translate b t2 = translate b s) \<or>
      in_use t2 \<subset> in_use s \<and> faults (unat a) (unat a + 24 + unat (min_size (minor s a))) t2"
  proof (cases "xs @ ys = []")
    case True
    then have "heap_state k U (us @ (j, n, []) # vs) t1" using heap1 by simp
    from release_major_spec [OF this] obtain t2 where "release_major ?b t1 = Inr t2" "heap_state k U (us @ vs) t2"
      "same_client t1 t2" "free_count t2 = free_count t1 + n" "in_use t2 \<subset> in_use t1"
      "faults (3489660928 + 4096 * j) (3489660928 + 4096 * (j + n)) t2" by blast
    moreover from this(6) have "faults (unat a) (unat a + 24 + unat (min_size (minor s a))) t2"
      unfolding faults_def using range by (meson le_trans less_le_trans add_leD1)
    ultimately show thesis using that [of t2 "us @ vs"] first True heap(2) bs vm1(1) by simp
  next
    case False
    let ?t = "better_bet ?b t1"
    have bet: "?t = t1 \<or> ?t = t1\<lparr>l_bestBet := ?b\<rparr>" by (simp add: better_bet_def)
    then have "heap_state k U (us @ (j, n, xs @ ys) # vs) ?t"
      using heap1 heap_state_bets [OF heap1, of ?b] by auto
    moreover have "same_client t1 ?t" "free_count t1 \<le> free_count ?t" using bet by auto
    moreover have "same_vm t1 ?t" using bet by auto
    note vm2 = same_vm_facts(3,4) [OF this]
    have "in_use ?t = in_use s \<and> (\<forall>b. translate b ?t = translate b s)" by (simp add: vm1 vm2)
    moreover have "(if maj_first (major t1 ?b) = 0 then release_major ?b t1 else Inr ?t) = Inr ?t"
      using first False by (simp only: if_False)
    moreover have "full (us @ (j, n, xs @ ys) # vs)" using heap(2) bs False by simp
    ultimately show thesis using that [of ?t "us @ (j, n, xs @ ys) # vs"] bs by simp
  qed
  have fl: "\<not> if_flag t2" using t2(5) rest(1) by (simp add: same_client_def)
  let ?t = "t2\<lparr>if_flag := enable_int t2\<rparr>"
  have "kfree ra p s = Inr ?t" using run t2(1) liballoc_unlock_eq [OF fl] by simp
  moreover have vm2: "same_vm t2 ?t" by simp
  have "heap_state k U bs' ?t" using t2(2) heap_state_flags [OF vm2] by simp
  moreover have "unalign q ?t = unalign q s" for q
    using t2(5) rest(3) by (simp add: same_client_def unalign_def Let_def)
  moreover have "free_count s \<le> free_count ?t" using t2(6) free1 same_vm_facts(5) [OF vm2] by simp
  moreover have "in_use ?t = in_use s \<and> (\<forall>b. translate b ?t = translate b s) \<or>
      in_use ?t \<subset> in_use s \<and> faults (unat a) (unat a + 24 + unat (min_size (minor s a))) ?t"
    using t2(7) same_vm_facts(3,4) [OF vm2] by (simp add: faults_def)
  ultimately show ?thesis
    using t2(3-5) sizes rest unfolding taken_def same_client_def by (intro exI [of _ ?t]) auto
qed

end
