(* ===== verification/HeapClient.thy ===== *)
theory HeapClient
  imports Majors "HOL-Library.Multiset"
begin

text \<open>
  \<open>kmalloc\<close> and \<open>kfree\<close> as their callers see them: the list of the allocations that are live, calls in any
  order on a heap that grows and shrinks by blocks, and the physical memory behind the allocations. The
  contract of an allocator is the locale \<open>allocator\<close>.
\<close>

section \<open>Allocations\<close>

text \<open>An allocation is the pointer and the size that was asked for. \<open>placed\<close>: it lies in the payload of
  the minor \<open>n\<close>, which keeps its size, and \<open>kfree\<close> finds the minor from the pointer.\<close>

type_synonym allocation = "u32 \<times> u32"

definition inside :: "'a lalloc_scheme \<Rightarrow> allocation \<Rightarrow> u32 \<Rightarrow> bool" where
  "inside s = (\<lambda>(p, req) n. unat p mod 16 = 0 \<and> unat n + 24 \<le> unat p \<and>
     unat p + unat req \<le> unat n + 24 + unat (min_size (minor s n)))"

definition placed :: "'a lalloc_scheme \<Rightarrow> allocation \<Rightarrow> u32 \<Rightarrow> bool" where
  "placed s al n \<longleftrightarrow> inside s al n \<and> unalign (fst al) s = n + sizeof_minor \<and> min_req_size (minor s n) = snd al"

text \<open>One allocation ends before another begins.\<close>

definition before :: "allocation \<Rightarrow> allocation \<Rightarrow> bool" where
  "before = (\<lambda>(p, m) (q, k). unat p + unat m < unat q)"

text \<open>No two allocations overlap: one of them ends before the other begins.\<close>

definition apart :: "allocation list \<Rightarrow> bool" where
  "apart = sorted_wrt (\<lambda>a b. before a b \<or> before b a)"

lemma sorted_wrt_symmetric:
  "symp R \<Longrightarrow> sorted_wrt R xs \<longleftrightarrow> (\<forall>x \<in># mset xs. \<forall>y \<in># mset xs - {#x#}. R x y)"
proof (induction xs)
  case (Cons a xs)
  have "(\<forall>x \<in># mset (a # xs). \<forall>y \<in># mset (a # xs) - {#x#}. R x y) \<longleftrightarrow>
      (\<forall>y \<in> set xs. R a y) \<and> (\<forall>x \<in> set xs. \<forall>y \<in># add_mset a (mset xs - {#x#}). R x y)"
    by (auto simp: diff_union_swap)
  then show ?case using Cons by (auto simp: symp_def)
qed simp

lemma apart_sorted:
  assumes "sorted_wrt before bs" "mset bs = mset live"
  shows "apart live"
proof -
  let ?R = "\<lambda>a b. before a b \<or> before b a"
  have "symp ?R" by (auto intro: sympI)
  moreover have "sorted_wrt ?R bs" using assms(1) by (rule sorted_wrt_mono_rel [rotated]) simp
  ultimately show ?thesis by (simp add: apart_def sorted_wrt_symmetric assms(2))
qed

text \<open>The minors of all blocks, in the order of the blocks, lie one behind the other.\<close>

lemma minors_ok_sorted:
  "minors_ok m maj pv p lo hi xs \<Longrightarrow> sorted_wrt (\<lambda>x y. unat x + 24 + unat (min_size (m x)) \<le> unat y) xs"
proof (induction xs arbitrary: pv p lo)
  case (Cons x xs)
  then show ?case using minors_ok_before(2) [of m maj pv p lo hi "[]" x xs] by auto
qed simp

lemma sorted_blocks:
  assumes "spans lo k bs" and "\<And>j n xs. (j, n, xs) \<in> set bs \<Longrightarrow> sorted_wrt R xs"
    and "\<And>j n xs x. (j, n, xs) \<in> set bs \<Longrightarrow> x \<in> set xs \<Longrightarrow> A j \<le> lower x \<and> upper x \<le> A (j + n)"
    and mono: "\<And>i j :: nat. i \<le> j \<Longrightarrow> A i \<le> A j" and R: "\<And>x y. upper x \<le> (lower y :: nat) \<Longrightarrow> R x y"
  shows "sorted_wrt R (minors_of bs)"
  using assms(1-3)
proof (induction lo k bs rule: spans.induct)
  case (2 lo k j n xs bs)
  have "R x y" if x: "x \<in> set xs" and y: "y \<in> set (minors_of bs)" for x y
  proof -
    obtain i m ys where b: "(i, m, ys) \<in> set bs" "y \<in> set ys" using y by (auto simp: minors_of_mem)
    have "j + n \<le> i" using spans_mem [of "j + n" k bs i m ys] b(1) 2(2) by simp
    then have "A (j + n) \<le> A i" by (rule mono)
    moreover have "upper x \<le> A (j + n)" using 2(4) [of j n xs x] x by simp
    moreover have "A i \<le> lower y" using 2(4) [of i m ys y] b by simp
    ultimately show ?thesis by (intro R) linarith
  qed
  moreover have "sorted_wrt R (minors_of bs)"
  proof (rule 2(1))
    show "spans (j + n) k bs" using 2(2) by simp
    show "sorted_wrt R ys" if "(i, m, ys) \<in> set bs" for i m ys using 2(3) [of i m ys] that by simp
    show "A i \<le> lower x \<and> upper x \<le> A (i + m)" if "(i, m, ys) \<in> set bs" "x \<in> set ys" for i m ys x
      using 2(4) [of i m ys x] that by simp
  qed
  moreover have "sorted_wrt R xs" using 2(3) [of j n xs] by simp
  ultimately show ?case by (simp add: sorted_wrt_append)
qed simp

lemma heap_sorted:
  assumes heap: "heap_state k U bs s"
  shows "sorted_wrt (\<lambda>x y. unat x + 24 + unat (min_size (minor s x)) \<le> unat y) (minors_of bs)"
proof (rule sorted_blocks [where A = "\<lambda>j. 3489660928 + 4096 * j" and lower = unat
      and upper = "\<lambda>x. unat x + 24 + unat (min_size (minor s x))"])
  show "spans 0 k bs" using heap by (simp add: heap_state_def)
  fix j n xs assume b: "(j, n, xs) \<in> set bs"
  show "sorted_wrt (\<lambda>x y. unat x + 24 + unat (min_size (minor s x)) \<le> unat y) xs"
    using block_facts(6) [OF heap b] minors_ok_sorted [of "minors s"] by (auto simp: block_ok_def)
  fix x assume "x \<in> set xs"
  then show "3489660928 + 4096 * j \<le> unat x \<and> unat x + 24 + unat (min_size (minor s x)) \<le> 3489660928 + 4096 * (j + n)"
    using minor_range [OF heap b] by fastforce
qed simp_all

lemma list_all2_partner: "list_all2 R xs ys \<Longrightarrow> x \<in> set xs \<Longrightarrow> \<exists>y \<in> set ys. R x y"
  by (induction rule: list_all2_induct) auto

lemma inside_sorted:
  "list_all2 (inside s) als ns \<Longrightarrow> sorted_wrt (\<lambda>x y. unat x + 24 + unat (min_size (minor s x)) \<le> unat y) ns \<Longrightarrow>
    sorted_wrt before als"
proof (induction rule: list_all2_induct)
  case (Cons al als n ns)
  have "before al bl" if bl: "bl \<in> set als" for bl
  proof -
    obtain m where m: "m \<in> set ns" "inside s bl m"
      using list_all2_partner [OF Cons(2) bl] by blast
    have "unat n + 24 + unat (min_size (minor s n)) \<le> unat m" using Cons.prems m(1) by simp
    then show ?thesis using Cons(1) m(2) by (auto simp: inside_def before_def)
  qed
  then show ?case using Cons by simp
qed simp

section \<open>The heap with its live allocations\<close>

definition heap_live :: "nat \<Rightarrow> nat set \<Rightarrow> allocation list \<Rightarrow> 'a lalloc_scheme \<Rightarrow> bool" where
  "heap_live k U live s \<longleftrightarrow>
     (\<exists>bs als. heap_state k U bs s \<and> full bs \<and> mset als = mset live \<and> list_all2 (placed s) als (minors_of bs))"

lemma placed_inside: "list_all2 (placed s) bs xs \<Longrightarrow> list_all2 (inside s) bs xs"
  by (erule list_all2_mono) (simp add: placed_def)

lemma inside_cong:
  assumes "list_all2 (inside s) bs xs" "\<And>x. x \<in> set xs \<Longrightarrow> sizes (minor t x) = sizes (minor s x)"
  shows "list_all2 (inside t) bs xs"
  using assms by (induction rule: list_all2_induct) (auto simp: inside_def sizes_def)

lemma placed_cong:
  assumes "list_all2 (placed s) bs xs" "\<And>x. x \<in> set xs \<Longrightarrow> sizes (minor t x) = sizes (minor s x)"
    and "\<And>al. al \<in> set bs \<Longrightarrow> unalign (fst al) t = unalign (fst al) s"
  shows "list_all2 (placed t) bs xs"
  using assms by (induction rule: list_all2_induct) (auto simp: placed_def inside_def sizes_def)

lemma sorted_before_pointers: "sorted_wrt before bs \<Longrightarrow> distinct (map fst bs)"
  by (induction bs) (auto simp: before_def)

lemma heap_live_Nil: "heap_state k U [] s \<Longrightarrow> heap_live k U [] s"
  by (auto simp: heap_live_def)

lemma full_length: "full bs \<Longrightarrow> length bs \<le> length (minors_of bs) \<and> (\<forall>(j, n, xs) \<in> set bs. length xs \<le> length (minors_of bs))"
proof (induction bs)
  case (Cons b bs)
  then show ?case by (cases b; cases "snd (snd b)") (auto simp: Suc_le_eq intro: le_SucI trans_le_add2)
qed simp

text \<open>No two live allocations overlap, and all of them lie in the pages of the blocks.\<close>

lemma heap_live_layout:
  assumes "heap_live k U live s"
  shows "apart live" and "(q, m) \<in> set live \<Longrightarrow> unat q mod 16 = 0 \<and> 3489660928 + 48 \<le> unat q \<and>
      unat q + unat m \<le> 3489660928 + 4096 * k"
    and "\<exists>bs. heap_state k U bs s \<and> (\<forall>(q, m) \<in> set live. \<exists>j n. {j..<j + n} \<subseteq> block_pages bs \<and>
      3489660928 + 4096 * j \<le> unat q \<and> unat q + unat m \<le> 3489660928 + 4096 * (j + n))"
proof -
  obtain bs als where bs: "heap_state k U bs s" "mset als = mset live" "list_all2 (inside s) als (minors_of bs)"
    using assms by (auto simp: heap_live_def dest: placed_inside)
  show "apart live" by (rule apart_sorted [OF inside_sorted [OF bs(3) heap_sorted [OF bs(1)]] bs(2)])
  have place: "\<exists>j n. {j..<j + n} \<subseteq> block_pages bs \<and> j + n \<le> k \<and> unat q mod 16 = 0 \<and>
      3489660928 + 4096 * j + 48 \<le> unat q \<and> unat q + unat m \<le> 3489660928 + 4096 * (j + n)"
    if "(q, m) \<in> set live" for q m
  proof -
    have "(q, m) \<in> set als" using that bs(2) by (metis set_mset_mset)
    then obtain x where x: "x \<in> set (minors_of bs)" "inside s (q, m) x"
      using list_all2_partner [OF bs(3)] by blast
    then obtain j n xs where b: "(j, n, xs) \<in> set bs" "x \<in> set xs" by (auto simp: minors_of_mem)
    note r = minor_range [OF bs(1) b]
    have "unat q mod 16 = 0" "unat x + 24 \<le> unat q" "unat q + unat m \<le> unat x + 24 + unat (min_size (minor s x))"
      using x(2) by (simp_all add: inside_def)
    moreover have "{j..<j + n} \<subseteq> block_pages bs" using b(1) by (fastforce simp: block_pages_def)
    ultimately show ?thesis
      using r block_facts(1) [OF bs(1) b(1)] by (intro exI [of _ j] exI [of _ n]) linarith
  qed
  then show "\<exists>bs. heap_state k U bs s \<and> (\<forall>(q, m) \<in> set live. \<exists>j n. {j..<j + n} \<subseteq> block_pages bs \<and>
      3489660928 + 4096 * j \<le> unat q \<and> unat q + unat m \<le> 3489660928 + 4096 * (j + n))"
    using bs(1) by (intro exI [of _ bs]) fastforce
  assume "(q, m) \<in> set live"
  from place [OF this] obtain j n where "j + n \<le> k" "unat q mod 16 = 0" "3489660928 + 4096 * j + 48 \<le> unat q"
    "unat q + unat m \<le> 3489660928 + 4096 * (j + n)" by (elim exE conjE) (rule that, assumption+)
  moreover from this(1) have "4096 * (j + n) \<le> 4096 * k" by (rule mult_le_mono2)
  ultimately show "unat q mod 16 = 0 \<and> 3489660928 + 48 \<le> unat q \<and> unat q + unat m \<le> 3489660928 + 4096 * k"
    by linarith
qed

lemma printf_multiple:
  "\<exists>msg. printf (''liballoc: ERROR: multiple PREFIX(free)() attempt on %x from %x.'' @ [CHR 0x0A]) [VInt a, VInt b] s =
    Inr (s\<lparr>con_log := con_log s @ [Printed msg]\<rparr>)"
  by (rule printf_prints) (simp_all add: conversion_width_def)

lemma kfree_dead:
  assumes p: "p \<noteq> 0" and dead: "min_magic (minor s (unalign p s - sizeof_minor)) = LIBALLOC_DEAD"
    and touched: "touch (p - ALIGN_INFO) 1 s = Inr ()" "touch (unalign p s - sizeof_minor + 12) 4 s = Inr ()"
  shows "\<exists>msg. kfree ra p s = Inr (s\<lparr>enable_int := if_flag s, l_errorCount := l_errorCount s + 1,
    con_log := con_log s @ [Printed msg]\<rparr>)"
proof -
  define s0 where "s0 = s\<lparr>enable_int := if_flag s, if_flag := False\<rparr>"
  have "same_vm s s0" by (simp add: s0_def)
  then have "translate q s0 = translate q s" for q by (rule same_vm_facts(4))
  then have touch0: "touch q n s0 = touch q n s" for q n by (simp add: touch_def)
  let ?s1 = "s0\<lparr>l_errorCount := l_errorCount s + 1\<rparr>"
  obtain msg where msg: "printf (''liballoc: ERROR: multiple PREFIX(free)() attempt on %x from %x.'' @ [CHR 0x0A])
      [VInt (unalign p s), VInt ra] ?s1 = Inr (?s1\<lparr>con_log := con_log s @ [Printed msg]\<rparr>)"
    using printf_multiple [of "unalign p s" ra ?s1] by (auto simp: s0_def)
  have magic: "LIBALLOC_DEAD \<noteq> LIBALLOC_MAGIC" "LIBALLOC_DEAD AND 0xFFFFFF \<noteq> LIBALLOC_MAGIC AND 0xFFFFFF"
    "LIBALLOC_DEAD AND 0xFFFF \<noteq> LIBALLOC_MAGIC AND 0xFFFF" "LIBALLOC_DEAD AND 0xFF \<noteq> LIBALLOC_MAGIC AND 0xFF"
    by (simp_all add: LIBALLOC_DEAD_def LIBALLOC_MAGIC_def)
  have "kfree ra p s = bad_magic ra (unalign p s) LIBALLOC_DEAD s0"
    using p dead magic(1) touched touch0 by (simp add: kfree_def Let_def liballoc_lock_eq s0_def)
  also have "\<dots> = liballoc_unlock (?s1\<lparr>con_log := con_log s @ [Printed msg]\<rparr>)"
    using msg magic by (simp only: bad_magic_def Let_def if_False if_True simp_thms kbind_Inr) (simp add: s0_def)
  also have "\<dots> = Inr (s\<lparr>enable_int := if_flag s, l_errorCount := l_errorCount s + 1,
      con_log := con_log s @ [Printed msg]\<rparr>)"
    by (simp add: liballoc_unlock_eq s0_def)
  finally show ?thesis by blast
qed


section \<open>A call of \<open>kmalloc\<close> and of \<open>kfree\<close>\<close>

lemma kmalloc_live:
  assumes heap: "heap_live k U live s" and req: "unat req < 4294963120" and fuel: "2 * length live + 2 < fuel"
    and room: "k + new_pages (req + 32) \<le> 256" and free: "new_pages (req + 32) \<le> free_count s"
  shows "\<exists>p t k'. kmalloc fuel ra req s = Inr (p, t) \<and> p \<noteq> 0 \<and> heap_live k' U ((p, req) # live) t \<and>
    k \<le> k' \<and> k' \<le> k + new_pages (req + 32) \<and> free_count s \<le> free_count t + new_pages (req + 32) \<and>
    if_flag t = if_flag s \<and> payload t = payload s \<and> lalloc.more t = lalloc.more s"
proof -
  obtain bs als where bs: "heap_state k U bs s" "full bs" "mset als = mset live" "list_all2 (placed s) als (minors_of bs)"
    using heap by (auto simp: heap_live_def)
  have len: "length (minors_of bs) = length live" using bs(3) list_all2_lengthD [OF bs(4)] by (metis size_mset)
  then have "short_lists fuel bs" "2 * length bs + 2 < fuel"
    using full_length [OF bs(2)] fuel by (fastforce simp: short_lists_def)+
  have sz: "unat (req + 32) = unat req + 32" using req by (simp add: u32_add_no_wrap)
  then have "req + 32 \<noteq> 0" "unat (req + 32) < 4294963152" using req by auto
  from kmalloc_gives [OF bs(1) this \<open>short_lists fuel bs\<close> \<open>2 * length bs + 2 < fuel\<close> room free, of ra] obtain p t where
    t: "kmalloc fuel ra req s = Inr (p, t)" "given k U bs s req p t" by blast
  from t(2) obtain k' bs' us n vs where g: "heap_state k' U bs' t" "minors_of bs = us @ vs" "minors_of bs' = us @ n # vs"
    "\<forall>x \<in> set (us @ vs). sizes (minor t x) = sizes (minor s x)" "min_req_size (minor t n) = req"
    "min_size (minor t n) = req + 32" "p = payload_of n" "unalign p t = n + sizeof_minor" "\<forall>q. q \<noteq> p \<longrightarrow> unalign q t = unalign q s"
    "k \<le> k'" "k' \<le> k + new_pages (req + 32)" "full bs'" "free_count s \<le> free_count t + new_pages (req + 32)"
    "if_flag t = if_flag s" "payload t = payload s" "lalloc.more t = lalloc.more s"
    using bs(2) unfolding given_def by (elim exE conjE) (rule that, (assumption | erule mp)+)
  obtain b1 b2 where b: "als = b1 @ b2" "list_all2 (placed s) b1 us" "list_all2 (placed s) b2 vs"
    using bs(4) g(2) by (auto simp: list_all2_append2)
  have "n \<in> set (minors_of bs')" using g(3) by simp
  note bounds = given_bounds [OF g(1) this g(6) sz, folded g(7)]
  then have new: "inside t (p, req) n" by (simp add: inside_def)
  have "list_all2 (inside t) b1 us" "list_all2 (inside t) b2 vs"
    using placed_inside [OF b(2)] placed_inside [OF b(3)] g(4) by (auto elim!: inside_cong)
  then have all: "list_all2 (inside t) (b1 @ (p, req) # b2) (us @ n # vs)"
    using new by (simp add: list_all2_appendI)
  have "distinct (map fst (b1 @ (p, req) # b2))"
    by (rule sorted_before_pointers [OF inside_sorted [OF all]]) (use heap_sorted [OF g(1)] g(3) in simp)
  then have other: "fst al \<noteq> p" if "al \<in> set b1 \<union> set b2" for al using that by (auto simp: image_iff)
  have "list_all2 (placed t) b1 us" "list_all2 (placed t) b2 vs"
    using g(4,9) other by (auto intro!: placed_cong [OF b(2)] placed_cong [OF b(3)])
  then have "list_all2 (placed t) (b1 @ (p, req) # b2) (minors_of bs')"
    using new g(3,5,8) by (simp add: list_all2_appendI placed_def)
  moreover have "mset (b1 @ (p, req) # b2) = mset ((p, req) # live)" using bs(3) b(1) by simp
  ultimately have "heap_live k' U ((p, req) # live) t" using g(1,12) unfolding heap_live_def by blast
  moreover have "p \<noteq> 0" using bounds(2) by auto
  ultimately show ?thesis using t(1) g(10,11,13-16) by blast
qed

text \<open>A second call with the pointer of a minor that was taken either finds its header or faults.\<close>

lemma kfree_touches:
  "kfree ra p s = Inr t \<Longrightarrow> p \<noteq> 0 \<Longrightarrow> touch (p - ALIGN_INFO) 1 s = Inr () \<and> touch (unalign p s - sizeof_minor + 12) 4 s = Inr () \<and>
    (min_magic (minor s (unalign p s - sizeof_minor)) = LIBALLOC_MAGIC \<longrightarrow> touch (unalign p s - sizeof_minor) 24 s = Inr ())"
  by (auto simp: kfree_def kbind_eq_Inr Let_def liballoc_lock_eq touch_def translate_def split: if_splits)

lemma kfree_faults:
  "p \<noteq> 0 \<Longrightarrow> translate (p - ALIGN_INFO) s = Inl e \<Longrightarrow> kfree ra p s = Inl e"
  by (simp add: kfree_def touch_def)

definition freed_again :: "u32 \<Rightarrow> u32 \<Rightarrow> 'a lalloc_scheme \<Rightarrow> 'a lalloc_scheme \<Rightarrow> bool" where
  "freed_again ra p s t \<longleftrightarrow> in_use t \<subseteq> in_use s \<and>
     (if in_use t = in_use s
      then \<exists>msg. kfree ra p t = Inr (t\<lparr>enable_int := if_flag t, l_errorCount := l_errorCount t + 1,
        con_log := con_log t @ [Printed msg]\<rparr>)
      else kfree ra p t = Inl (Page_Fault (p - 16)))"

lemma kfree_live:
  assumes heap: "heap_live k U live s" and mem: "(p, req) \<in> set live"
  shows "\<exists>t. kfree ra p s = Inr t \<and> p \<noteq> 0 \<and> heap_live k U (remove1 (p, req) live) t \<and>
    (\<forall>ra'. freed_again ra' p s t) \<and> free_count s \<le> free_count t \<and>
    if_flag t = if_flag s \<and> payload t = payload s \<and> lalloc.more t = lalloc.more s"
proof -
  obtain bs als where bs: "heap_state k U bs s" "full bs" "mset als = mset live" "list_all2 (placed s) als (minors_of bs)"
    using heap by (auto simp: heap_live_def)
  have "(p, req) \<in> set als" using bs(3) mem by (metis set_mset_mset)
  then obtain b1 b2 where b: "als = b1 @ (p, req) # b2" by (meson split_list)
  then obtain us a vs where x: "minors_of bs = us @ a # vs" "list_all2 (placed s) b1 us" "list_all2 (placed s) b2 vs"
    "placed s (p, req) a" using bs(4) by (auto simp: list_all2_append1 list_all2_Cons1)
  have p: "p \<noteq> 0" "unalign p s = a + sizeof_minor" "unat a + 24 \<le> unat p" "unat p \<le> unat a + 24 + unat (min_size (minor s a))"
    using x(4) by (auto simp: placed_def inside_def)
  from kfree_takes [OF bs(1,2) x(1) p, of ra] obtain t where t: "kfree ra p s = Inr t" "taken k U (us @ vs) a s t"
    by blast
  from t(2) obtain bs' where t': "heap_state k U bs' t" "full bs'" "minors_of bs' = us @ vs"
    "min_magic (minor t a) = LIBALLOC_DEAD" "\<forall>x. sizes (minor t x) = sizes (minor s x)"
    "\<forall>q. unalign q t = unalign q s" "free_count s \<le> free_count t"
    "in_use t = in_use s \<and> (\<forall>b. translate b t = translate b s) \<or>
      in_use t \<subset> in_use s \<and> faults (unat a) (unat a + 24 + unat (min_size (minor s a))) t"
    "if_flag t = if_flag s" "payload t = payload s" "lalloc.more t = lalloc.more s"
    by (auto simp: taken_def)
  have "list_all2 (placed t) (b1 @ b2) (minors_of bs')"
    unfolding t'(3) by (rule placed_cong [OF list_all2_appendI [OF x(2,3)]]) (use t'(5,6) in simp_all)
  moreover have "mset (b1 @ b2) = mset (remove1 (p, req) live)"
    using bs(3) b mem by (simp flip: bs(3))
  ultimately have "heap_live k U (remove1 (p, req) live) t" using t'(1,2) unfolding heap_live_def by blast
  moreover have a: "unalign p t - sizeof_minor = a" using t'(6) p(2) by simp
  have "freed_again ra' p s t" for ra'
  proof (cases "in_use t = in_use s")
    case True
    then have "translate b t = translate b s" for b using t'(8) by blast
    then have "touch q n t = touch q n s" for q n by (simp add: touch_def)
    then have "touch (p - ALIGN_INFO) 1 t = Inr ()" "touch (unalign p t - sizeof_minor + 12) 4 t = Inr ()"
      using kfree_touches [OF t(1) p(1)] t'(6) by simp_all
    from kfree_dead [OF p(1) _ this] True show ?thesis by (simp add: freed_again_def a t'(4))
  next
    case False
    then have less: "in_use t \<subset> in_use s" and "faults (unat a) (unat a + 24 + unat (min_size (minor s a))) t"
      using t'(8) by blast+
    moreover have "unat (p - ALIGN_INFO) = unat p - 16" using p(3) by (simp add: u32_sub_no_wrap ALIGN_INFO_def)
    ultimately have "translate (p - ALIGN_INFO) t = Inl (Page_Fault (p - ALIGN_INFO))"
      using p(3,4) by (simp add: faults_def)
    from kfree_faults [OF p(1) this] False less show ?thesis by (auto simp: freed_again_def ALIGN_INFO_def)
  qed
  ultimately show ?thesis using t(1) p(1) t'(7,9-11) by blast
qed

text \<open>What the heap consists of.\<close>

definition heap_same :: "'a lalloc_scheme \<Rightarrow> 'a lalloc_scheme \<Rightarrow> bool" where
  "heap_same s t \<longleftrightarrow> same_vm s t \<and> majors t = majors s \<and> minors t = minors s \<and> align_bytes t = align_bytes s \<and>
     l_memRoot t = l_memRoot s \<and> l_bestBet t = l_bestBet s"

lemma heap_same_live:
  assumes "heap_same s t"
  shows "heap_live k U live t = heap_live k U live s" "free_count t = free_count s"
proof -
  have vm: "same_vm s t" and fields: "majors t = majors s" "minors t = minors s" "align_bytes t = align_bytes s"
      "l_memRoot t = l_memRoot s" "l_bestBet t = l_bestBet s"
    using assms by (simp_all add: heap_same_def)
  have "placed t = placed s" using fields by (simp add: placed_def inside_def unalign_def fun_eq_iff)
  then show "heap_live k U live t = heap_live k U live s"
    by (simp add: heap_live_def heap_state_flags [OF vm fields(1,2,4,5)])
  show "free_count t = free_count s" by (rule same_vm_facts(5) [OF vm])
qed

section \<open>Sequences of calls\<close>

text \<open>A client asks for memory, or gives back the \<open>i\<close>-th of its allocations, the newest first; a client that
  has no \<open>i\<close>-th allocation makes no call.\<close>

datatype heap_call = Alloc u32 | Free nat

fun run_calls :: "(u32 \<Rightarrow> 's \<Rightarrow> (u32 \<times> 's) kres) \<Rightarrow> (u32 \<Rightarrow> 's \<Rightarrow> 's kres) \<Rightarrow> heap_call list \<Rightarrow>
    's \<Rightarrow> allocation list \<Rightarrow> ('s \<times> allocation list) kres" where
  "run_calls alloc free [] s live = Inr (s, live)"
| "run_calls alloc free (Alloc req # cs) s live =
     kbind (alloc req s) (\<lambda>(p, t). run_calls alloc free cs t ((p, req) # live))"
| "run_calls alloc free (Free i # cs) s live =
     (if i < length live
      then kbind (free (fst (live ! i)) s) (\<lambda>t. run_calls alloc free cs t (remove1 (live ! i) live))
      else run_calls alloc free cs s live)"

primrec call_cost :: "(u32 \<Rightarrow> nat) \<Rightarrow> heap_call \<Rightarrow> nat" where
  "call_cost cost (Alloc req) = cost req"
| "call_cost cost (Free i) = 0"

definition calls_cost :: "(u32 \<Rightarrow> nat) \<Rightarrow> heap_call list \<Rightarrow> nat" where
  "calls_cost cost cs = sum_list (map (call_cost cost) cs)"

text \<open>The contract of an allocator with a budget: \<open>ready n live s\<close> says that \<open>live\<close> is allocated in \<open>s\<close> and that requests
  up to the cost \<open>n\<close> will be served.\<close>

locale allocator =
  fixes ready :: "nat \<Rightarrow> allocation list \<Rightarrow> 's \<Rightarrow> bool"
    and alloc :: "u32 \<Rightarrow> 's \<Rightarrow> (u32 \<times> 's) kres" and free :: "u32 \<Rightarrow> 's \<Rightarrow> 's kres"
    and cost :: "u32 \<Rightarrow> nat" and allowed :: "u32 \<Rightarrow> bool" and same :: "'s \<Rightarrow> 's \<Rightarrow> bool"
  assumes alloc_law: "\<lbrakk>ready n live s; allowed req; cost req \<le> n\<rbrakk> \<Longrightarrow>
      \<exists>p t. alloc req s = Inr (p, t) \<and> ready (n - cost req) ((p, req) # live) t \<and> same s t"
    and free_law: "\<lbrakk>ready n live s; (p, req) \<in> set live\<rbrakk> \<Longrightarrow>
      \<exists>t. free p s = Inr t \<and> ready n (remove1 (p, req) live) t \<and> same s t"
    and apart_law: "ready n live s \<Longrightarrow> apart live"
    and same_refl: "same s s" and same_trans: "same s t \<Longrightarrow> same t u \<Longrightarrow> same s u"
begin

lemma run_serves:
  "\<lbrakk>ready n live s; \<forall>req. Alloc req \<in> set cs \<longrightarrow> allowed req; calls_cost cost cs \<le> n\<rbrakk> \<Longrightarrow>
    \<exists>t live'. run_calls alloc free cs s live = Inr (t, live') \<and> ready (n - calls_cost cost cs) live' t \<and> same s t"
proof (induction cs arbitrary: n live s)
  case Nil
  then show ?case by (simp add: calls_cost_def same_refl)
next
  case (Cons c cs)
  show ?case
  proof (cases c)
    case (Alloc req)
    then have n: "cost req \<le> n" "calls_cost cost cs \<le> n - cost req" "allowed req"
      using Cons.prems(2,3) by (simp_all add: calls_cost_def)
    obtain p t where t: "alloc req s = Inr (p, t)" "ready (n - cost req) ((p, req) # live) t" "same s t"
      using alloc_law [OF Cons.prems(1) n(3,1)] by blast
    from Cons.IH [OF t(2) _ n(2)] obtain u live' where u: "run_calls alloc free cs t ((p, req) # live) = Inr (u, live')"
      "ready (n - cost req - calls_cost cost cs) live' u" "same t u" using Cons.prems(2) by auto
    have "run_calls alloc free (c # cs) s live = Inr (u, live')" using t(1) u(1) Alloc by simp
    moreover have "n - cost req - calls_cost cost cs = n - calls_cost cost (c # cs)" by (simp add: calls_cost_def Alloc)
    ultimately show ?thesis using u(2) same_trans [OF t(3) u(3)] by auto
  next
    case (Free i)
    then have n: "calls_cost cost cs \<le> n" "calls_cost cost (c # cs) = calls_cost cost cs"
      using Cons.prems(3) by (simp_all add: calls_cost_def)
    note IH = Cons.IH [OF _ _ n(1)]
    show ?thesis
    proof (cases "i < length live")
      case True
      then have "(fst (live ! i), snd (live ! i)) \<in> set live" by simp
      from free_law [OF Cons.prems(1) this] obtain t where t: "free (fst (live ! i)) s = Inr t"
        "ready n (remove1 (live ! i) live) t" "same s t" by auto
      from IH [OF t(2)] obtain u live' where u: "run_calls alloc free cs t (remove1 (live ! i) live) = Inr (u, live')"
        "ready (n - calls_cost cost cs) live' u" "same t u" using Cons.prems(2) by auto
      have "run_calls alloc free (c # cs) s live = Inr (u, live')" using t(1) u(1) Free True by simp
      then show ?thesis unfolding n(2) using u(2) same_trans [OF t(3) u(3)] by blast
    next
      case False
      then show ?thesis using IH [OF Cons.prems(1)] Cons.prems(2) Free n(2) by (simp add: calls_cost_def)
    qed
  qed
qed

lemma run_apart:
  assumes "ready n live s" "\<forall>req. Alloc req \<in> set cs \<longrightarrow> allowed req" "calls_cost cost cs \<le> n"
  shows "\<exists>t live'. run_calls alloc free cs s live = Inr (t, live') \<and> apart live'"
  using run_serves [OF assms] apart_law by blast

end

text \<open>The kernel's allocator meets the contract: a request costs the pages of a new block.\<close>

definition heap_ready :: "nat \<Rightarrow> nat set \<Rightarrow> nat \<Rightarrow> allocation list \<Rightarrow> 'a lalloc_scheme \<Rightarrow> bool" where
  "heap_ready fuel U n live s \<longleftrightarrow> (\<exists>k. heap_live k U live s \<and> k + n \<le> 256 \<and> n \<le> free_count s \<and>
     2 * (length live + n) + 2 < fuel)"

definition request_pages :: "u32 \<Rightarrow> nat" where
  "request_pages req = new_pages (req + 32)"

definition request_allowed :: "u32 \<Rightarrow> bool" where
  "request_allowed req \<longleftrightarrow> unat req < 4294963120"

lemma request_pages_least: "request_allowed req \<Longrightarrow> 16 \<le> request_pages req"
  unfolding request_allowed_def request_pages_def by (intro new_pages_enough(1)) (simp add: u32_add_no_wrap)

definition same_kernel :: "'a lalloc_scheme \<Rightarrow> 'a lalloc_scheme \<Rightarrow> bool" where
  "same_kernel s t \<longleftrightarrow> if_flag t = if_flag s \<and> payload t = payload s \<and> lalloc.more t = lalloc.more s"

lemma kmalloc_ready:
  assumes "heap_ready fuel U n live s" "request_allowed req" "request_pages req \<le> n"
  shows "\<exists>p t. kmalloc fuel ra req s = Inr (p, t) \<and> heap_ready fuel U (n - request_pages req) ((p, req) # live) t \<and>
    same_kernel s t"
proof -
  obtain k where k: "heap_live k U live s" "k + n \<le> 256" "n \<le> free_count s" "2 * (length live + n) + 2 < fuel"
    using assms(1) by (auto simp: heap_ready_def)
  have "1 \<le> request_pages req" using request_pages_least [OF assms(2)] by simp
  moreover from kmalloc_live [OF k(1), of req fuel ra] obtain p t k' where "kmalloc fuel ra req s = Inr (p, t)"
    "heap_live k' U ((p, req) # live) t" "k' \<le> k + request_pages req" "free_count s \<le> free_count t + request_pages req"
    "same_kernel s t"
    using assms(2,3) k(2-4) by (auto simp: request_allowed_def request_pages_def same_kernel_def)
  ultimately show ?thesis using k(2-4) assms(3)
    by (intro exI [of _ p] exI [of _ t]) (auto simp: heap_ready_def intro!: exI [of _ k'])
qed

lemma kfree_ready:
  assumes "heap_ready fuel U n live s" "(p, req) \<in> set live"
  shows "\<exists>t. kfree ra p s = Inr t \<and> heap_ready fuel U n (remove1 (p, req) live) t \<and> same_kernel s t"
proof -
  obtain k where k: "heap_live k U live s" "k + n \<le> 256" "n \<le> free_count s" "2 * (length live + n) + 2 < fuel"
    using assms(1) by (auto simp: heap_ready_def)
  from kfree_live [OF k(1) assms(2), of ra] obtain t where "kfree ra p s = Inr t"
    "heap_live k U (remove1 (p, req) live) t" "free_count s \<le> free_count t" "same_kernel s t"
    by (auto simp: same_kernel_def)
  moreover have "length (remove1 (p, req) live) \<le> length live" by (simp add: length_remove1)
  ultimately show ?thesis using k(2-4) by (intro exI [of _ t]) (auto simp: heap_ready_def intro!: exI [of _ k])
qed

interpretation kalloc: allocator "heap_ready fuel U" "kmalloc fuel ra" "kfree ra" request_pages request_allowed same_kernel
  for fuel U ra
proof unfold_locales
  fix n live s req
  assume "heap_ready fuel U n live s" "request_allowed req" "request_pages req \<le> n"
  then show "\<exists>p t. kmalloc fuel ra req s = Inr (p, t) \<and>
      heap_ready fuel U (n - request_pages req) ((p, req) # live) t \<and> same_kernel s t"
    by (rule kmalloc_ready)
next
  fix n live s p req
  assume "heap_ready fuel U n live s" "(p, req) \<in> set live"
  then show "\<exists>t. kfree ra p s = Inr t \<and> heap_ready fuel U n (remove1 (p, req) live) t \<and> same_kernel s t"
    by (rule kfree_ready)
next
  show "apart live" if "heap_ready fuel U n live s" for n live s
    using that heap_live_layout(1) unfolding heap_ready_def by blast
qed (simp_all add: same_kernel_def)

section \<open>The memory behind the allocations\<close>

text \<open>A heap without allocations, as \<open>kernel_heap_init\<close> leaves it and as it is again when everything is freed.\<close>

definition heap_empty :: "nat \<Rightarrow> 'a lalloc_scheme \<Rightarrow> bool" where
  "heap_empty k s \<longleftrightarrow> heap_ok k s \<and> frame_of (pmem s (cr3 s) 832) \<noteq> cr3 s \<and> l_memRoot s = 0 \<and> l_bestBet s = 0"

lemma heap_empty_live: "heap_live k U [] s \<longleftrightarrow> heap_empty k s \<and> U = in_use s"
proof -
  have "heap_live k U [] s \<longleftrightarrow> heap_state k U [] s"
  proof
    assume "heap_live k U [] s"
    then obtain bs where "heap_state k U bs s" "full bs" "minors_of bs = []" by (auto simp: heap_live_def)
    then show "heap_state k U [] s" by (cases bs) auto
  qed (rule heap_live_Nil)
  then show ?thesis by (auto simp: heap_state_def heap_empty_def heap_frames_def linked_def)
qed

lemma page_bytes:
  "unat (push_bit 12 (ucast (f :: 20 word)) + (a AND 0xFFF) :: u32) = 4096 * unat f + unat a mod 4096"
proof -
  have f: "unat f < 1048576" using unsigned_less [of f] by simp
  have "(push_bit 12 (ucast f) :: u32) = of_nat (4096 * unat f)"
    by (simp add: push_bit_eq_mult mult.commute)
  then have "unat (push_bit 12 (ucast f) :: u32) = 4096 * unat f"
    using f by (simp only: unat_of_nat_u32)
  moreover have "4096 * unat f + unat a mod 4096 < 4294967296" using f mod_less_divisor [of 4096 "unat a"] by linarith
  ultimately show ?thesis using u32_add_no_wrap [of "push_bit 12 (ucast f)" "a AND 0xFFF"]
    by (simp add: unat_and_0xFFF)
qed

text \<open>The address \<open>a\<close> is one of the bytes of an allocation.\<close>

definition byte_of :: "u32 \<Rightarrow> allocation \<Rightarrow> bool" where
  "byte_of a = (\<lambda>(p, m). unat p \<le> unat a \<and> unat a < unat p + unat m)"

lemma heap_live_bytes:
  assumes heap: "heap_live k U live s"
  shows "\<exists>phys. (\<forall>al \<in> set live. \<forall>a. byte_of a al \<longrightarrow> virt_to_phys a s = Inr (phys a) \<and>
      unat (phys a) div 4096 \<in> in_use s - U) \<and>
    inj_on phys {a. \<exists>al \<in> set live. byte_of a al}"
proof -
  obtain bs where bs: "heap_state k U bs s" and place: "\<forall>(q, m) \<in> set live. \<exists>j n. {j..<j + n} \<subseteq> block_pages bs \<and>
      3489660928 + 4096 * j \<le> unat q \<and> unat q + unat m \<le> 3489660928 + 4096 * (j + n)"
    using heap_live_layout(3) [OF heap] by blast
  obtain F where F: "\<And>i. i \<in> block_pages bs \<Longrightarrow> translate (heap_page i) s = Inr (F i)"
    "inj_on F (block_pages bs)" "in_use s = U \<union> unat ` F ` block_pages bs" "U \<inter> unat ` F ` block_pages bs = {}"
    using bs by (auto simp: heap_state_def heap_frames_def)
  have below: "i < 256" if "i \<in> block_pages bs" for i
    using block_pages_below [of 0 k bs] that bs heap_state_bounds [OF bs] by (auto simp: heap_state_def)
  have rec: "recursive s" using bs by (simp add: heap_state_def heap_ok_def vm_ok_def)
  define page where "page a = unat (a :: u32) div 4096 - 851968" for a
  define phys where "phys a = (push_bit 12 (ucast (F (page a))) + (a AND 0xFFF) :: u32)" for a
  have page: "page a \<in> block_pages bs \<and> unat a div 4096 = 851968 + page a" if al: "al \<in> set live" "byte_of a al" for a al
  proof -
    obtain j n where jn: "{j..<j + n} \<subseteq> block_pages bs" "3489660928 + 4096 * j \<le> unat a"
        "unat a < 3489660928 + 4096 * (j + n)"
      using place al by (fastforce simp: byte_of_def)
    have "851968 + j \<le> unat a div 4096" using jn(2) by linarith
    moreover have "unat a div 4096 < 851968 + (j + n)" using jn(3) by (intro less_mult_imp_div_less) simp
    ultimately have "page a \<in> {j..<j + n}" "unat a div 4096 = 851968 + page a" by (auto simp: page_def)
    with jn(1) show ?thesis by blast
  qed
  have parts: "unat (phys a) div 4096 = unat (F (page a))" "unat (phys a) mod 4096 = unat a mod 4096" for a
    unfolding phys_def page_bytes by simp_all
  have one: "virt_to_phys a s = Inr (phys a) \<and> unat (phys a) div 4096 \<in> in_use s - U" if "al \<in> set live" "byte_of a al" for a al
  proof -
    note p = page [OF that]
    have "translate a s = Inr (F (page a))"
      using translate_heap_page [of "page a" a s] F(1) p below [of "page a"] by force
    then show ?thesis using virt_to_phys_translate [OF rec, of a] F(3,4) p parts(1) by (auto simp: phys_def)
  qed
  have "a = b" if ab: "al \<in> set live" "byte_of a al" "bl \<in> set live" "byte_of b bl" "phys a = phys b" for a b al bl
  proof -
    note a = page [OF ab(1,2)] and b = page [OF ab(3,4)]
    have "F (page a) = F (page b)" "unat a mod 4096 = unat b mod 4096"
      using parts [of a] parts [of b] ab(5) by (auto simp: word_unat_eq_iff)
    then have "unat a div 4096 = unat b div 4096" using a b F(2) by (metis inj_onD)
    then have "unat a = unat b" using \<open>unat a mod 4096 = unat b mod 4096\<close> by (metis div_mult_mod_eq)
    then show ?thesis by (simp add: word_unat_eq_iff)
  qed
  then have "inj_on phys {a. \<exists>al \<in> set live. byte_of a al}" by (intro inj_onI) blast
  with one show ?thesis by blast
qed

section \<open>Runs from an empty heap\<close>

lemma heap_run:
  assumes "heap_empty k s" "\<forall>req. Alloc req \<in> set cs \<longrightarrow> request_allowed req" "514 < fuel"
    and "k + calls_cost request_pages cs \<le> 256" "calls_cost request_pages cs \<le> free_count s"
  shows "\<exists>t live k'. run_calls (kmalloc fuel ra) (kfree ra) cs s [] = Inr (t, live) \<and> heap_live k' (in_use s) live t \<and>
    k' \<le> 256 \<and> same_kernel s t"
proof -
  have "heap_ready fuel (in_use s) (calls_cost request_pages cs) [] s"
    using assms heap_empty_live [of k "in_use s" s] by (auto simp: heap_ready_def)
  from kalloc.run_serves [OF this assms(2) order.refl, of ra] show ?thesis by (auto simp: heap_ready_def)
qed

section \<open>Properties\<close>

text \<open>C16. A request within the limits of the heap is served, whatever the calls before were, from a block that has
  room or from a new one: \<open>kmalloc\<close> returns a pointer that is no null pointer and a multiple of 16, its bytes lie
  in the pages of the heap and in no live allocation, the heap stays well formed with the allocation live, and the
  content of the allocations, the interrupt flag and the rest of the kernel are as before.\<close>

theorem kmalloc_serves:
  assumes "heap_live k U live s" and "request_allowed req" and "2 * length live + 2 < fuel"
    and "k + request_pages req \<le> 256" and "request_pages req \<le> free_count s"
  shows "\<exists>p t k'. kmalloc fuel ra req s = Inr (p, t) \<and> heap_live k' U ((p, req) # live) t \<and>
    k \<le> k' \<and> k' \<le> k + request_pages req \<and> p \<noteq> 0 \<and> unat p mod 16 = 0 \<and> 0xD0000000 + 48 \<le> unat p \<and>
    unat p + unat req \<le> 0xD0000000 + 4096 * k' \<and>
    (\<forall>al \<in> set live. before (p, req) al \<or> before al (p, req)) \<and> same_kernel s t"
proof -
  obtain p t k' where t: "kmalloc fuel ra req s = Inr (p, t)" "p \<noteq> 0" "heap_live k' U ((p, req) # live) t"
      "k \<le> k'" "k' \<le> k + request_pages req" "same_kernel s t"
    using kmalloc_live [OF assms(1) _ assms(3), of req ra] assms(2,4,5)
    by (auto simp: request_allowed_def request_pages_def same_kernel_def)
  have "\<forall>al \<in> set live. before (p, req) al \<or> before al (p, req)"
    using heap_live_layout(1) [OF t(3)] by (simp add: apart_def)
  then show ?thesis using t heap_live_layout(2) [OF t(3), of p req] by (intro exI [of _ p] exI [of _ t] exI [of _ k']) simp
qed

text \<open>C17. Freeing takes back what \<open>kmalloc\<close> gave: \<open>kfree\<close> of any live allocation returns, also of the last one of
  a block, whose pages go back to the kernel; the heap stays well formed with exactly the other allocations live, and
  when there is no other one, all pages of the heap are back. A second \<open>kfree\<close> of the same pointer is reported and
  changes neither majors nor minors if no page was given back; otherwise the header it reads in front of the pointer is
  no longer mapped, and it ends in a page fault.\<close>

theorem kfree_frees:
  assumes "heap_live k U live s" and "(p, req) \<in> set live"
  shows "\<exists>t. kfree ra p s = Inr t \<and> heap_live k U (remove1 (p, req) live) t \<and> same_kernel s t \<and>
    in_use t \<subseteq> in_use s \<and> (live = [(p, req)] \<longrightarrow> in_use t = U) \<and>
    (\<forall>ra'. if in_use t = in_use s
      then \<exists>msg. kfree ra' p t = Inr (t\<lparr>enable_int := if_flag t, l_errorCount := l_errorCount t + 1,
        con_log := con_log t @ [Printed msg]\<rparr>)
      else kfree ra' p t = Inl (Page_Fault (p - 16)))"
proof -
  obtain t where t: "kfree ra p s = Inr t" "\<And>ra'. freed_again ra' p s t"
      "heap_live k U (remove1 (p, req) live) t" "same_kernel s t"
    using kfree_live [OF assms] by (auto simp: same_kernel_def)
  moreover have "in_use t = U" if "live = [(p, req)]" using t(3) that by (simp add: heap_empty_live)
  ultimately show ?thesis unfolding freed_again_def by blast
qed

text \<open>C13. Allocations never overlap: any sequence of \<open>kmalloc\<close> and \<open>kfree\<close> calls on a heap without allocations
  returns, as long as the pages for its requests are there, and then each of two live allocations ends before the
  other begins, and all of them are aligned to 16 bytes and lie in the range of the kernel heap.\<close>

theorem allocations_never_overlap:
  assumes "heap_empty k s" and "\<forall>req. Alloc req \<in> set cs \<longrightarrow> request_allowed req" and "514 < fuel"
    and "k + calls_cost request_pages cs \<le> 256" and "calls_cost request_pages cs \<le> free_count s"
  shows "\<exists>t live. run_calls (kmalloc fuel ra) (kfree ra) cs s [] = Inr (t, live) \<and> same_kernel s t \<and> apart live \<and>
    (\<forall>(q, m) \<in> set live. unat q mod 16 = 0 \<and> 0xD0000000 + 48 \<le> unat q \<and> unat q + unat m \<le> 0xD0000000 + 0x100000)"
proof -
  obtain t live k' where t: "run_calls (kmalloc fuel ra) (kfree ra) cs s [] = Inr (t, live)" "same_kernel s t"
    "heap_live k' (in_use s) live t" "k' \<le> 256"
    using heap_run [OF assms] by blast
  moreover have "4096 * k' \<le> 1048576" using t(4) by simp
  ultimately show ?thesis
    using heap_live_layout(1,2) [OF t(3)] by (intro exI [of _ t] exI [of _ live]) fastforce
qed

text \<open>C14. The memory of the allocations is private: after any such sequence of calls, each byte of a live allocation
  is mapped, \<open>virt_to_phys\<close> gives different bytes different physical addresses, and these lie in pages that were
  free before the first call and are marked as used.\<close>

theorem heap_memory_is_private:
  assumes "heap_empty k s" and "\<forall>req. Alloc req \<in> set cs \<longrightarrow> request_allowed req" and "514 < fuel"
    and "k + calls_cost request_pages cs \<le> 256" and "calls_cost request_pages cs \<le> free_count s"
  shows "\<exists>t live phys. run_calls (kmalloc fuel ra) (kfree ra) cs s [] = Inr (t, live) \<and>
    (\<forall>al \<in> set live. \<forall>a. byte_of a al \<longrightarrow> virt_to_phys a t = Inr (phys a) \<and>
      unat (phys a) div 4096 \<in> in_use t - in_use s) \<and>
    inj_on phys {a. \<exists>al \<in> set live. byte_of a al}"
  using heap_run [OF assms, of ra] heap_live_bytes by blast

text \<open>C15. Nothing is lost: when a sequence of calls ends with no allocation live, exactly the physical pages
  that were used before are used again, and the list of blocks is empty as before.\<close>

theorem everything_freed_gives_back:
  assumes "heap_empty k s" and "\<forall>req. Alloc req \<in> set cs \<longrightarrow> request_allowed req" and "514 < fuel"
    and "k + calls_cost request_pages cs \<le> 256" and "calls_cost request_pages cs \<le> free_count s"
    and "run_calls (kmalloc fuel ra) (kfree ra) cs s [] = Inr (t, [])"
  shows "in_use t = in_use s \<and> (\<exists>k'. heap_empty k' t)"
proof -
  obtain k' where "heap_live k' (in_use s) [] t" using heap_run [OF assms(1-5), of ra] assms(6) by auto
  then show ?thesis using heap_empty_live [of k' "in_use s" t] by auto
qed

text \<open>C36. The size of a request is not checked for overflow: for the 31 largest values of \<open>size_t\<close>, \<open>kmalloc\<close> on any
  heap with room for one more block succeeds and notes the size that was asked for, but the minor has fewer than 32 bytes,
  the pointer lies in the range of the heap, and fewer than 16 bytes of the minor lie behind it.\<close>

theorem kmalloc_size_wraps:
  assumes "heap_live k U live s" and "0xFFFFFFE0 < req" and "2 * length live + 2 < fuel"
    and "k + 16 \<le> 256" and "16 \<le> free_count s"
  shows "\<exists>p t n. kmalloc fuel ra req s = Inr (p, t) \<and> p \<noteq> 0 \<and> unalign p t = n + sizeof_minor \<and>
    0xD0000000 + 24 \<le> unat n \<and> unat n + 24 + unat (min_size (minor t n)) \<le> 0xD0000000 + 0x100000 \<and>
    min_req_size (minor t n) = req \<and> unat (min_size (minor t n)) = unat req + 32 - 2 ^ 32 \<and>
    unat n + 24 + unat (min_size (minor t n)) < unat p + 16 \<and> same_kernel s t"
proof -
  obtain bs als where bs: "heap_state k U bs s" "full bs" "mset als = mset live" "list_all2 (placed s) als (minors_of bs)"
    using assms(1) by (auto simp: heap_live_def)
  have "length (minors_of bs) = length live" using bs(3) list_all2_lengthD [OF bs(4)] by (metis size_mset)
  then have lists: "short_lists fuel bs" "2 * length bs + 2 < fuel"
    using full_length [OF bs(2)] assms(3) by (fastforce simp: short_lists_def)+
  have r: "4294967264 < unat req" "unat req < 4294967296"
    using assms(2) unat_lt_2p [of req] by (simp_all add: word_less_nat_alt)
  have "unat (req + 32) = (unat req + 32) mod 4294967296" by (simp add: unat_word_ariths)
  then have sz: "unat (req + 32) = unat req + 32 - 2 ^ 32" using r by (simp add: mod_if)
  then have small: "0 < unat (req + 32)" "unat (req + 32) < 32" using r by simp_all
  then have ne: "req + 32 \<noteq> 0" "unat (req + 32) < 4294963152" by auto
  have pages: "new_pages (req + 32) = 16" using small new_pages_eq [of "req + 32"] by simp
  from kmalloc_gives [OF bs(1) ne lists, of ra] obtain p t where
    t: "kmalloc fuel ra req s = Inr (p, t)" "given k U bs s req p t" using assms(4,5) pages by auto
  from t(2) obtain k' bs' us n vs where g': "heap_state k' U bs' t" "minors_of bs' = us @ n # vs" "min_req_size (minor t n) = req"
    "min_size (minor t n) = req + 32" "p = payload_of n" "unalign p t = n + sizeof_minor"
    "if_flag t = if_flag s" "payload t = payload s" "lalloc.more t = lalloc.more s"
    unfolding given_def by (elim exE conjE) (rule that, assumption+)
  then have g: "heap_state k' U bs' t" "n \<in> set (minors_of bs')" "min_req_size (minor t n) = req"
    "min_size (minor t n) = req + 32" "p = payload_of n" "unalign p t = n + sizeof_minor" "same_kernel s t"
    by (simp_all add: same_kernel_def)
  obtain j m xs where b: "(j, m, xs) \<in> set bs'" "n \<in> set xs" using g(2) by (auto simp: minors_of_mem)
  note range = minor_range [OF g(1) b] and le = block_facts(3) [OF g(1) b(1)]
  have "4096 * (j + m) \<le> 4096 * 256" using le by (rule mult_le_mono2)
  then have top: "unat n + 24 + unat (min_size (minor t n)) \<le> 3489660928 + 1048576" using range(2) by linarith
  have "unat n + 24 + unat (32 :: u32) < 4294967296" using top by simp
  from payload_bounds(2) [OF this, of 0] have "unat n + 40 \<le> unat p" by (simp add: g(5))
  moreover from this have "p \<noteq> 0" by auto
  moreover have size: "unat (min_size (minor t n)) = unat req + 32 - 2 ^ 32" unfolding g(4) by (rule sz)
  moreover have "unat (min_size (minor t n)) < 32" unfolding g(4) by (rule small)
  moreover have "0xD0000000 + 24 \<le> unat n" using range(1) by simp
  ultimately show ?thesis
    using t(1) g(3,6,7) top by (intro exI [of _ p] exI [of _ t] exI [of _ n] conjI) (assumption | linarith)+
qed

section \<open>Concrete calls\<close>

definition lalloc_empty :: lalloc where
  "lalloc_empty = lalloc_zero\<lparr>l_memRoot := 0\<rparr>"

lemma lalloc_empty_heap: "heap_empty 0 lalloc_empty" and lalloc_empty_free: "free_count lalloc_empty = 8192"
proof -
  have vm: "pmem lalloc_empty = pmem kheap_zero" "cr3 lalloc_empty = cr3 kheap_zero" "kheap lalloc_empty = kheap kheap_zero"
    "page_bitmap lalloc_empty = page_bitmap kheap_zero" "page_count lalloc_empty = page_count kheap_zero"
    and list: "l_memRoot lalloc_empty = 0" "l_bestBet lalloc_empty = 0"
    by (simp_all add: lalloc_empty_def lalloc_zero_def kernel_heap.defs kheap_zero_def)
  have eq: "in_use lalloc_empty = in_use kheap_zero" "page_limit lalloc_empty = page_limit kheap_zero"
    "pages_ok lalloc_empty = pages_ok kheap_zero" "slot_free a lalloc_empty = slot_free a kheap_zero" for a
    by (simp_all add: in_use_def page_limit_def pages_ok_def slot_free_def vm)
  show "free_count lalloc_empty = 8192" using kheap_zero_free by (simp add: free_count_def eq)
  have "heap_ok 0 lalloc_empty" using kheap_zero_ok by (simp add: heap_ok_def vm_ok_def recursive_def eq vm)
  moreover have "frame_of (pmem kheap_zero (cr3 kheap_zero) 832) \<noteq> cr3 kheap_zero"
    by (simp add: kheap_zero_vm vm_zero_entries frame_of_def drop_bit_eq_div) 
  ultimately show "heap_empty 0 lalloc_empty" by (simp add: heap_empty_def vm list)
qed

text \<open>Two blocks are needed for these calls; the second is given back.\<close>

abbreviation some_calls :: "heap_call list" where
  "some_calls \<equiv> [Alloc 300, Alloc 100000, Alloc 5000, Free 1, Alloc 40]"

lemma request_pages_eq:
  "request_allowed req \<Longrightarrow> request_pages req = max 16 ((unat req + 4175) div 4096)"
  using new_pages_eq [of "req + 32"]
  by (simp add: request_allowed_def request_pages_def u32_add_no_wrap add.commute [of _ "unat req"])

lemma some_calls_facts: "\<forall>req. Alloc req \<in> set some_calls \<longrightarrow> request_allowed req"
  "calls_cost request_pages some_calls = 73"
  by (auto simp: request_allowed_def calls_cost_def request_pages_eq)

theorem kmalloc_serves_witness:
  "\<exists>p t k'. kmalloc 515 0 100 lalloc_empty = Inr (p, t) \<and> heap_live k' (in_use lalloc_empty) [(p, 100)] t \<and>
    unat p mod 16 = 0"
proof -
  have "heap_live 0 (in_use lalloc_empty) [] lalloc_empty" using lalloc_empty_heap by (simp add: heap_empty_live)
  from kmalloc_serves [OF this, of 100 515 0] lalloc_empty_free show ?thesis
    by (auto simp: request_allowed_def request_pages_eq)
qed

text \<open>4294967280 bytes from the heap as \<open>kernel_heap_init\<close> leaves it.\<close>

theorem kmalloc_size_wraps_witness:
  "\<exists>p t n. kmalloc 515 0 0xFFFFFFF0 lalloc_empty = Inr (p, t) \<and> p \<noteq> 0 \<and> min_req_size (minor t n) = 0xFFFFFFF0 \<and>
    unat (min_size (minor t n)) = 16 \<and> unat n + 24 + 16 < unat p + 16"
proof -
  have "heap_live 0 (in_use lalloc_empty) [] lalloc_empty" using lalloc_empty_heap by (simp add: heap_empty_live)
  from kmalloc_size_wraps [OF this, of "0xFFFFFFF0" 515 0] lalloc_empty_free show ?thesis by auto
qed

lemma lalloc_empty_one:
  "\<exists>p s k. kmalloc 515 0 100 lalloc_empty = Inr (p, s) \<and> heap_live k (in_use lalloc_empty) [(p, 100)] s"
proof -
  have "heap_live 0 (in_use lalloc_empty) [] lalloc_empty" using lalloc_empty_heap by (simp add: heap_empty_live)
  from kmalloc_live [OF this, of 100 515 0] lalloc_empty_free request_pages_eq [of 100] show ?thesis
    by (auto simp: request_allowed_def request_pages_def)
qed

text \<open>The only allocation of its block: a second call faults.\<close>

theorem kfree_frees_witness:
  "\<exists>p s t. kmalloc 515 0 100 lalloc_empty = Inr (p, s) \<and> kfree 0 p s = Inr t \<and> in_use t = in_use lalloc_empty \<and>
    kfree 0 p t = Inl (Page_Fault (p - 16))"
proof -
  obtain p s k where s: "kmalloc 515 0 100 lalloc_empty = Inr (p, s)" "heap_live k (in_use lalloc_empty) [(p, 100)] s"
    using lalloc_empty_one by blast
  from kfree_frees [OF s(2), of p 100 0] obtain t where t: "kfree 0 p s = Inr t" "in_use t = in_use lalloc_empty"
    "in_use t \<noteq> in_use s \<Longrightarrow> kfree 0 p t = Inl (Page_Fault (p - 16))" by auto
  have "byte_of p (p, 100)" by (simp add: byte_of_def)
  then have "\<exists>x. x \<in> in_use s - in_use lalloc_empty" using heap_live_bytes [OF s(2)] by fastforce
  with s(1) t show ?thesis by auto
qed

theorem everything_freed_gives_back_witness:
  "\<exists>t. run_calls (kmalloc 515 0) (kfree 0) [Alloc 100, Free 0] lalloc_empty [] = Inr (t, []) \<and>
    in_use t = in_use lalloc_empty"
proof -
  obtain p s k where s: "kmalloc 515 0 100 lalloc_empty = Inr (p, s)" "heap_live k (in_use lalloc_empty) [(p, 100)] s"
    using lalloc_empty_one by blast
  from kfree_live [OF s(2), of p 100 0] obtain t where t: "kfree 0 p s = Inr t" by auto
  let ?cs = "[Alloc 100, Free 0]"
  have run: "run_calls (kmalloc 515 0) (kfree 0) ?cs lalloc_empty [] = Inr (t, [])" using s(1) t by simp
  have "\<forall>req. Alloc req \<in> set ?cs \<longrightarrow> request_allowed req" "calls_cost request_pages ?cs = 16"
    by (auto simp: request_allowed_def calls_cost_def request_pages_eq)
  from everything_freed_gives_back [OF lalloc_empty_heap this(1) _ _ _ run] this(2) run lalloc_empty_free
  show ?thesis by auto
qed

theorem allocations_never_overlap_witness:
  "\<exists>t live. run_calls (kmalloc 515 0) (kfree 0) some_calls lalloc_empty [] = Inr (t, live) \<and> apart live"
  using allocations_never_overlap [OF lalloc_empty_heap some_calls_facts(1), of 515 0] some_calls_facts(2) lalloc_empty_free
  by auto

theorem heap_memory_is_private_witness:
  "\<exists>t live phys. run_calls (kmalloc 515 0) (kfree 0) some_calls lalloc_empty [] = Inr (t, live) \<and>
    inj_on phys {a. \<exists>al \<in> set live. byte_of a al} \<and>
    (\<forall>al \<in> set live. \<forall>a. byte_of a al \<longrightarrow> virt_to_phys a t = Inr (phys a))"
  using heap_memory_is_private [OF lalloc_empty_heap some_calls_facts(1), of 515 0] some_calls_facts(2) lalloc_empty_free
  by fastforce

end
