(* ===== verification/Cpu.thy ===== *)
theory Cpu
  imports Liballoc
begin

text \<open>
  \<open>kernel/arch/i386/cpu.c\<close> and \<open>kernel/arch/i386/proc/task.c\<close>: the global and the interrupt descriptor
  table and the task state segment. The addresses of the tables, of the interrupt stubs
  (\<open>isr0\<close>, ..., assembly) and of the kernel stack are link-time constants and appear as arguments. The
  registers loaded by \<open>lgdt\<close>, \<open>lidt\<close> and \<open>ltr\<close> are part of the state.
\<close>

record gdt_entry =
  limit_low :: u16
  base_low :: "24 word"
  gdt_access :: u8
  limit_high :: "4 word"
  granularity :: "4 word"
  gdt_base_high :: u8

record idt_entry =
  idt_base_low :: u16
  selector :: u16
  idt_access :: u8
  idt_base_high :: u16

record tss_entry =
  prev_tss :: u32
  esp0 :: u32
  ss0 :: u32

record cpu = lalloc +
  gdt_entries :: "gdt_entry list"
  idt_entries :: "idt_entry list"
  gdt_reg :: "u16 \<times> u32"
  idt_reg :: "u16 \<times> u32"
  g_kernel_tss :: tss_entry
  task_reg :: u16

definition INT_NUM_INTERRUPTS :: nat where "INT_NUM_INTERRUPTS = 49"
definition NUM_GDT_ENTRIES :: nat where "NUM_GDT_ENTRIES = 6"
definition KERN_CODE_SELECTOR :: u16 where "KERN_CODE_SELECTOR = 0x8"
definition KERN_DATA_SELECTOR :: u16 where "KERN_DATA_SELECTOR = 0x10"

definition SEL_PRESENT :: u8 where "SEL_PRESENT = 0x80"
definition SEL_RING3 :: u8 where "SEL_RING3 = 0x60"
definition GDT_NOT_TSS :: u8 where "GDT_NOT_TSS = 0x10"
definition GDT_CODE :: u8 where "GDT_CODE = 0x08"
definition GDT_CODE_READABLE :: u8 where "GDT_CODE_READABLE = 0x02"
definition GDT_DATA_WRITABLE :: u8 where "GDT_DATA_WRITABLE = 0x02"
definition GDT_TSS :: u8 where "GDT_TSS = 0x01"
definition GDT_TSS_32BIT :: u8 where "GDT_TSS_32BIT = 0x08"
definition GDT_GRAN_32BIT :: u8 where "GDT_GRAN_32BIT = 0x08"
definition GDT_GRAN_PAGE :: u8 where "GDT_GRAN_PAGE = 0x04"
definition GDT_GRAN_AVAILABLE :: u8 where "GDT_GRAN_AVAILABLE = 0x01"
definition GDT_KERN_CODE :: u8 where "GDT_KERN_CODE = SEL_PRESENT OR GDT_NOT_TSS OR GDT_CODE OR GDT_CODE_READABLE"
definition GDT_KERN_DATA :: u8 where "GDT_KERN_DATA = SEL_PRESENT OR GDT_NOT_TSS OR GDT_DATA_WRITABLE"
definition GDT_USER_CODE :: u8 where "GDT_USER_CODE = GDT_KERN_CODE OR SEL_RING3"
definition GDT_USER_DATA :: u8 where "GDT_USER_DATA = GDT_KERN_DATA OR SEL_RING3"
definition GDT_KERN_TSS :: u8 where "GDT_KERN_TSS = SEL_PRESENT OR GDT_TSS OR GDT_TSS_32BIT"
definition GDT_USER_TSS :: u8 where "GDT_USER_TSS = GDT_KERN_TSS OR SEL_RING3"
definition GDT_DEFAULT_GRAN :: u8 where "GDT_DEFAULT_GRAN = GDT_GRAN_PAGE OR GDT_GRAN_32BIT"
definition GDT_TSS_GRAN :: u8 where "GDT_TSS_GRAN = GDT_GRAN_AVAILABLE"
definition IDT_INTERRUPT :: u8 where "IDT_INTERRUPT = 0x0E"
definition IDT_KERN_INT :: u8 where "IDT_KERN_INT = SEL_PRESENT OR IDT_INTERRUPT"
definition IDT_USER_INT :: u8 where "IDT_USER_INT = IDT_KERN_INT OR SEL_RING3"

lemmas gdt_flags = SEL_PRESENT_def SEL_RING3_def GDT_NOT_TSS_def GDT_CODE_def GDT_CODE_READABLE_def
  GDT_DATA_WRITABLE_def GDT_TSS_def GDT_TSS_32BIT_def GDT_GRAN_32BIT_def GDT_GRAN_PAGE_def
  GDT_GRAN_AVAILABLE_def GDT_KERN_CODE_def GDT_KERN_DATA_def GDT_USER_CODE_def GDT_USER_DATA_def
  GDT_KERN_TSS_def GDT_USER_TSS_def GDT_DEFAULT_GRAN_def GDT_TSS_GRAN_def IDT_INTERRUPT_def
  IDT_KERN_INT_def IDT_USER_INT_def

definition zero_gdt_entry :: gdt_entry where
  "zero_gdt_entry = \<lparr>limit_low = 0, base_low = 0, gdt_access = 0, limit_high = 0, granularity = 0, gdt_base_high = 0\<rparr>"

definition zero_idt_entry :: idt_entry where
  "zero_idt_entry = \<lparr>idt_base_low = 0, selector = 0, idt_access = 0, idt_base_high = 0\<rparr>"

section \<open>Operations\<close>

definition set_gdt_gate :: "u8 \<Rightarrow> u32 \<Rightarrow> u32 \<Rightarrow> u8 \<Rightarrow> u8 \<Rightarrow> 'a cpu_scheme \<Rightarrow> ('a cpu_scheme) kres" where
  "set_gdt_gate num base limit acc gran s =
     (if unat num < length (gdt_entries s) then
        let e1 = (gdt_entries s ! unat num)\<lparr>base_low := ucast (base AND 0xFFFFFF),
                   gdt_base_high := ucast (drop_bit 24 base AND 0xFF)\<rparr>
        in kbind (panic_if (limit AND 0xFFF00000 \<noteq> 0) ''limit out of range'') (\<lambda>_.
           let e2 = e1\<lparr>limit_low := ucast (limit AND 0xFFFF), limit_high := ucast (drop_bit 16 limit AND 0x0F)\<rparr>
           in kbind (panic_if (gran AND 0xF0 \<noteq> 0) ''granularity out of range'') (\<lambda>_.
              Inr (s\<lparr>gdt_entries := (gdt_entries s)[unat num :=
                e2\<lparr>granularity := ucast (gran AND 0x0F), gdt_access := acc\<rparr>]\<rparr>)))
      else Inl (Undefined ''gdt_entries[]''))"

definition set_idt_gate :: "u8 \<Rightarrow> u32 \<Rightarrow> u16 \<Rightarrow> u8 \<Rightarrow> 'a cpu_scheme \<Rightarrow> ('a cpu_scheme) kres" where
  "set_idt_gate num base sel acc s =
     (if unat num < length (idt_entries s) then
        Inr (s\<lparr>idt_entries := (idt_entries s)[unat num := \<lparr>idt_base_low = ucast (base AND 0xFFFF), selector = sel,
          idt_access = acc, idt_base_high = ucast (drop_bit 16 base AND 0xFFFF)\<rparr>]\<rparr>)
      else Inl (Undefined ''idt_entries[]''))"

text \<open>Gates \<open>i\<close> to \<open>i + n - 1\<close>, all kernel interrupt gates; \<open>isr\<close> gives the address of each stub.\<close>

primrec fill_gates :: "nat \<Rightarrow> nat \<Rightarrow> (nat \<Rightarrow> u32) \<Rightarrow> 'a cpu_scheme \<Rightarrow> ('a cpu_scheme) kres" where
  "fill_gates 0 i isr s = Inr s"
| "fill_gates (Suc n) i isr s =
     kbind (set_idt_gate (of_nat i) (isr i) KERN_CODE_SELECTOR IDT_KERN_INT s) (fill_gates n (Suc i) isr)"

definition fill_idt :: "(nat \<Rightarrow> u32) \<Rightarrow> 'a cpu_scheme \<Rightarrow> ('a cpu_scheme) kres" where
  "fill_idt isr s =
     kbind (fill_gates 48 0 isr s) (set_idt_gate 48 (isr 48) KERN_CODE_SELECTOR IDT_USER_INT)"

definition gdt_init :: "u32 \<Rightarrow> u32 \<Rightarrow> 'a cpu_scheme \<Rightarrow> ('a cpu_scheme) kres" where
  "gdt_init gdt_addr tss_addr s =
     kbind (set_gdt_gate 0 0 0 0 0 (s\<lparr>gdt_entries := replicate NUM_GDT_ENTRIES zero_gdt_entry\<rparr>)) (\<lambda>s.
     kbind (set_gdt_gate 1 0 0xFFFFF GDT_KERN_CODE GDT_DEFAULT_GRAN s) (\<lambda>s.
     kbind (set_gdt_gate 2 0 0xFFFFF GDT_KERN_DATA GDT_DEFAULT_GRAN s) (\<lambda>s.
     kbind (set_gdt_gate 3 0 0xFFFFF GDT_USER_CODE GDT_DEFAULT_GRAN s) (\<lambda>s.
     kbind (set_gdt_gate 4 0 0xFFFFF GDT_USER_DATA GDT_DEFAULT_GRAN s) (\<lambda>s.
     kbind (set_gdt_gate 5 tss_addr 104 GDT_USER_TSS GDT_TSS_GRAN s) (\<lambda>s.
     printf (''[cpu] initialized GDT'' @ [CHR 0x0A]) [] (s\<lparr>gdt_reg := (of_nat (8 * NUM_GDT_ENTRIES - 1), gdt_addr)\<rparr>)))))))"

text \<open>Unlike for the GDT, the limit is the size of the table, not the size minus one.\<close>

definition idt_init :: "u32 \<Rightarrow> (nat \<Rightarrow> u32) \<Rightarrow> 'a cpu_scheme \<Rightarrow> ('a cpu_scheme) kres" where
  "idt_init idt_addr isr s =
     kbind (fill_idt isr (s\<lparr>idt_entries := replicate INT_NUM_INTERRUPTS zero_idt_entry\<rparr>)) (\<lambda>s1.
     printf (''[cpu] initialized IDT (%d entries)'' @ [CHR 0x0A]) [VInt (of_nat INT_NUM_INTERRUPTS)]
       (s1\<lparr>idt_reg := (of_nat (8 * INT_NUM_INTERRUPTS), idt_addr)\<rparr>))"

definition tss_init :: "u32 \<Rightarrow> 'a cpu_scheme \<Rightarrow> ('a cpu_scheme) kres" where
  "tss_init stack_top s =
     printf (''[cpu] initialized task register'' @ [CHR 0x0A]) []
       (s\<lparr>g_kernel_tss := \<lparr>prev_tss = 0, esp0 = stack_top, ss0 = ucast KERN_DATA_SELECTOR\<rparr>, task_reg := 0x2B\<rparr>)"

section \<open>How the processor reads a descriptor\<close>

text \<open>The packed layout of the two structures, first member in the low bits.\<close>

definition gdt_bits :: "gdt_entry \<Rightarrow> u64" where
  "gdt_bits e = ucast (limit_low e) OR push_bit 16 (ucast (base_low e)) OR push_bit 40 (ucast (gdt_access e)) OR
     push_bit 48 (ucast (limit_high e)) OR push_bit 52 (ucast (granularity e)) OR push_bit 56 (ucast (gdt_base_high e))"

definition idt_bits :: "idt_entry \<Rightarrow> u64" where
  "idt_bits e = ucast (idt_base_low e) OR push_bit 16 (ucast (selector e)) OR push_bit 40 (ucast (idt_access e)) OR
     push_bit 48 (ucast (idt_base_high e))"

text \<open>The fields of a segment descriptor and of a gate in the processor's format.\<close>

definition seg_base :: "u64 \<Rightarrow> u32" where
  "seg_base d = ucast (take_bit 24 (drop_bit 16 d)) OR push_bit 24 (ucast (take_bit 8 (drop_bit 56 d)))"

definition seg_limit :: "u64 \<Rightarrow> u32" where
  "seg_limit d = ucast (take_bit 16 d) OR push_bit 16 (ucast (take_bit 4 (drop_bit 48 d)))"

definition seg_access :: "u64 \<Rightarrow> u8" where "seg_access d = ucast (drop_bit 40 d)"
definition seg_flags :: "u64 \<Rightarrow> 4 word" where "seg_flags d = ucast (drop_bit 52 d)"

definition gate_offset :: "u64 \<Rightarrow> u32" where
  "gate_offset d = ucast (take_bit 16 d) OR push_bit 16 (ucast (take_bit 16 (drop_bit 48 d)))"

definition gate_selector :: "u64 \<Rightarrow> u16" where "gate_selector d = ucast (drop_bit 16 d)"
definition gate_access :: "u64 \<Rightarrow> u8" where "gate_access d = ucast (drop_bit 40 d)"

lemma word_masks:
  "(w :: u32) AND 0xFFFF = take_bit 16 w" "(w :: u32) AND 0xFFFFFF = take_bit 24 w"
  "(w :: u32) AND 0xFF = take_bit 8 w" "(w :: u32) AND 0xF = take_bit 4 w" "(v :: u8) AND 0xF = take_bit 4 v"
proof -
  have "(0xFFFF :: u32) = mask 16" "(0xFFFFFF :: u32) = mask 24" "(0xFF :: u32) = mask 8"
    "(0xF :: u32) = mask 4" "(0xF :: u8) = mask 4" by (simp_all add: mask_eq_exp_minus_1)
  then show "(w :: u32) AND 0xFFFF = take_bit 16 w" "(w :: u32) AND 0xFFFFFF = take_bit 24 w"
    "(w :: u32) AND 0xFF = take_bit 8 w" "(w :: u32) AND 0xF = take_bit 4 w" "(v :: u8) AND 0xF = take_bit 4 v"
    by (simp_all only: take_bit_eq_mask)
qed

lemma gate_offset_bit: "bit (gate_offset d) n \<longleftrightarrow> (if n < 16 then bit d n else n < 32 \<and> bit d (n + 32))"
  by (auto simp: gate_offset_def bit_simps add.commute)

lemma idt_bits_bit:
  "bit (idt_bits e) n \<longleftrightarrow>
    (if n < 16 then bit (idt_base_low e) n else if n < 32 then bit (selector e) (n - 16)
     else if n < 40 then False else if n < 48 then bit (idt_access e) (n - 40)
     else n < 64 \<and> bit (idt_base_high e) (n - 48))"
  by (auto simp: idt_bits_def bit_simps dest: bit_imp_le_length)

lemma gdt_bits_bit:
  "bit (gdt_bits e) n \<longleftrightarrow>
    (if n < 16 then bit (limit_low e) n else if n < 40 then bit (base_low e) (n - 16)
     else if n < 48 then bit (gdt_access e) (n - 40) else if n < 52 then bit (limit_high e) (n - 48)
     else if n < 56 then bit (granularity e) (n - 52) else n < 64 \<and> bit (gdt_base_high e) (n - 56))"
  by (auto simp: gdt_bits_def bit_simps dest: bit_imp_le_length)

lemma idt_gate_decodes:
  fixes base :: u32 and sel :: u16 and acc :: u8
  assumes "e = \<lparr>idt_base_low = ucast (base AND 0xFFFF), selector = sel, idt_access = acc,
    idt_base_high = ucast (drop_bit 16 base AND 0xFFFF)\<rparr>"
  shows "gate_offset (idt_bits e) = base" "gate_selector (idt_bits e) = sel" "gate_access (idt_bits e) = acc"
proof -
  show "gate_offset (idt_bits e) = base"
    by (rule bit_word_eqI) (auto simp: gate_offset_bit idt_bits_bit assms word_masks bit_simps)
  show "gate_selector (idt_bits e) = sel"
    by (rule bit_word_eqI) (auto simp: gate_selector_def idt_bits_bit assms bit_simps)
  show "gate_access (idt_bits e) = acc"
    by (rule bit_word_eqI) (auto simp: gate_access_def idt_bits_bit assms bit_simps)
qed

lemma seg_bits:
  "bit (seg_base d) n \<longleftrightarrow> (if n < 24 then bit d (n + 16) else n < 32 \<and> bit d (n + 32))"
  "bit (seg_limit d) n \<longleftrightarrow> (if n < 16 then bit d n else n < 20 \<and> bit d (n + 32))"
  by (auto simp: seg_base_def seg_limit_def bit_simps add.commute)

lemma limit_range: "(limit :: u32) AND 0xFFF00000 = 0 \<longleftrightarrow> unat limit < 1048576"
proof -
  have m: "(0xFFF00000 :: u32) = NOT (mask 20)" by (simp add: mask_eq_exp_minus_1)
  have b: "bit (limit AND NOT (mask 20)) n \<longleftrightarrow> 20 \<le> n \<and> bit limit n" for n
    by (auto simp: bit_simps dest: bit_imp_le_length)
  have "limit AND NOT (mask 20) = 0 \<longleftrightarrow> drop_bit 20 limit = 0"
  proof
    assume "limit AND NOT (mask 20) = 0"
    then have "\<not> bit limit n" if "20 \<le> n" for n using b [of n] that by simp
    then show "drop_bit 20 limit = 0" by (intro bit_word_eqI) (simp add: bit_simps)
  next
    assume d: "drop_bit 20 limit = 0"
    have "\<not> bit limit n" if "20 \<le> n" for n
      using that bit_drop_bit_eq [of 20 limit] by (auto simp: d fun_eq_iff dest: spec [of _ "n - 20"])
    then show "limit AND NOT (mask 20) = 0" using b by (intro bit_word_eqI) auto
  qed
  also have "\<dots> \<longleftrightarrow> unat limit div 2 ^ 20 = 0"
    using unat_drop_bit_u32 [of 20 limit] by (metis unat_eq_0)
  finally show ?thesis by (simp only: m) (simp add: div_eq_0_iff)
qed

text \<open>A segment descriptor as \<open>set_gdt_gate\<close> builds it, read back in the processor's format.\<close>

definition describes :: "gdt_entry \<Rightarrow> u32 \<Rightarrow> u32 \<Rightarrow> u8 \<Rightarrow> u8 \<Rightarrow> bool" where
  "describes e base limit acc gran \<longleftrightarrow> seg_base (gdt_bits e) = base \<and> seg_limit (gdt_bits e) = limit \<and>
     seg_access (gdt_bits e) = acc \<and> seg_flags (gdt_bits e) = ucast gran"

lemma gdt_gate_decodes:
  assumes "e = \<lparr>limit_low = ucast (limit AND 0xFFFF), base_low = ucast (base AND 0xFFFFFF), gdt_access = acc,
      limit_high = ucast (drop_bit 16 limit AND 0x0F), granularity = ucast (gran AND 0x0F),
      gdt_base_high = ucast (drop_bit 24 base AND 0xFF)\<rparr>"
    and "unat limit < 1048576"
  shows "describes e base limit acc gran"
proof -
  have lim: "bit limit n \<Longrightarrow> n < 20" for n
  proof (rule ccontr)
    assume b: "bit limit n" "\<not> n < 20"
    have "unat limit div 2 ^ 20 = 0" using assms(2) by simp
    then have "drop_bit 20 limit = 0" by (simp add: word_unat_eq_iff unat_drop_bit_u32)
    moreover have "bit (drop_bit 20 limit) (n - 20)" using b by (simp add: bit_simps)
    ultimately show False by simp
  qed
  have "seg_base (gdt_bits e) = base"
    by (rule bit_word_eqI) (auto simp: seg_bits gdt_bits_bit assms(1) word_masks bit_simps)
  moreover have "seg_limit (gdt_bits e) = limit"
    by (rule bit_word_eqI) (auto simp: seg_bits gdt_bits_bit assms(1) word_masks bit_simps dest: lim)
  moreover have "seg_access (gdt_bits e) = acc"
    by (rule bit_word_eqI) (auto simp: seg_access_def gdt_bits_bit assms(1) bit_simps)
  moreover have "seg_flags (gdt_bits e) = ucast gran"
    by (rule bit_word_eqI) (auto simp: seg_flags_def gdt_bits_bit assms(1) word_masks bit_simps)
  ultimately show ?thesis by (simp add: describes_def)
qed

lemma set_gdt_gate_spec:
  assumes "unat num < length (gdt_entries s)" "unat limit < 1048576" "gran AND 0xF0 = 0"
  shows "\<exists>e. set_gdt_gate num base limit acc gran s = Inr (s\<lparr>gdt_entries := (gdt_entries s)[unat num := e]\<rparr>) \<and>
    describes e base limit acc gran"
proof -
  let ?e = "\<lparr>limit_low = ucast (limit AND 0xFFFF), base_low = ucast (base AND 0xFFFFFF), gdt_access = acc,
      limit_high = ucast (drop_bit 16 limit AND 0x0F), granularity = ucast (gran AND 0x0F),
      gdt_base_high = ucast (drop_bit 24 base AND 0xFF)\<rparr>"
  have "set_gdt_gate num base limit acc gran s = Inr (s\<lparr>gdt_entries := (gdt_entries s)[unat num := ?e]\<rparr>)"
    using assms limit_range [of limit]
    by (cases "gdt_entries s ! unat num") (simp add: set_gdt_gate_def Let_def)
  with gdt_gate_decodes [OF refl assms(2)] show ?thesis by blast
qed

definition gate_ok :: "idt_entry \<Rightarrow> u32 \<Rightarrow> u8 \<Rightarrow> bool" where
  "gate_ok e handler acc \<longleftrightarrow> gate_offset (idt_bits e) = handler \<and> gate_selector (idt_bits e) = KERN_CODE_SELECTOR \<and>
     gate_access (idt_bits e) = acc"

lemma set_idt_gate_spec:
  assumes "unat num < length (idt_entries s)"
  shows "\<exists>e. set_idt_gate num base KERN_CODE_SELECTOR acc s = Inr (s\<lparr>idt_entries := (idt_entries s)[unat num := e]\<rparr>) \<and>
    gate_ok e base acc"
  using assms idt_gate_decodes [OF refl, of base KERN_CODE_SELECTOR acc]
  by (intro exI [of _ "\<lparr>idt_base_low = ucast (base AND 0xFFFF), selector = KERN_CODE_SELECTOR,
      idt_access = acc, idt_base_high = ucast (drop_bit 16 base AND 0xFFFF)\<rparr>"])
    (simp add: set_idt_gate_def gate_ok_def)

lemma fill_gates_spec:
  "i + n \<le> length (idt_entries s) \<Longrightarrow> i + n \<le> 256 \<Longrightarrow>
   \<exists>t. fill_gates n i isr s = Inr t \<and> length (idt_entries t) = length (idt_entries s) \<and>
     (\<forall>j<length (idt_entries s). if i \<le> j \<and> j < i + n then gate_ok (idt_entries t ! j) (isr j) IDT_KERN_INT
       else idt_entries t ! j = idt_entries s ! j)"
proof (induction n arbitrary: i s)
  case (Suc n)
  have u: "unat (of_nat i :: u8) = i" using Suc.prems by (simp add: unat_of_nat)
  from set_idt_gate_spec [of "of_nat i" s "isr i" IDT_KERN_INT] Suc.prems u obtain e where
    e: "set_idt_gate (of_nat i) (isr i) KERN_CODE_SELECTOR IDT_KERN_INT s =
        Inr (s\<lparr>idt_entries := (idt_entries s)[i := e]\<rparr>)" "gate_ok e (isr i) IDT_KERN_INT" by auto
  let ?s = "s\<lparr>idt_entries := (idt_entries s)[i := e]\<rparr>"
  from Suc.IH [of "Suc i" ?s] Suc.prems obtain t where
    t: "fill_gates n (Suc i) isr ?s = Inr t" "length (idt_entries t) = length (idt_entries s)"
    "\<forall>j<length (idt_entries s). if Suc i \<le> j \<and> j < Suc i + n then gate_ok (idt_entries t ! j) (isr j) IDT_KERN_INT
       else idt_entries t ! j = idt_entries ?s ! j" by auto
  have "if i \<le> j \<and> j < i + Suc n then gate_ok (idt_entries t ! j) (isr j) IDT_KERN_INT
       else idt_entries t ! j = idt_entries s ! j" if "j < length (idt_entries s)" for j
    using t(3) [rule_format, OF that] e(2) that Suc.prems
    by (cases "j = i") (auto split: if_splits)
  with e(1) t(1,2) show ?case by auto
qed auto

section \<open>Properties\<close>

text \<open>Every gate of the interrupt descriptor table leads to its stub.\<close>

definition gates_installed :: "(nat \<Rightarrow> u32) \<Rightarrow> 'a cpu_scheme \<Rightarrow> bool" where
  "gates_installed isr s \<longleftrightarrow> length (idt_entries s) = 49 \<and> (\<forall>j<48. gate_ok (idt_entries s ! j) (isr j) 0x8E) \<and>
     gate_ok (idt_entries s ! 48) (isr 48) 0xEE"

text \<open>Each gate decodes to its stub. The limit loaded with the table is one byte too large: 392 instead of 391.\<close>

lemma idt_init_installs_gates:
  "\<exists>t. idt_init idt_addr isr s = Inr t \<and> gates_installed isr t \<and> idt_reg t = (392, idt_addr)"
proof -
  let ?s = "s\<lparr>idt_entries := replicate INT_NUM_INTERRUPTS zero_idt_entry\<rparr>"
  from fill_gates_spec [of 0 48 ?s isr] obtain t where
    t: "fill_gates 48 0 isr ?s = Inr t" "length (idt_entries t) = 49"
    "\<forall>j<49. if j < 48 then gate_ok (idt_entries t ! j) (isr j) IDT_KERN_INT
       else idt_entries t ! j = idt_entries ?s ! j"
    by (auto simp: INT_NUM_INTERRUPTS_def)
  from set_idt_gate_spec [of 48 t "isr 48" IDT_USER_INT] t(2) obtain e where
    e: "set_idt_gate 48 (isr 48) KERN_CODE_SELECTOR IDT_USER_INT t = Inr (t\<lparr>idt_entries := (idt_entries t)[48 := e]\<rparr>)"
    "gate_ok e (isr 48) IDT_USER_INT" by auto
  let ?u = "t\<lparr>idt_entries := (idt_entries t)[48 := e]\<rparr>"
  have acc: "IDT_KERN_INT = 0x8E" "IDT_USER_INT = 0xEE" by (simp_all add: gdt_flags)
  have "gate_ok (idt_entries t ! j) (isr j) 0x8E" if "j < 48" for j
    using t(3) [rule_format, of j] that by (simp add: acc)
  then have "gates_installed isr (?u\<lparr>idt_reg := r, con_log := c\<rparr>)" for c r
    using t(2) e(2) by (simp add: gates_installed_def acc)
  moreover obtain x where "vprintf_buf (''[cpu] initialized IDT (%d entries)'' @ [CHR 0x0A])
      [VInt (of_nat INT_NUM_INTERRUPTS)] = Inr x"
    using vprintf_buf_exists [of "''[cpu] initialized IDT (%d entries)'' @ [CHR 0x0A]" "[VInt (of_nat INT_NUM_INTERRUPTS)]"]
    by (auto simp: conversion_width_def)
  ultimately show ?thesis
    using t(1) e(1) by (simp add: idt_init_def fill_idt_def printf_def INT_NUM_INTERRUPTS_def)
qed

definition flat_segments :: "u32 \<Rightarrow> gdt_entry list \<Rightarrow> bool" where
  "flat_segments tss es \<longleftrightarrow> length es = 6 \<and> describes (es ! 0) 0 0 0 0 \<and> describes (es ! 1) 0 0xFFFFF 0x9A 0xC \<and>
     describes (es ! 2) 0 0xFFFFF 0x92 0xC \<and> describes (es ! 3) 0 0xFFFFF 0xFA 0xC \<and>
     describes (es ! 4) 0 0xFFFFF 0xF2 0xC \<and> describes (es ! 5) tss 104 0xE9 1"

text \<open>\<open>gdt_init\<close> loads six descriptors with the right limit: read in the processor's format, the code and
  data segments of ring 0 and ring 3 are flat (base 0, limit 0xFFFFF pages), and the last one is the
  task state segment at the address of \<open>g_kernel_tss\<close>, with a limit of its size.\<close>

theorem gdt_init_flat:
  "\<exists>t. gdt_init gdt_addr tss_addr s = Inr t \<and> flat_segments tss_addr (gdt_entries t) \<and> gdt_reg t = (47, gdt_addr)"
proof -
  have gate: "\<exists>e. set_gdt_gate num base limit acc gran (s\<lparr>gdt_entries := L\<rparr>) =
      Inr (s\<lparr>gdt_entries := L[unat num := e]\<rparr>) \<and> describes e base limit acc gran"
    if "length L = 6" "unat num < 6" "unat limit < 1048576" "gran AND 0xF0 = 0" for num base limit acc gran L
    using set_gdt_gate_spec [of num "s\<lparr>gdt_entries := L\<rparr>" limit gran base acc] that by simp
  define L0 where "L0 = replicate 6 zero_gdt_entry"
  have len: "length L0 = 6" by (simp add: L0_def)
  obtain e0 where e0: "set_gdt_gate 0 0 0 0 0 (s\<lparr>gdt_entries := L0\<rparr>) = Inr (s\<lparr>gdt_entries := L0[0 := e0]\<rparr>)"
    "describes e0 0 0 0 0" using gate [of L0 0 0 0 0 0] len by auto
  define L1 where "L1 = L0[0 := e0]"
  have flat: "\<exists>e. set_gdt_gate num 0 0xFFFFF acc GDT_DEFAULT_GRAN (s\<lparr>gdt_entries := L\<rparr>) =
      Inr (s\<lparr>gdt_entries := L[unat num := e]\<rparr>) \<and> describes e 0 0xFFFFF acc 0xC"
    if "length L = 6" "unat num < 6" for num acc L
    using gate [of L num "0xFFFFF" GDT_DEFAULT_GRAN 0 acc] that by (simp add: gdt_flags)
  obtain e1 where e1: "set_gdt_gate 1 0 0xFFFFF GDT_KERN_CODE GDT_DEFAULT_GRAN (s\<lparr>gdt_entries := L1\<rparr>) =
      Inr (s\<lparr>gdt_entries := L1[1 := e1]\<rparr>)" "describes e1 0 0xFFFFF GDT_KERN_CODE 0xC"
    using flat [of L1 1 GDT_KERN_CODE] len by (auto simp: L1_def)
  define L2 where "L2 = L1[Suc 0 := e1]"
  obtain e2 where e2: "set_gdt_gate 2 0 0xFFFFF GDT_KERN_DATA GDT_DEFAULT_GRAN (s\<lparr>gdt_entries := L2\<rparr>) =
      Inr (s\<lparr>gdt_entries := L2[2 := e2]\<rparr>)" "describes e2 0 0xFFFFF GDT_KERN_DATA 0xC"
    using flat [of L2 2 GDT_KERN_DATA] len by (auto simp: L2_def L1_def)
  define L3 where "L3 = L2[2 := e2]"
  obtain e3 where e3: "set_gdt_gate 3 0 0xFFFFF GDT_USER_CODE GDT_DEFAULT_GRAN (s\<lparr>gdt_entries := L3\<rparr>) =
      Inr (s\<lparr>gdt_entries := L3[3 := e3]\<rparr>)" "describes e3 0 0xFFFFF GDT_USER_CODE 0xC"
    using flat [of L3 3 GDT_USER_CODE] len by (auto simp: L3_def L2_def L1_def)
  define L4 where "L4 = L3[3 := e3]"
  obtain e4 where e4: "set_gdt_gate 4 0 0xFFFFF GDT_USER_DATA GDT_DEFAULT_GRAN (s\<lparr>gdt_entries := L4\<rparr>) =
      Inr (s\<lparr>gdt_entries := L4[4 := e4]\<rparr>)" "describes e4 0 0xFFFFF GDT_USER_DATA 0xC"
    using flat [of L4 4 GDT_USER_DATA] len by (auto simp: L4_def L3_def L2_def L1_def)
  define L5 where "L5 = L4[4 := e4]"
  obtain e5 where e5: "set_gdt_gate 5 tss_addr 104 GDT_USER_TSS GDT_TSS_GRAN (s\<lparr>gdt_entries := L5\<rparr>) =
      Inr (s\<lparr>gdt_entries := L5[5 := e5]\<rparr>)" "describes e5 tss_addr 104 GDT_USER_TSS GDT_TSS_GRAN"
    using gate [of L5 5 104 GDT_TSS_GRAN tss_addr GDT_USER_TSS] len
    by (auto simp: gdt_flags L5_def L4_def L3_def L2_def L1_def)
  note lists = L1_def L2_def L3_def L4_def L5_def
  obtain x where "vprintf_buf (''[cpu] initialized GDT'' @ [CHR 0x0A]) [] = Inr x"
    using vprintf_buf_exists [of "''[cpu] initialized GDT'' @ [CHR 0x0A]" "[]"] by (auto simp: conversion_width_def)
  with e0(1) e1(1) e2(1) e3(1) e4(1) e5(1) have "gdt_init gdt_addr tss_addr s =
      Inr (s\<lparr>gdt_entries := L5[5 := e5], gdt_reg := (47, gdt_addr), con_log := con_log s @ [Printed (cstring_of x)]\<rparr>)"
    by (simp add: gdt_init_def NUM_GDT_ENTRIES_def printf_def flip: L0_def L1_def L2_def L3_def L4_def L5_def)
  moreover have "flat_segments tss_addr (L5[5 := e5])"
    using e0(2) e1(2) e2(2) e3(2) e4(2) e5(2) len
    by (simp add: flat_segments_def gdt_flags lists)
  ultimately show ?thesis by simp
qed

end
