(* ===== verification/Interrupt.thy ===== *)
theory Interrupt
  imports Cpu HeapBlock
begin

text \<open>
  The handlers of \<open>kernel/arch/i386/interrupt.c\<close>, the register dump of
  \<open>kernel/arch/i386/proc/thread.c\<close> and the page fault handler of \<open>kernel/arch/i386/pmm/pmm.c\<close>. A
  function pointer is a value of \<open>handler\<close>, the null pointer is \<open>None\<close>. Calling through a pointer is
  an argument \<open>call\<close> of the dispatcher, since the handlers are defined in later components. The
  nodes of the IRQ lists come from \<open>kmalloc\<close> and live in the store \<open>irq_nodes\<close>.
\<close>

datatype handler =
  Unexpected_Int | Irq_Int | Syscall_Int | Page_Fault_Int | Timer_Callback | Scheduler_Tick | Kbd_Int
  | Other_Handler u32

record irq_handler =
  ih_handler :: "handler option"
  ih_next :: u32

record thread_context =
  gs :: u32
  fs :: u32
  es :: u32
  ds :: u32
  edi :: u32
  esi :: u32
  ebp :: u32
  esp :: u32
  ebx :: u32
  edx :: u32
  ecx :: u32
  eax :: u32
  int_num :: u32
  error_code :: u32
  eip :: u32
  cs :: u32
  eflags :: u32
  user_esp :: u32
  user_ss :: u32

record interrupts = cpu +
  g_int_handler_table :: "handler option list"
  irq_handler_list :: "u32 list"
  irq_nodes :: "u32 \<Rightarrow> irq_handler"

definition INT_SYSCALL_INTERRUPT :: nat where "INT_SYSCALL_INTERRUPT = 48"
definition FIRST_IRQ_INT :: nat where "FIRST_IRQ_INT = 32"
definition NUM_IRQS :: nat where "NUM_IRQS = 16"

lemmas int_consts = INT_SYSCALL_INTERRUPT_def FIRST_IRQ_INT_def NUM_IRQS_def INT_NUM_INTERRUPTS_def

section \<open>Initialisation and registration\<close>

definition default_handler :: "nat \<Rightarrow> handler" where
  "default_handler i =
     (if i \<ge> FIRST_IRQ_INT \<and> i < FIRST_IRQ_INT + NUM_IRQS then Irq_Int
      else if i = INT_SYSCALL_INTERRUPT then Syscall_Int
      else Unexpected_Int)"

definition int_init :: "u32 \<Rightarrow> (nat \<Rightarrow> u32) \<Rightarrow> 'a interrupts_scheme \<Rightarrow> ('a interrupts_scheme) kres" where
  "int_init idt_addr isr s =
     kbind (idt_init idt_addr isr s) (\<lambda>s1.
     let s2 = remap_pic s1;
         s3 = s2\<lparr>irq_handler_list := replicate NUM_IRQS 0,
                 g_int_handler_table := map (\<lambda>i. Some (default_handler i)) [0..<INT_NUM_INTERRUPTS]\<rparr>
     in printf (''[cpu] initialized interrupt and IRQ handlers'' @ [CHR 0x0A]) [] s3)"

definition int_register_handler :: "u8 \<Rightarrow> handler option \<Rightarrow> 'a interrupts_scheme \<Rightarrow> ('a interrupts_scheme) kres" where
  "int_register_handler interrupt h s =
     kbind (kassert (unat interrupt < INT_NUM_INTERRUPTS) ''interrupt < INT_NUM_INTERRUPTS'') (\<lambda>_.
     kbind (panic_if (unat interrupt = INT_SYSCALL_INTERRUPT) ''tried to change syscall interrupt handler'') (\<lambda>_.
     kbind (panic_if (unat interrupt \<ge> FIRST_IRQ_INT \<and> unat interrupt < FIRST_IRQ_INT + NUM_IRQS)
       ''tried to change IRQ-aware interrupt handler'') (\<lambda>_.
     Inr (s\<lparr>g_int_handler_table := (g_int_handler_table s)[unat interrupt :=
       (case h of None \<Rightarrow> Some Unexpected_Int | Some f \<Rightarrow> Some f)]\<rparr>))))"

text \<open>\<open>while ((*node)->next) *node = (*node)->next;\<close> where \<open>node\<close> is the address of the list head.\<close>

primrec advance_head :: "nat \<Rightarrow> u8 \<Rightarrow> 'a interrupts_scheme \<Rightarrow> ('a interrupts_scheme) kres" where
  "advance_head 0 irq s = Inl Nesting"
| "advance_head (Suc n) irq s =
     (let nxt = ih_next (irq_nodes s (irq_handler_list s ! unat irq))
      in if nxt \<noteq> 0 then advance_head n irq (s\<lparr>irq_handler_list := (irq_handler_list s)[unat irq := nxt]\<rparr>)
         else Inr s)"

definition int_register_irq_handler :: "nat \<Rightarrow> u32 \<Rightarrow> u8 \<Rightarrow> handler option \<Rightarrow> 'a interrupts_scheme \<Rightarrow>
    ('a interrupts_scheme) kres" where
  "int_register_irq_handler fuel ra irq h s =
     kbind (kassert (VALID_IRQ irq) ''VALID_IRQ(irq)'') (\<lambda>_.
     kbind (kassert (irq \<noteq> 2) ''irq != 2'') (\<lambda>_.
     kbind (kassert (h \<noteq> None) ''handler'') (\<lambda>_.
     kbind (kmalloc fuel ra 8 s) (\<lambda>(new_node, s1).
     kbind (kassert (new_node \<noteq> 0) ''new_node'') (\<lambda>_.
     let s2 = s1\<lparr>irq_nodes := (irq_nodes s1)(new_node := \<lparr>ih_handler = h, ih_next = 0\<rparr>)\<rparr>
     in if irq_handler_list s2 ! unat irq = 0 then
          Inr (s2\<lparr>irq_handler_list := (irq_handler_list s2)[unat irq := new_node]\<rparr>)
        else
          kbind (advance_head fuel irq s2) (\<lambda>s3.
          let p = irq_handler_list s3 ! unat irq in
          Inr (s3\<lparr>irq_nodes := (irq_nodes s3)(p := (irq_nodes s3 p)\<lparr>ih_next := new_node\<rparr>)\<rparr>)))))))"

section \<open>Handlers\<close>

text \<open>\<open>strcat_registers\<close>: the buffer's string with the register lines behind it.\<close>

definition strcat_registers :: "string \<Rightarrow> thread_context \<Rightarrow> string kres" where
  "strcat_registers buf c =
     kbind (sprintf (''  eax=%x ebx=%x ecx=%x edx=%x'' @ [CHR 0x0A])
       [VInt (eax c), VInt (ebx c), VInt (ecx c), VInt (edx c)]) (\<lambda>l1.
     kbind (sprintf (''  ebp=%x esi=%x edi=%x'' @ [CHR 0x0A]) [VInt (ebp c), VInt (esi c), VInt (edi c)]) (\<lambda>l2.
     kbind (sprintf (''  ds=%x es=%x fs=%x gs=%x'' @ [CHR 0x0A])
       [VInt (ds c), VInt (es c), VInt (fs c), VInt (gs c)]) (\<lambda>l3.
     kbind (sprintf (''  cs:eip=%x:%x'' @ [CHR 0x0A]) [VInt (cs c), VInt (eip c)]) (\<lambda>l4.
     kbind (sprintf (''  ss:esp=%x:%x'' @ [CHR 0x0A]) [VInt (user_ss c), VInt (esp c)]) (\<lambda>l5.
     kbind (sprintf (''  eflags=%x'' @ [CHR 0x0A]) [VInt (eflags c)]) (\<lambda>l6.
     kbind (sprintf (''  int=%d err=%x'' @ [CHR 0x0A]) [VInt (int_num c), VInt (error_code c)]) (\<lambda>l7.
     Inr (buf @ l1 @ l2 @ l3 @ l4 @ l5 @ l6 @ l7))))))))"

text \<open>\<open>panic_r\<close>: a panic whose message ends with the registers.\<close>

definition panic_r :: "string \<Rightarrow> thread_context \<Rightarrow> 'b kres" where
  "panic_r msg c = kbind (strcat_registers (msg @ [CHR 0x0A]) c) (\<lambda>text. Inl (Panic text))"

definition error_msg :: "string list" where
  "error_msg =
    [''divide by zero'',
     ''debugger (this shouldn'' @ [CHR 0x27] @ ''t EVER be fired)'',
     ''non-maskable interrupt'',
     ''breakpoint'',
     ''overflow'',
     ''range exceeded for BOUND instruction'',
     ''invalid/undefined opcode'',
     ''device not available (no math coprocessor?)'',
     ''double fault'',
     ''coprocessor segment overflow (this shouldn'' @ [CHR 0x27] @ ''t EVER be fired)'',
     ''invalid TSS'',
     ''segment not present'',
     ''stack-segment fault'',
     ''general protection fault'',
     ''page fault'',
     ''Intel reserved (this shouldn'' @ [CHR 0x27] @ ''t EVER be fired)'',
     ''x87 FPU floating-point error'',
     ''alignment check fault'',
     ''machine check fault'',
     ''SIMD floating-point exception'',
     ''virtualization/EPT exception'']"

definition unexpected_int_handler :: "thread_context \<Rightarrow> 'b kres" where
  "unexpected_int_handler c =
     kbind (if int_num c \<le> 20 then
              sprintf ''unhandled interrupt %d: %s'' [VInt (int_num c), VStr (error_msg ! unat (int_num c))]
            else if int_num c < 32 then
              sprintf ''unhandled interrupt %d: %s'' [VInt (int_num c), VStr (error_msg ! 15)]
            else sprintf ''unhandled interrupt %d'' [VInt (int_num c)]) (\<lambda>msg.
     panic_r msg c)"

text \<open>\<open>cr2\<close> holds the faulting address.\<close>

definition page_fault_int_handler :: "u32 \<Rightarrow> thread_context \<Rightarrow> 'b kres" where
  "page_fault_int_handler cr2 c =
     kbind (sprintf ''page fault at address %p'' [VInt cr2]) (\<lambda>msg. panic_r msg c)"

primrec run_handlers ::
    "nat \<Rightarrow> (handler \<Rightarrow> thread_context \<Rightarrow> 'a interrupts_scheme \<Rightarrow> ('a interrupts_scheme) kres) \<Rightarrow>
     thread_context \<Rightarrow> u32 \<Rightarrow> 'a interrupts_scheme \<Rightarrow> ('a interrupts_scheme) kres" where
  "run_handlers 0 call c node s = Inl Nesting"
| "run_handlers (Suc n) call c node s =
     (if node = 0 then Inr s
      else case ih_handler (irq_nodes s node) of
        None \<Rightarrow> Inl (Panic ''KASSERT failed: node->handler'')
      | Some h \<Rightarrow> kbind (call h c s) (\<lambda>s'. run_handlers n call c (ih_next (irq_nodes s' node)) s'))"

definition irq_int_handler ::
    "nat \<Rightarrow> (handler \<Rightarrow> thread_context \<Rightarrow> 'a interrupts_scheme \<Rightarrow> ('a interrupts_scheme) kres) \<Rightarrow>
     thread_context \<Rightarrow> 'a interrupts_scheme \<Rightarrow> ('a interrupts_scheme) kres" where
  "irq_int_handler fuel call c s =
     (let irq = (ucast (int_num c - of_nat FIRST_IRQ_INT) :: u8) in
      kbind (kassert (VALID_IRQ irq) ''VALID_IRQ(irq)'') (\<lambda>_.
      kbind (run_handlers fuel call c (irq_handler_list s ! unat irq) s) (\<lambda>s1.
      let s2 = (if irq \<ge> 8 then ioport_outb PIC_SLAVE_CMD 0x20 s1 else s1)
      in Inr (ioport_outb PIC_MASTER_CMD 0x20 s2))))"

text \<open>The string behind a pointer to user memory, byte by byte up to its NUL. It is read before the first character is
  written: the terminal does not change this memory.\<close>

primrec string_at :: "nat \<Rightarrow> u32 \<Rightarrow> 'a paging_scheme \<Rightarrow> string kres" where
  "string_at 0 p s = Inl Nesting"
| "string_at (Suc n) p s =
     kbind (read8 p s) (\<lambda>b.
     if b = 0 then Inr [] else kbind (string_at n (p + 1) s) (\<lambda>str. Inr (char_of (unat b) # str)))"

definition syscall_int_handler :: "nat \<Rightarrow> thread_context \<Rightarrow> 'a interrupts_scheme \<Rightarrow>
    ('a interrupts_scheme) kres" where
  "syscall_int_handler fuel c s =
     kbind (tty_printf (CHR 0x0A # ''received syscall %d'' @ [CHR 0x0A]) [VInt (eax c)] s) (\<lambda>(_, s1).
     if eax c = 1 then
       kbind (if ecx c = 0 then Inr None else kbind (string_at fuel (ecx c) s1) (\<lambda>str. Inr (Some str))) (\<lambda>str.
       kbind (tty_puts str True s1) (\<lambda>(_, s2). Inr s2))
     else Inr s1)"

section \<open>IRQ lists\<close>

definition irq_list :: "'a interrupts_scheme \<Rightarrow> u8 \<Rightarrow> u32 list \<Rightarrow> bool" where
  "irq_list s irq xs \<longleftrightarrow> chain (\<lambda>p. ih_next (irq_nodes s p)) (irq_handler_list s ! unat irq) xs"

text \<open>The loop leaves the head at the last node.\<close>

lemma list_update_same_nth: "xs ! i = y \<Longrightarrow> xs[i := y] = xs"
  by (metis list_update_id)

lemma advance_head_spec:
  "irq_list s irq (xs @ [y]) \<Longrightarrow> length xs < n \<Longrightarrow> unat irq < length (irq_handler_list s) \<Longrightarrow>
    advance_head n irq s = Inr (s\<lparr>irq_handler_list := (irq_handler_list s)[unat irq := y]\<rparr>)"
proof (induction xs arbitrary: s n)
  case Nil
  then obtain m where n: "n = Suc m" by (cases n) simp_all
  from Nil have y: "irq_handler_list s ! unat irq = y" "ih_next (irq_nodes s y) = 0"
    by (simp_all add: irq_list_def)
  show ?case unfolding n advance_head.simps Let_def y list_update_same_nth [OF y(1)] by simp
next
  case (Cons x xs)
  then obtain m where n: "n = Suc m" by (cases n) simp_all
  define z where "z = ih_next (irq_nodes s x)"
  have z: "chain (\<lambda>p. ih_next (irq_nodes s p)) z (xs @ [y])" and x: "irq_handler_list s ! unat irq = x"
    using Cons.prems(1) by (simp_all add: irq_list_def z_def)
  from z have "z \<noteq> 0" by (cases "z = 0") simp_all
  define t where "t = s\<lparr>irq_handler_list := (irq_handler_list s)[unat irq := z]\<rparr>"
  have il: "irq_list t irq (xs @ [y])"
    unfolding irq_list_def t_def using z Cons.prems(3) by simp
  have "advance_head m irq t = Inr (t\<lparr>irq_handler_list := (irq_handler_list t)[unat irq := y]\<rparr>)"
    using il Cons.prems(2,3) n by (intro Cons.IH) (simp_all add: t_def)
  moreover have "advance_head n irq s = advance_head m irq t"
    unfolding n advance_head.simps Let_def x z_def [symmetric] t_def [symmetric] using \<open>z \<noteq> 0\<close> by simp
  ultimately show ?case by (simp add: t_def)
qed

lemma register_irq_handler:
  assumes "VALID_IRQ irq" "irq \<noteq> 2" and alloc: "kmalloc fuel ra 8 s = Inr (new, s1)" "new \<noteq> 0" "new \<notin> set xs"
    and xs: "irq_list s1 irq xs" "length xs \<le> fuel" and len: "length (irq_handler_list s1) = NUM_IRQS"
  shows "\<exists>s'. int_register_irq_handler fuel ra irq (Some h) s = Inr s' \<and>
    irq_list s' irq ((if xs = [] then [] else [List.last xs]) @ [new]) \<and>
    ih_handler (irq_nodes s' new) = Some h \<and>
    map (\<lambda>p. ih_handler (irq_nodes s' p)) xs = map (\<lambda>p. ih_handler (irq_nodes s1 p)) xs \<and>
    s' = s1\<lparr>irq_handler_list := irq_handler_list s', irq_nodes := irq_nodes s'\<rparr> \<and>
    length (irq_handler_list s') = length (irq_handler_list s1)"
proof -
  define s2 where "s2 = s1\<lparr>irq_nodes := (irq_nodes s1)(new := \<lparr>ih_handler = Some h, ih_next = 0\<rparr>)\<rparr>"
  have irq: "unat irq < length (irq_handler_list s2)"
    using assms(1) len by (simp add: VALID_IRQ_def NUM_IRQS_def s2_def word_less_nat_alt)
  have "chain (\<lambda>p. ih_next (irq_nodes s2 p)) q xs = chain (\<lambda>p. ih_next (irq_nodes s1 p)) q xs" for q
    by (rule chain_cong) (use alloc(3) in \<open>auto simp: s2_def\<close>)
  moreover have heads: "irq_handler_list s2 = irq_handler_list s1" by (simp add: s2_def)
  ultimately have xs2: "irq_list s2 irq xs"
    using xs(1) by (simp only: irq_list_def)
  have run: "int_register_irq_handler fuel ra irq (Some h) s =
      (if irq_handler_list s2 ! unat irq = 0 then
         Inr (s2\<lparr>irq_handler_list := (irq_handler_list s2)[unat irq := new]\<rparr>)
       else kbind (advance_head fuel irq s2) (\<lambda>s3.
         let p = irq_handler_list s3 ! unat irq in
         Inr (s3\<lparr>irq_nodes := (irq_nodes s3)(p := (irq_nodes s3 p)\<lparr>ih_next := new\<rparr>)\<rparr>)))"
    unfolding int_register_irq_handler_def using assms(1-4) by (simp add: s2_def [symmetric] Let_def heads)
  show ?thesis
  proof (cases xs rule: rev_cases)
    case Nil
    then have "irq_handler_list s2 ! unat irq = 0" using xs2 by (simp add: irq_list_def)
    then show ?thesis
      unfolding run using Nil irq alloc(2) by (simp add: irq_list_def) (simp add: s2_def)
  next
    case (snoc ys y)
    have "irq_handler_list s2 ! unat irq \<noteq> 0" using xs2 snoc by (auto simp: irq_list_def)
    moreover have "advance_head fuel irq s2 = Inr (s2\<lparr>irq_handler_list := (irq_handler_list s2)[unat irq := y]\<rparr>)"
      using xs2 snoc xs(2) irq by (intro advance_head_spec) (simp_all add: Suc_le_eq)
    moreover have "y \<noteq> new" "y \<noteq> 0"
      using alloc(3) snoc chain_nonzero [of "\<lambda>p. ih_next (irq_nodes s2 p)" "irq_handler_list s2 ! unat irq" xs] xs2
      by (auto simp: irq_list_def)
    ultimately show ?thesis
      unfolding run using snoc irq alloc(2,3) by (simp add: irq_list_def) (auto simp: s2_def)
  qed
qed

text \<open>C37. Registering a handler for an IRQ appends it behind the last handler of the list, but the loop
  that looks for the end moves the head of the list along: of the handlers registered before, only
  the last one is still in the list, so that a third registration drops the first handler.\<close>

theorem int_register_irq_handler_keeps_last:
  assumes "VALID_IRQ irq" "irq \<noteq> 2" and alloc: "kmalloc fuel ra 8 s = Inr (new, s1)" "new \<noteq> 0" "new \<notin> set xs"
    and xs: "irq_list s1 irq xs" "length xs \<le> fuel" and len: "length (irq_handler_list s1) = NUM_IRQS"
  shows "\<exists>s'. int_register_irq_handler fuel ra irq (Some h) s = Inr s' \<and>
    irq_list s' irq ((if xs = [] then [] else [List.last xs]) @ [new]) \<and>
    ih_handler (irq_nodes s' new) = Some h \<and>
    map (\<lambda>p. ih_handler (irq_nodes s' p)) xs = map (\<lambda>p. ih_handler (irq_nodes s1 p)) xs"
  using register_irq_handler [OF assms] by blast

section \<open>Dispatch\<close>

text \<open>The handlers called one after the other, the first one first.\<close>

primrec call_all :: "(handler \<Rightarrow> thread_context \<Rightarrow> 'a interrupts_scheme \<Rightarrow> ('a interrupts_scheme) kres) \<Rightarrow>
    thread_context \<Rightarrow> handler list \<Rightarrow> 'a interrupts_scheme \<Rightarrow> ('a interrupts_scheme) kres" where
  "call_all call c [] s = Inr s"
| "call_all call c (h # hs) s = kbind (call h c s) (call_all call c hs)"

definition end_of_interrupt :: "u8 \<Rightarrow> (u16 \<times> u8) list" where
  "end_of_interrupt irq = (if irq \<ge> 8 then [(PIC_SLAVE_CMD, 0x20)] else []) @ [(PIC_MASTER_CMD, 0x20)]"

lemma run_handlers_call_all:
  assumes keeps: "\<And>h c s t. call h c s = Inr t \<Longrightarrow> irq_nodes t = irq_nodes s"
  shows "chain (\<lambda>p. ih_next (irq_nodes s p)) node xs \<Longrightarrow> (\<And>x. x \<in> set xs \<Longrightarrow> ih_handler (irq_nodes s x) = Some (f x)) \<Longrightarrow>
    length xs < n \<Longrightarrow> run_handlers n call c node s = call_all call c (map f xs) s"
proof (induction xs arbitrary: node s n)
  case Nil
  then show ?case by (cases n) simp_all
next
  case (Cons x xs)
  then obtain m where n: "n = Suc m" by (cases n) simp_all
  have x: "node = x" "x \<noteq> 0" "ih_handler (irq_nodes s x) = Some (f x)" using Cons.prems by simp_all
  have "run_handlers m call c (ih_next (irq_nodes t x)) t = call_all call c (map f xs) t"
    if "call (f x) c s = Inr t" for t
  proof (rule Cons.IH)
    note nodes = keeps [OF that]
    show "chain (\<lambda>p. ih_next (irq_nodes t p)) (ih_next (irq_nodes t x)) xs"
      unfolding nodes using Cons.prems(1) by simp
    show "ih_handler (irq_nodes t y) = Some (f y)" if "y \<in> set xs" for y
      unfolding nodes using Cons.prems(2) that by simp
    show "length xs < m" using Cons.prems(3) n by simp
  qed
  then show ?case using x n by (cases "call (f x) c s") simp_all
qed

lemma irq_int_handler_run:
  assumes "\<And>h c s t. call h c s = Inr t \<Longrightarrow> irq_nodes t = irq_nodes s"
    and "int_num c = of_nat FIRST_IRQ_INT + ucast irq" and "VALID_IRQ irq"
    and "irq_list s irq xs" and "\<And>x. x \<in> set xs \<Longrightarrow> ih_handler (irq_nodes s x) = Some (f x)" and "length xs < n"
  shows "irq_int_handler n call c s =
    kbind (call_all call c (map f xs) s) (\<lambda>t. Inr (t\<lparr>out_log := out_log t @ end_of_interrupt irq\<rparr>))"
proof -
  have "(ucast (ucast irq :: u32) :: u8) = irq"
    by (rule bit_word_eqI) (simp add: bit_ucast_iff)
  then have irq: "(ucast (int_num c - of_nat FIRST_IRQ_INT) :: u8) = irq"
    using assms(2) by simp
  have run: "run_handlers n call c (irq_handler_list s ! unat irq) s = call_all call c (map f xs) s"
    by (rule run_handlers_call_all [OF assms(1) assms(4) [unfolded irq_list_def] assms(5,6)])
  show ?thesis
    unfolding irq_int_handler_def Let_def irq run
    using assms(3) by (simp add: end_of_interrupt_def ioport_outb_def)
qed

text \<open>C27. An IRQ runs the handlers of its list in the order of the list, each on the state the one before
  left, and then acknowledges the interrupt: first at the slave controller, for IRQ 8 to 15, then at the
  master. A handler that panics ends the run without an acknowledgement.\<close>

theorem irq_int_handler_dispatches:
  assumes "\<And>h c s t. call h c s = Inr t \<Longrightarrow> irq_nodes t = irq_nodes s"
    and "int_num c = of_nat FIRST_IRQ_INT + ucast irq" and "VALID_IRQ irq"
    and "irq_list s irq xs" and "\<And>x. x \<in> set xs \<Longrightarrow> ih_handler (irq_nodes s x) = Some (f x)" and "length xs < n"
  shows "irq_int_handler n call c s =
    kbind (call_all call c (map f xs) s) (\<lambda>t. Inr (t\<lparr>out_log := out_log t @ end_of_interrupt irq\<rparr>))"
  using assms by (rule irq_int_handler_run)

text \<open>The entries of the IRQs and of the system call, which no registration replaces.\<close>

definition fixed_entries_ok :: "'a interrupts_scheme \<Rightarrow> bool" where
  "fixed_entries_ok s \<longleftrightarrow> length (g_int_handler_table s) = INT_NUM_INTERRUPTS \<and>
     (\<forall>i < INT_NUM_INTERRUPTS. default_handler i \<noteq> Unexpected_Int \<longrightarrow>
        g_int_handler_table s ! i = Some (default_handler i)) \<and>
     None \<notin> set (g_int_handler_table s)"

text \<open>\<open>int_register_handler\<close> accepts exactly the vectors of the CPU exceptions; the table keeps an
  entry for every vector, and the entries of the IRQs and of the system call stay what \<open>int_init\<close> made
  them.\<close>

lemma int_register_handler_guards:
  assumes "fixed_entries_ok s"
  shows "if unat interrupt < 32
    then \<exists>s'. int_register_handler interrupt h s = Inr s' \<and> fixed_entries_ok s' \<and>
      g_int_handler_table s' ! unat interrupt = (if h = None then Some Unexpected_Int else h)
    else \<exists>msg. int_register_handler interrupt h s = Inl (Panic msg)"
proof (cases "unat interrupt < 32")
  case True
  then have run: "int_register_handler interrupt h s = Inr (s\<lparr>g_int_handler_table := (g_int_handler_table s)
      [unat interrupt := (if h = None then Some Unexpected_Int else h)]\<rparr>)"
    by (cases h) (simp_all add: int_register_handler_def int_consts)
  let ?t = "(g_int_handler_table s)[unat interrupt := (if h = None then Some Unexpected_Int else h)]"
  have "default_handler (unat interrupt) = Unexpected_Int"
    using True by (simp add: default_handler_def int_consts)
  moreover have "set ?t \<subseteq> insert (if h = None then Some Unexpected_Int else h) (set (g_int_handler_table s))"
    by (rule set_update_subset_insert)
  then have "None \<notin> set ?t" using assms by (auto simp: fixed_entries_ok_def)
  ultimately have "fixed_entries_ok (s\<lparr>g_int_handler_table := ?t\<rparr>)"
    using assms unfolding fixed_entries_ok_def by simp (metis nth_list_update_neq)
  moreover have "unat interrupt < length (g_int_handler_table s)"
    using assms True by (simp add: fixed_entries_ok_def int_consts)
  ultimately show ?thesis using True run by simp
next
  case False
  then show ?thesis
    by (auto simp: int_register_handler_def int_consts kassert_def panic_if_def)
qed

text \<open>A sequence of registrations.\<close>

primrec register_handlers :: "(u8 \<times> handler option) list \<Rightarrow> 'a interrupts_scheme \<Rightarrow> ('a interrupts_scheme) kres" where
  "register_handlers [] s = Inr s"
| "register_handlers (r # rs) s = kbind (int_register_handler (fst r) (snd r) s) (register_handlers rs)"

lemma register_handlers_typed:
  "fixed_entries_ok s \<Longrightarrow> if list_all (\<lambda>r. unat (fst r) < 32) rs
    then \<exists>t. register_handlers rs s = Inr t \<and> fixed_entries_ok t
    else \<exists>msg. register_handlers rs s = Inl (Panic msg)"
proof (induction rs arbitrary: s)
  case (Cons r rs)
  from int_register_handler_guards [OF Cons.prems, of "fst r" "snd r"]
  consider (ok) s' where "unat (fst r) < 32" "int_register_handler (fst r) (snd r) s = Inr s'" "fixed_entries_ok s'"
    | (refused) msg where "\<not> unat (fst r) < 32" "int_register_handler (fst r) (snd r) s = Inl (Panic msg)"
    by (auto split: if_splits)
  then show ?case
  proof cases
    case ok
    then show ?thesis using Cons.IH [OF ok(3)] by simp
  qed simp
qed simp

lemma fixed_entries_initial:
  "g_int_handler_table t = map (\<lambda>i. Some (default_handler i)) [0..<INT_NUM_INTERRUPTS] \<Longrightarrow> fixed_entries_ok t"
  by (auto simp: fixed_entries_ok_def)

lemma int_init_tables:
  "\<exists>t. int_init idt_addr isr s = Inr t \<and> gates_installed isr t \<and> fixed_entries_ok t"
proof -
  obtain u where u: "idt_init idt_addr isr s = Inr u" "gates_installed isr u" using idt_init_installs_gates by blast
  obtain msg where msg: "vprintf_buf (''[cpu] initialized interrupt and IRQ handlers'' @ [CHR 0x0A]) [] = Inr msg"
    using vprintf_buf_exists [of "''[cpu] initialized interrupt and IRQ handlers'' @ [CHR 0x0A]" "[]"]
    by (auto simp: conversion_width_def)
  let ?v = "(remap_pic u)\<lparr>irq_handler_list := replicate NUM_IRQS 0,
    g_int_handler_table := map (\<lambda>i. Some (default_handler i)) [0..<INT_NUM_INTERRUPTS]\<rparr>"
  let ?t = "?v\<lparr>con_log := con_log ?v @ [Printed (cstring_of msg)]\<rparr>"
  have "int_init idt_addr isr s = Inr ?t" using u(1) msg by (simp add: int_init_def Let_def printf_def)
  moreover have "gates_installed isr ?t"
    using u(2) by (simp add: gates_installed_def remap_pic_def Let_def ioport_outb_def)
  moreover have "fixed_entries_ok ?t" by (rule fixed_entries_initial) simp
  ultimately show ?thesis by blast
qed

text \<open>C26. The tables of the interrupts are well typed: \<open>int_init\<close> returns with all gates in place, and after any
  registrations the handler table has an entry, and no null pointer, for each of the vectors that the stubs call
  through it, those of the IRQs and of the system call being what \<open>int_init\<close> made them; a
  registration for any other vector than those of the CPU exceptions is a panic.\<close>

theorem handler_table_typed:
  "\<exists>s0. int_init idt_addr isr s = Inr s0 \<and> gates_installed isr s0 \<and>
    (if list_all (\<lambda>r. unat (fst r) < 32) rs
     then \<exists>t. register_handlers rs s0 = Inr t \<and> fixed_entries_ok t
     else \<exists>msg. register_handlers rs s0 = Inl (Panic msg))"
proof -
  obtain s0 where "int_init idt_addr isr s = Inr s0" "gates_installed isr s0" "fixed_entries_ok s0"
    using int_init_tables by blast
  then show ?thesis using register_handlers_typed [of s0 rs] by blast
qed

section \<open>Examples\<close>

definition irq_zero :: interrupts where
  "irq_zero = cpu.extend (lalloc.extend lalloc_zero
     \<lparr>gdt_entries = [], idt_entries = [], gdt_reg = (0, 0), idt_reg = (0, 0),
      g_kernel_tss = \<lparr>prev_tss = 0, esp0 = 0, ss0 = 0\<rparr>, task_reg = 0\<rparr>)
     \<lparr>g_int_handler_table = map (\<lambda>i. Some (default_handler i)) [0..<INT_NUM_INTERRUPTS],
      irq_handler_list = replicate 16 0x50,
      irq_nodes = (\<lambda>_. \<lparr>ih_handler = Some Timer_Callback, ih_next = 0\<rparr>)\<rparr>"

lemma irq_zero_sel [simp]:
  "l_memRoot irq_zero = 0xD0000000" "l_bestBet irq_zero = 0" "majors irq_zero = majors lalloc_zero"
  "minors irq_zero = minors lalloc_zero" "irq_handler_list irq_zero = replicate 16 0x50"
  "irq_nodes irq_zero = (\<lambda>_. \<lparr>ih_handler = Some Timer_Callback, ih_next = 0\<rparr>)"
  "g_int_handler_table irq_zero = map (\<lambda>i. Some (default_handler i)) [0..<INT_NUM_INTERRUPTS]"
  by (simp_all add: irq_zero_def cpu.defs lalloc.defs lalloc_zero_def kernel_heap.defs kheap_zero_def)

lemma irq_zero_ok: "block_ok irq_zero 0xD0000000 []"
  using lalloc_zero_ok by (simp add: block_ok_def)

lemma irq_fields_in_more:
  "lalloc.more s = lalloc.more t \<Longrightarrow>
    irq_handler_list s = irq_handler_list t \<and> irq_nodes s = irq_nodes t"
  by (cases s rule: interrupts.cases_scheme, cases t rule: interrupts.cases_scheme) simp

lemma payload_of_first: "payload_of (0xD0000000 + 24) = 0xD0000040"
  by (simp add: payload_of_def align_gap_def sizeof_minor_def)

theorem int_register_irq_handler_keeps_last_witness:
  "\<exists>s'. int_register_irq_handler 1 0 0 (Some Scheduler_Tick) irq_zero = Inr s' \<and>
     irq_list s' 0 [0x50, 0xD0000040] \<and> ih_handler (irq_nodes s' 0xD0000040) = Some Scheduler_Tick"
proof -
  obtain s1 where s1: "kmalloc (Suc 0) 0 8 irq_zero = Inr (0xD0000040, s1)" "lalloc.more s1 = lalloc.more irq_zero"
    using kmalloc_fresh_root [OF irq_zero_ok, of 8 0 0] unfolding payload_of_first by auto
  from irq_fields_in_more [OF s1(2)]
  have "irq_list s1 0 [0x50]" "length (irq_handler_list s1) = NUM_IRQS"
    by (simp_all add: irq_list_def NUM_IRQS_def)
  with int_register_irq_handler_keeps_last [of 0 1 0 irq_zero "0xD0000040" s1 "[0x50]" Scheduler_Tick] s1(1)
  show ?thesis by (auto simp: VALID_IRQ_def)
qed

theorem irq_int_handler_dispatches_witness:
  "\<exists>c. irq_int_handler 2 (\<lambda>h c s. Inr (worry ''tick'' s)) c irq_zero =
     Inr (irq_zero\<lparr>con_log := con_log irq_zero @ [Worried ''tick''], out_log := out_log irq_zero @ [(0x20, 0x20)]\<rparr>)"
proof -
  define c where "c = \<lparr>gs = 0, fs = 0, es = 0, ds = 0, edi = 0, esi = 0, ebp = 0, esp = 0, ebx = 0, edx = 0,
    ecx = 0, eax = 0, int_num = 32, error_code = 0, eip = 0, cs = 8, eflags = 0, user_esp = 0, user_ss = 0\<rparr>"
  have "irq_int_handler 2 (\<lambda>h c s. Inr (worry ''tick'' s)) c irq_zero =
    kbind (call_all (\<lambda>h c s. Inr (worry ''tick'' s)) c (map (\<lambda>_. Timer_Callback) [0x50 :: u32]) irq_zero)
      (\<lambda>t. Inr (t\<lparr>out_log := out_log t @ end_of_interrupt 0\<rparr>))"
    by (rule irq_int_handler_dispatches)
      (auto simp: worry_def c_def VALID_IRQ_def irq_list_def FIRST_IRQ_INT_def)
  then show ?thesis by (auto simp: worry_def end_of_interrupt_def pic_ports)
qed

end
