(* ===== verification/Serial.thy ===== *)
theory Serial
  imports Interrupt
begin

text \<open>
  The serial driver of \<open>kernel/arch/i386/serio.c\<close>, the panic reports of \<open>kernel/kernel/panic.c\<close>,
  \<open>kernel/arch/i386/reboot.c\<close> and the keyboard driver. What the ports deliver is part of the state:
  \<open>port_in p n\<close> is the byte the \<open>n\<close>-th read of port \<open>p\<close> gives, \<open>port_reads\<close> counts the reads. A wait for
  a device takes fuel; \<open>Nesting\<close> is its exhaustion, which a device that answers in time excludes.
\<close>

record serial = interrupts +
  port_in :: "u16 \<Rightarrow> nat \<Rightarrow> u8"
  port_reads :: "u16 \<Rightarrow> nat"

definition ioport_inb :: "u16 \<Rightarrow> 'a serial_scheme \<Rightarrow> u8 \<times> 'a serial_scheme" where
  "ioport_inb p s = (port_in s p (port_reads s p), s\<lparr>port_reads := (port_reads s)(p := Suc (port_reads s p))\<rparr>)"

definition SERIO_COM1 :: u16 where "SERIO_COM1 = 0x3F8"
definition SERIO_COM2 :: u16 where "SERIO_COM2 = 0x2F8"
definition SERIO_COM3 :: u16 where "SERIO_COM3 = 0x3E8"
definition SERIO_COM4 :: u16 where "SERIO_COM4 = 0x2E8"

section \<open>The driver\<close>

definition serio_data_incoming :: "u16 \<Rightarrow> 'a serial_scheme \<Rightarrow> bool \<times> 'a serial_scheme" where
  "serio_data_incoming com s = (let (b, s1) = ioport_inb (com + 5) s in (b AND 1 \<noteq> 0, s1))"

definition serio_data_outgoing :: "u16 \<Rightarrow> 'a serial_scheme \<Rightarrow> bool \<times> 'a serial_scheme" where
  "serio_data_outgoing com s = (let (b, s1) = ioport_inb (com + 5) s in (\<not> (b AND 0x20 \<noteq> 0), s1))"

primrec wait_incoming :: "nat \<Rightarrow> u16 \<Rightarrow> 'a serial_scheme \<Rightarrow> ('a serial_scheme) kres" where
  "wait_incoming 0 com s = Inl Nesting"
| "wait_incoming (Suc n) com s =
     (let (r, s1) = serio_data_incoming com s in if \<not> r then wait_incoming n com s1 else Inr s1)"

primrec wait_outgoing :: "nat \<Rightarrow> u16 \<Rightarrow> 'a serial_scheme \<Rightarrow> ('a serial_scheme) kres" where
  "wait_outgoing 0 com s = Inl Nesting"
| "wait_outgoing (Suc n) com s =
     (let (r, s1) = serio_data_outgoing com s in if r then wait_outgoing n com s1 else Inr s1)"

definition serio_readchar :: "nat \<Rightarrow> u16 \<Rightarrow> 'a serial_scheme \<Rightarrow> (u8 \<times> 'a serial_scheme) kres" where
  "serio_readchar fuel com s = kbind (wait_incoming fuel com s) (\<lambda>s1. Inr (ioport_inb com s1))"

definition serio_writechar :: "nat \<Rightarrow> u16 \<Rightarrow> char \<Rightarrow> 'a serial_scheme \<Rightarrow> ('a serial_scheme) kres" where
  "serio_writechar fuel com c s = kbind (wait_outgoing fuel com s) (\<lambda>s1. Inr (ioport_outb com (byte_of c) s1))"

primrec write_chars :: "nat \<Rightarrow> u16 \<Rightarrow> string \<Rightarrow> 'a serial_scheme \<Rightarrow> ('a serial_scheme) kres" where
  "write_chars fuel com [] s = Inr s"
| "write_chars fuel com (c # str) s = kbind (serio_writechar fuel com c s) (write_chars fuel com str)"

definition serio_puts :: "nat \<Rightarrow> u16 \<Rightarrow> string \<Rightarrow> bool \<Rightarrow> 'a serial_scheme \<Rightarrow> (nat \<times> 'a serial_scheme) kres" where
  "serio_puts fuel com str newline s =
     kbind (write_chars fuel com (cstring_of str) s) (\<lambda>s1.
     if newline then
       kbind (serio_writechar fuel com (CHR 0x0D) s1) (\<lambda>s2.
       kbind (serio_writechar fuel com (CHR 0x0A) s2) (\<lambda>s3.
       Inr (length (cstring_of str) + 2, s3)))
     else Inr (length (cstring_of str), s1))"

definition port_name :: "u16 \<Rightarrow> string" where
  "port_name com =
     (if com = SERIO_COM1 then ''COM1'' else if com = SERIO_COM2 then ''COM2''
      else if com = SERIO_COM3 then ''COM3'' else if com = SERIO_COM4 then ''COM4'' else ''COM?'')"

definition serio_init :: "nat \<Rightarrow> u16 \<Rightarrow> 'a serial_scheme \<Rightarrow> ('a serial_scheme) kres" where
  "serio_init fuel com s =
     (let s1 = ioport_outb (com + 1) 0x0 s;
          s2 = ioport_outb (com + 3) 0x80 s1;
          s3 = ioport_outb (com + 0) 0x3 s2;
          s4 = ioport_outb (com + 1) 0x0 s3;
          s5 = ioport_outb (com + 3) 0x3 s4;
          s6 = ioport_outb (com + 2) 0xC7 s5;
          s7 = ioport_outb (com + 4) 0xB s6
      in kbind (sprintf ''serial port %s initialized'' [VStr (port_name com)]) (\<lambda>msg.
         kbind (serio_puts fuel com msg True s7) (\<lambda>(_, s8). Inr s8)))"

section \<open>Halting, rebooting and panic reports\<close>

text \<open>\<open>halt\<close> up to its endless loop; \<open>reboot\<close> up to the triple fault.\<close>

definition halt :: "'a serial_scheme \<Rightarrow> ('a serial_scheme) kres" where
  "halt s =
     kbind (tty_puts_color (Some ''halted'') TTY_COLOR_PANIC False s) (\<lambda>(_, s1).
     kbind (liballoc_dump s1) (\<lambda>s2. Inr (s2\<lparr>if_flag := False\<rparr>)))"

definition reboot :: "u32 \<Rightarrow> 'a serial_scheme \<Rightarrow> ('a serial_scheme) kres" where
  "reboot fake_idt_addr s =
     kbind (tty_puts_color (Some ''rebooting'') TTY_COLOR_PANIC False s) (\<lambda>(_, s1).
     int_enable (s1\<lparr>idt_reg := (0, 0)\<rparr>))"

definition MAX_PANIC_BUF :: nat where "MAX_PANIC_BUF = 512"

text \<open>The text goes into a buffer of \<open>MAX_PANIC_BUF\<close> bytes, to the first serial port and to the screen.\<close>

definition report :: "nat \<Rightarrow> string \<Rightarrow> u8 \<Rightarrow> 'a serial_scheme \<Rightarrow> ('a serial_scheme) kres" where
  "report fuel msg color s =
     (if length msg < MAX_PANIC_BUF then
        kbind (serio_puts fuel SERIO_COM1 msg True s) (\<lambda>(_, s1).
        kbind (tty_puts_color (Some msg) color True s1) (\<lambda>(_, s2). Inr s2))
      else Inl (Undefined ''msg_buf''))"

definition panic_report :: "nat \<Rightarrow> string \<Rightarrow> u32 \<Rightarrow> string \<Rightarrow> 'a serial_scheme \<Rightarrow> ('a serial_scheme) kres" where
  "panic_report fuel file line msg s =
     kbind (sprintf ''panic (%s:%d): %s'' [VStr file, VInt line, VStr msg]) (\<lambda>text.
     kbind (report fuel text TTY_COLOR_PANIC s) halt)"

definition worry_report :: "nat \<Rightarrow> string \<Rightarrow> u32 \<Rightarrow> string \<Rightarrow> 'a serial_scheme \<Rightarrow> ('a serial_scheme) kres" where
  "worry_report fuel file line msg s =
     kbind (sprintf (''worry (%s:%d): %s'' @ [CHR 0x0A]) [VStr file, VInt line, VStr msg]) (\<lambda>text.
     report fuel text TTY_COLOR_WORRY s)"

definition panic_r_report :: "nat \<Rightarrow> string \<Rightarrow> u32 \<Rightarrow> string \<Rightarrow> thread_context \<Rightarrow> 'a serial_scheme \<Rightarrow>
    ('a serial_scheme) kres" where
  "panic_r_report fuel file line msg c s =
     kbind (sprintf (''panic (%s:%d): %s'' @ [CHR 0x0A]) [VStr file, VInt line, VStr msg]) (\<lambda>text.
     kbind (strcat_registers text c) (\<lambda>text.
     kbind (report fuel text TTY_COLOR_PANIC s) halt))"

section \<open>Keyboard\<close>

text \<open>The table as numbers; \<open>kbd_int_handler\<close> does nothing unless \<open>KBD_DEBUG_KEYPRESSES\<close> is defined.\<close>

definition scancode_to_ascii :: "nat list" where
  "scancode_to_ascii =
     [0, 27, 49, 50, 51, 52, 53, 54, 55, 56, 57, 48, 45, 61, 8, 9,
      113, 119, 101, 114, 116, 121, 117, 105, 111, 112, 91, 93, 10, 0,
      97, 115, 100, 102, 103, 104, 106, 107, 108, 59, 39, 96, 0, 92,
      122, 120, 99, 118, 98, 110, 109, 44, 46, 47, 0, 42, 0, 32, 0, 0]
     @ replicate 14 0 @ [45, 0, 0, 0, 43] @ replicate 49 0"

definition kbd_read_scancode :: "'a serial_scheme \<Rightarrow> u8 \<times> 'a serial_scheme" where
  "kbd_read_scancode s = ioport_inb 0x60 s"

definition kbd_init :: "nat \<Rightarrow> u32 \<Rightarrow> 'a serial_scheme \<Rightarrow> ('a serial_scheme) kres" where
  "kbd_init fuel ra s = int_register_irq_handler fuel ra IRQ_KBD (Some Kbd_Int) s"

definition kbd_int_handler :: "bool \<Rightarrow> 'a serial_scheme \<Rightarrow> ('a serial_scheme) kres" where
  "kbd_int_handler KBD_DEBUG_KEYPRESSES s =
     (if KBD_DEBUG_KEYPRESSES then
        let (scancode, s1) = kbd_read_scancode s in
        if scancode AND 0x80 = 0 then
          kbind (printf ''detected keypress: '' [] s1) (\<lambda>s2.
          kbind (putchar (of_nat (scancode_to_ascii ! unat scancode)) s2) (\<lambda>(_, s3).
          kbind (putchar 10 s3) (\<lambda>(_, s4). Inr s4)))
        else Inr s1
      else Inr s)"

section \<open>Delivery\<close>

text \<open>The transmitter is ready again after at most \<open>k\<close> reads of its status, whenever they begin.\<close>

definition ready_within :: "nat \<Rightarrow> u16 \<Rightarrow> (u16 \<Rightarrow> nat \<Rightarrow> u8) \<Rightarrow> bool" where
  "ready_within k com inp \<longleftrightarrow> (\<forall>n. \<exists>j < k. inp (com + 5) (n + j) AND 0x20 \<noteq> 0)"

definition sent :: "u16 \<Rightarrow> string \<Rightarrow> 'a serial_scheme \<Rightarrow> 'a serial_scheme \<Rightarrow> bool" where
  "sent com xs s t \<longleftrightarrow>
     (\<exists>reads. t = s\<lparr>out_log := out_log s @ map (\<lambda>c. (com, byte_of c)) xs, port_reads := reads\<rparr>)"

lemma sent_Nil [simp]: "sent com [] s s"
  unfolding sent_def by (rule exI [of _ "port_reads s"]) simp

lemma sent_trans: "sent com xs s t \<Longrightarrow> sent com ys t u \<Longrightarrow> sent com (xs @ ys) s u"
  unfolding sent_def by auto

lemma sent_port_in: "sent com xs s t \<Longrightarrow> port_in t = port_in s"
  unfolding sent_def by auto

lemma wait_outgoing_ends:
  "\<exists>j < k. port_in s (com + 5) (port_reads s (com + 5) + j) AND 0x20 \<noteq> 0 \<Longrightarrow>
    \<exists>t. wait_outgoing k com s = Inr t \<and> sent com [] s t"
proof (induction k arbitrary: s)
  case (Suc k)
  let ?n = "port_reads s (com + 5)"
  let ?s = "s\<lparr>port_reads := (port_reads s)(com + 5 := Suc ?n)\<rparr>"
  have sent: "sent com [] s ?s" unfolding sent_def by auto
  show ?case
  proof (cases "port_in s (com + 5) ?n AND 0x20 = 0")
    case False
    then show ?thesis using sent by (simp add: serio_data_outgoing_def ioport_inb_def)
  next
    case True
    from Suc.prems obtain j where "j < Suc k" and j: "port_in s (com + 5) (?n + j) AND 0x20 \<noteq> 0" by blast
    with True have "j \<noteq> 0" by (cases j) simp_all
    then have "j - 1 < k" "?n + j = port_reads ?s (com + 5) + (j - 1)" using \<open>j < Suc k\<close> by simp_all
    with j have "\<exists>j < k. port_in ?s (com + 5) (port_reads ?s (com + 5) + j) AND 0x20 \<noteq> 0" by auto
    from Suc.IH [OF this] obtain t where "wait_outgoing k com ?s = Inr t" "sent com [] ?s t" by blast
    with True sent_trans [OF sent, of "[]" t] show ?thesis
      by (simp add: serio_data_outgoing_def ioport_inb_def)
  qed
qed simp

lemma serio_writechar_sends:
  assumes "ready_within k com (port_in s)"
  shows "\<exists>t. serio_writechar k com c s = Inr t \<and> sent com [c] s t"
proof -
  obtain t where t: "wait_outgoing k com s = Inr t" "sent com [] s t"
    using wait_outgoing_ends [of k s com] assms unfolding ready_within_def by blast
  have "sent com [c] t (ioport_outb com (byte_of c) t)"
    unfolding sent_def ioport_outb_def by (rule exI [of _ "port_reads t"]) simp
  with t sent_trans [of com "[]" s t "[c]"] show ?thesis by (simp add: serio_writechar_def)
qed

lemma write_chars_sends:
  "ready_within k com (port_in s) \<Longrightarrow> \<exists>t. write_chars k com xs s = Inr t \<and> sent com xs s t"
proof (induction xs arbitrary: s)
  case Nil
  then show ?case by simp
next
  case (Cons c xs)
  obtain t where t: "serio_writechar k com c s = Inr t" "sent com [c] s t"
    using serio_writechar_sends [OF Cons.prems] by blast
  from Cons.IH [of t] Cons.prems obtain u where "write_chars k com xs t = Inr u" "sent com xs t u"
    unfolding sent_port_in [OF t(2)] by blast
  with t sent_trans [OF t(2), of xs u] show ?case by simp
qed

text \<open>C30. If the transmitter always becomes ready again within \<open>k\<close> reads of its status, \<open>serio_puts\<close>
  returns: it waits for every byte, sends the bytes of the string in order, then carriage return and
  line feed if asked to, reports their number, and changes nothing else but the count of status reads.\<close>

theorem serio_puts_delivers:
  assumes "ready_within k com (port_in s)"
  shows "\<exists>t. serio_puts k com str newline s =
      Inr (length (cstring_of str) + (if newline then 2 else 0), t) \<and>
    sent com (cstring_of str @ (if newline then [CHR 0x0D, CHR 0x0A] else [])) s t"
proof -
  obtain t where t: "write_chars k com (cstring_of str) s = Inr t" "sent com (cstring_of str) s t"
    using write_chars_sends [OF assms] by blast
  have "ready_within k com (port_in t)" using assms sent_port_in [OF t(2)] by simp
  from write_chars_sends [OF this, of "[CHR 0x0D, CHR 0x0A]"] obtain u where
    u: "write_chars k com [CHR 0x0D, CHR 0x0A] t = Inr u" "sent com [CHR 0x0D, CHR 0x0A] t u" by blast
  show ?thesis
  proof (cases newline)
    case True
    have "serio_puts k com str newline s = Inr (length (cstring_of str) + 2, u)"
      using u(1) unfolding serio_puts_def t(1)
      by (cases "serio_writechar k com (CHR 0x0D) t") (auto simp: True kbind_eq_Inr)
    then show ?thesis using True sent_trans [OF t(2) u(2)] by simp
  next
    case False
    then show ?thesis using t by (simp add: serio_puts_def)
  qed
qed

definition serial_zero :: serial where
  "serial_zero = interrupts.extend irq_zero \<lparr>port_in = (\<lambda>_ n. if even n then 0 else 0x20), port_reads = (\<lambda>_. 0)\<rparr>"

theorem serio_puts_delivers_witness:
  "\<exists>t. serio_puts 2 SERIO_COM1 ''ok'' True serial_zero = Inr (4, t) \<and>
    sent SERIO_COM1 [CHR ''o'', CHR ''k'', CHR 0x0D, CHR 0x0A] serial_zero t"
proof -
  have p: "port_in serial_zero = (\<lambda>_ n. if even n then 0 else 0x20)"
    by (simp add: serial_zero_def interrupts.defs)
  have "ready_within 2 SERIO_COM1 (port_in serial_zero)"
    unfolding ready_within_def p
  proof
    fix n :: nat
    show "\<exists>j < 2. (if even (n + j) then 0 else 0x20) AND 0x20 \<noteq> (0 :: u8)"
      by (rule exI [of _ "if odd n then 0 else 1"]) simp
  qed
  from serio_puts_delivers [OF this, of "''ok''" True] show ?thesis by (simp add: cstring_of_def eval_nat_numeral)
qed

end
