(* ===== verification/Timer.thy ===== *)
theory Timer
  imports Serial
begin

text \<open>
  The programmable interval timer (\<open>kernel/arch/i386/pit.c\<close>) and the system clock
  (\<open>kernel/kernel/timer.c\<close>). \<open>timer_sleep\<close> polls the tick counter while the timer interrupt advances
  it: \<open>fires k\<close> is the number of timer interrupts between the polls \<open>k\<close> and \<open>k + 1\<close>.
\<close>

record timer = serial +
  system_ticks :: u32

definition DEFAULT_SYSTEM_TIMER_FREQ :: u32 where "DEFAULT_SYSTEM_TIMER_FREQ = 100"

definition pit_init :: "u32 \<Rightarrow> 'a timer_scheme \<Rightarrow> ('a timer_scheme) kres" where
  "pit_init frequency s =
     (if frequency = 0 then Inl (Undefined ''division by zero'')
      else
        let divisor = (ucast (1193180 div frequency) :: u16);
            s1 = ioport_outb 0x43 0x36 s;
            l = (ucast (divisor AND 0xFF) :: u8);
            h = (ucast (drop_bit 8 divisor) :: u8)
        in Inr (ioport_outb 0x40 h (ioport_outb 0x40 l s1)))"

definition timer_init :: "nat \<Rightarrow> u32 \<Rightarrow> u32 \<Rightarrow> 'a timer_scheme \<Rightarrow> ('a timer_scheme) kres" where
  "timer_init fuel ra frequency s =
     kbind (pit_init frequency s) (\<lambda>s1.
     kbind (int_register_irq_handler fuel ra IRQ_PIT (Some Timer_Callback) s1) (\<lambda>s2.
     kbind (int_unmask_irq IRQ_PIT s2) (\<lambda>(_, s3).
     printf (''[timer] initialized system timer to %d Hz'' @ [CHR 0x0A]) [VInt frequency] s3)))"

definition timer_callback :: "'a timer_scheme \<Rightarrow> 'a timer_scheme" where
  "timer_callback s = s\<lparr>system_ticks := system_ticks s + 1\<rparr>"

definition timer_getticks :: "'a timer_scheme \<Rightarrow> u32" where
  "timer_getticks s = system_ticks s"

primrec sleep_loop :: "nat \<Rightarrow> (nat \<Rightarrow> nat) \<Rightarrow> nat \<Rightarrow> u32 \<Rightarrow> 'a timer_scheme \<Rightarrow> ('a timer_scheme) kres" where
  "sleep_loop 0 fires k end_ticks s = Inl Nesting"
| "sleep_loop (Suc n) fires k end_ticks s =
     (if timer_getticks s < end_ticks
      then sleep_loop n fires (Suc k) end_ticks ((timer_callback ^^ fires k) s) else Inr s)"

definition timer_sleep :: "nat \<Rightarrow> (nat \<Rightarrow> nat) \<Rightarrow> u32 \<Rightarrow> 'a timer_scheme \<Rightarrow> ('a timer_scheme) kres" where
  "timer_sleep fuel fires ticks s =
     (let end_ticks = timer_getticks s + ticks in sleep_loop fuel fires 0 end_ticks s)"

section \<open>Properties\<close>

text \<open>The divisor that the two writes to the timer's data port carry, low byte first, is the quotient
  of the input clock and the frequency, cut to 16 bits: from 19 Hz on it is the exact quotient.\<close>

theorem pit_init_divisor:
  assumes "frequency \<noteq> 0"
  shows "\<exists>l h. pit_init frequency s = Inr (s\<lparr>out_log := out_log s @ [(0x43, 0x36), (0x40, l), (0x40, h)]\<rparr>) \<and>
    unat l + 256 * unat h = 1193180 div unat frequency mod 65536 \<and>
    (unat frequency < 19 \<or> unat l + 256 * unat h = 1193180 div unat frequency)"
proof -
  define d where "d = (ucast (1193180 div frequency) :: u16)"
  have "unat (1193180 div frequency) = 1193180 div unat frequency"
    by (simp add: unat_div)
  then have d: "unat d = 1193180 div unat frequency mod 65536"
    unfolding d_def by (simp add: unsigned_ucast_eq take_bit_eq_mod)
  let ?l = "ucast (d AND 0xFF) :: u8" and ?h = "ucast (drop_bit 8 d) :: u8"
  have "(0xFF :: u16) = mask 8" by (simp add: mask_eq_exp_minus_1)
  then have l: "unat ?l = unat d mod 256"
    by (simp only: take_bit_eq_mask [symmetric] unsigned_ucast_eq unsigned_take_bit_eq) (simp add: take_bit_eq_mod)
  have "unat d < 65536" using unsigned_less [of d] by simp
  then have h: "unat ?h = unat d div 256"
    unfolding unsigned_ucast_eq unat_drop_bit_eq unfolding drop_bit_eq_div take_bit_eq_mod by simp
  have lh: "unat ?l + 256 * unat ?h = unat d" unfolding l h by simp
  moreover have "1193180 div unat frequency < 65536" if "\<not> unat frequency < 19"
  proof -
    have "1193180 div unat frequency \<le> 1193180 div 19" using that by (intro div_le_mono2) simp_all
    then show ?thesis by simp
  qed
  ultimately have "unat ?l + 256 * unat ?h = 1193180 div unat frequency mod 65536"
    "unat frequency < 19 \<or> unat ?l + 256 * unat ?h = 1193180 div unat frequency"
    using d by (cases "unat frequency < 19"; simp)+
  moreover have "pit_init frequency s = Inr (s\<lparr>out_log := out_log s @ [(0x43, 0x36), (0x40, ?l), (0x40, ?h)]\<rparr>)"
    using assms by (simp add: pit_init_def ioport_outb_def d_def Let_def)
  ultimately show ?thesis by blast
qed

definition timer_zero :: timer where
  "timer_zero = serial.extend serial_zero \<lparr>system_ticks = 0\<rparr>"

theorem pit_init_divisor_witness:
  "\<exists>l h. pit_init 100 timer_zero = Inr (timer_zero\<lparr>out_log := out_log timer_zero @ [(0x43, 0x36), (0x40, l), (0x40, h)]\<rparr>) \<and>
    unat l + 256 * unat h = 1193180 div 100"
  using pit_init_divisor [of 100 timer_zero] by auto

text \<open>The timer interrupts in front of poll \<open>k\<close> of the loop.\<close>

definition fired :: "(nat \<Rightarrow> nat) \<Rightarrow> nat \<Rightarrow> nat" where
  "fired fires k = sum_list (map fires [0..<k])"

lemma fired_simps [simp]: "fired fires 0 = 0" "fired fires (Suc k) = fired fires k + fires k"
  by (simp_all add: fired_def)

lemma timer_callbacks: "(timer_callback ^^ n) s = s\<lparr>system_ticks := system_ticks s + of_nat n\<rparr>"
  by (induction n) (simp_all add: timer_callback_def algebra_simps)

text \<open>From poll \<open>k\<close> on, with \<open>n\<close> polls to go.\<close>

lemma sleep_loop_runs:
  assumes "n < fuel" and "unat end_ticks \<le> unat (system_ticks s) + fired fires (k + n)"
    and "\<forall>j < n. unat (system_ticks s) + fired fires (k + j) < unat end_ticks"
    and "unat (system_ticks s) + fired fires (k + n) < 4294967296"
  shows "sleep_loop fuel fires k end_ticks (s\<lparr>system_ticks := system_ticks s + of_nat (fired fires k)\<rparr>) =
    Inr (s\<lparr>system_ticks := system_ticks s + of_nat (fired fires (k + n))\<rparr>)"
  using assms
proof (induction n arbitrary: fuel k)
  case 0
  then obtain m where m: "fuel = Suc m" by (cases fuel) simp_all
  have "unat (system_ticks s + of_nat (fired fires k)) = unat (system_ticks s) + fired fires k"
    using 0 by (intro u32_add_of_nat) simp
  then show ?case using 0 m by (simp add: timer_getticks_def word_less_nat_alt)
next
  case (Suc n)
  then obtain m where m: "fuel = Suc m" by (cases fuel) simp_all
  have less: "unat (system_ticks s) + fired fires k < unat end_ticks" using Suc.prems(3) by force
  then have "unat (system_ticks s + of_nat (fired fires k)) = unat (system_ticks s) + fired fires k"
    using unat_lt_2p [of end_ticks] by (intro u32_add_of_nat) simp
  moreover have "sleep_loop m fires (Suc k) end_ticks (s\<lparr>system_ticks := system_ticks s + of_nat (fired fires (Suc k))\<rparr>) =
      Inr (s\<lparr>system_ticks := system_ticks s + of_nat (fired fires (Suc k + n))\<rparr>)"
    using Suc.prems m by (intro Suc.IH) auto
  ultimately show ?case using less m
    by (simp add: timer_getticks_def word_less_nat_alt timer_callbacks add.assoc)
qed

text \<open>C40. However many timer interrupts come between two polls, \<open>timer_sleep\<close> returns at the first poll at which
  \<open>ticks\<close> ticks have passed, and not before, with the counter as the interrupts left it, unless the counter itself wraps
  around; but if the sum of the counter and \<open>ticks\<close> overflows 32 bits, it returns at once.\<close>

theorem timer_sleep_waits:
  assumes "n < fuel" and "unat ticks \<le> fired fires n" and "\<forall>k < n. fired fires k < unat ticks"
    and "unat (system_ticks s) + fired fires n < 4294967296 \<or> 4294967296 \<le> unat (system_ticks s) + unat ticks"
  shows "timer_sleep fuel fires ticks s =
    Inr (if unat (system_ticks s) + unat ticks < 4294967296
      then s\<lparr>system_ticks := system_ticks s + of_nat (fired fires n)\<rparr> else s)"
proof (cases "unat (system_ticks s) + unat ticks < 4294967296")
  case True
  then have "unat (system_ticks s + ticks) = unat (system_ticks s) + unat ticks" by (simp add: u32_add_no_wrap)
  then show ?thesis using sleep_loop_runs [of n fuel "system_ticks s + ticks" s fires 0] assms True
    by (simp add: timer_sleep_def timer_getticks_def)
next
  case False
  obtain m where m: "fuel = Suc m" using assms(1) by (cases fuel) simp_all
  have "unat (system_ticks s + ticks) = unat (system_ticks s) + unat ticks - 4294967296"
    using False unat_lt_2p [of ticks] unat_lt_2p [of "system_ticks s"] by (simp add: unat_word_ariths mod_if)
  then have "\<not> system_ticks s < system_ticks s + ticks"
    using unat_lt_2p [of ticks] False unfolding word_less_nat_alt by linarith
  then show ?thesis using False m by (simp add: timer_sleep_def timer_getticks_def)
qed

text \<open>Two ticks before every third poll.\<close>

theorem timer_sleep_waits_witness:
  "timer_sleep 10 (\<lambda>k. if k mod 3 = 2 then 2 else 0) 5 timer_zero = Inr (timer_zero\<lparr>system_ticks := 6\<rparr>) \<and>
   timer_sleep 10 (\<lambda>k. if k mod 3 = 2 then 2 else 0) 5 (timer_zero\<lparr>system_ticks := 0xFFFFFFFE\<rparr>) =
     Inr (timer_zero\<lparr>system_ticks := 0xFFFFFFFE\<rparr>)"
proof -
  let ?f = "\<lambda>k :: nat. if k mod 3 = 2 then 2 else 0 :: nat"
  have "fired ?f 9 = 6 \<and> (\<forall>k \<in> set [0..<9]. fired ?f k < 5)" by code_simp
  then have "fired ?f 9 = 6" "\<forall>k < 9. fired ?f k < 5" by simp_all
  then show ?thesis
    using timer_sleep_waits [of 9 10 5 ?f timer_zero] timer_sleep_waits [of 9 10 5 ?f "timer_zero\<lparr>system_ticks := 0xFFFFFFFE\<rparr>"]
    by (simp add: timer_zero_def serial.defs del: fired_simps)
qed

end
