(* ===== verification/Scheduler.thy ===== *)
theory Scheduler
  imports Timer
begin

text \<open>
  Processes (\<open>kernel/kernel/proc/process.c\<close>) and the round-robin scheduler
  (\<open>kernel/kernel/proc/scheduler.c\<close>). Process and thread structures live in typed stores; the queue is
  a chain of process pointers. The last part of the interrupt stub (\<open>interrupt_asm.S\<close>) and the second
  stage of the switch (\<open>scheduler_asm.S\<close>), which calls into this component, is \<open>interrupt_exit\<close>.
\<close>

record process =
  p_thread :: u32
  p_pgdir :: u32
  p_flags :: u8
  p_quantum :: u32
  p_next :: u32

record thread =
  th_context :: u32
  th_owner :: u32
  th_next :: u32

record scheduler = timer +
  g_current_process :: u32
  g_preemption_enabled :: bool
  g_switch_processes :: bool
  process_queue :: u32
  processes :: "u32 \<Rightarrow> process"
  threads :: "u32 \<Rightarrow> thread"

definition PROC_FREE :: u8 where "PROC_FREE = push_bit 0 1"
definition PROC_DEBUG_YIELD :: u8 where "PROC_DEBUG_YIELD = push_bit 1 1"
definition PROC_FREE_THREAD_CONTEXT :: u8 where "PROC_FREE_THREAD_CONTEXT = push_bit 2 1"
definition DEFAULT_QUANTUM :: u32 where "DEFAULT_QUANTUM = 100"

lemmas proc_flags = PROC_FREE_def PROC_DEBUG_YIELD_def PROC_FREE_THREAD_CONTEXT_def

definition upd_process :: "u32 \<Rightarrow> (process \<Rightarrow> process) \<Rightarrow> 'a scheduler_scheme \<Rightarrow> 'a scheduler_scheme" where
  "upd_process p f s = s\<lparr>processes := (processes s)(p := f (processes s p))\<rparr>"

definition upd_thread :: "u32 \<Rightarrow> (thread \<Rightarrow> thread) \<Rightarrow> 'a scheduler_scheme \<Rightarrow> 'a scheduler_scheme" where
  "upd_thread p f s = s\<lparr>threads := (threads s)(p := f (threads s p))\<rparr>"

abbreviation queue_next :: "'a scheduler_scheme \<Rightarrow> u32 \<Rightarrow> u32" where
  "queue_next s \<equiv> \<lambda>p. p_next (processes s p)"

section \<open>\<open>process.c\<close>\<close>

definition zero_process :: process where
  "zero_process = \<lparr>p_thread = 0, p_pgdir = 0, p_flags = 0, p_quantum = 0, p_next = 0\<rparr>"

definition process_create :: "nat \<Rightarrow> u32 \<Rightarrow> u32 \<Rightarrow> 'a scheduler_scheme \<Rightarrow> (u32 \<times> 'a scheduler_scheme) kres" where
  "process_create fuel ra process s =
     (if process = 0 then
        kbind (kcalloc fuel ra 1 20 s) (\<lambda>(p, s1).
        if p = 0 then Inl (Undefined ''null process'')
        else Inr (p, upd_process p (\<lambda>_. zero_process\<lparr>p_flags := 0 OR PROC_FREE\<rparr>) s1))
      else Inr (process, s))"

definition process_yield :: "'a scheduler_scheme \<Rightarrow> ('a scheduler_scheme) kres" where
  "process_yield s =
     kbind (int_lock_region s) (\<lambda>(lock, s1).
     kbind (nonnull (g_current_process s1)) (\<lambda>_.
     int_unlock_region lock
       (upd_process (g_current_process s1) (\<lambda>p. p\<lparr>p_flags := p_flags p OR PROC_DEBUG_YIELD\<rparr>) s1)))"

section \<open>\<open>scheduler.c\<close>\<close>

definition scheduler_init :: "nat \<Rightarrow> u32 \<Rightarrow> 'a scheduler_scheme \<Rightarrow> ('a scheduler_scheme) kres" where
  "scheduler_init fuel ra s =
     int_register_irq_handler fuel ra IRQ_PIT (Some Scheduler_Tick)
       (s\<lparr>process_queue := 0, g_preemption_enabled := True\<rparr>)"

text \<open>The loop of \<open>scheduler_add_process\<close>: the last node, or \<open>None\<close> if \<open>p\<close> is met.\<close>

primrec queue_walk :: "nat \<Rightarrow> u32 \<Rightarrow> u32 \<Rightarrow> (u32 \<Rightarrow> u32) \<Rightarrow> (u32 option) kres" where
  "queue_walk 0 p node nx = Inl Nesting"
| "queue_walk (Suc n) p node nx =
     (if nx node \<noteq> 0 then if nx node = p then Inr None else queue_walk n p (nx node) nx
      else Inr (Some node))"

definition scheduler_add_process :: "nat \<Rightarrow> u32 \<Rightarrow> 'a scheduler_scheme \<Rightarrow> (bool \<times> 'a scheduler_scheme) kres" where
  "scheduler_add_process fuel p s =
     kbind (kassert (p \<noteq> 0) ''p'') (\<lambda>_.
     kbind (int_lock_region
       (worry_if (queue_next s p \<noteq> 0) ''process has residual queue information'' s)) (\<lambda>(lock, s1).
     kbind (if process_queue s1 = 0 then Inr (True, s1\<lparr>process_queue := p\<rparr>)
            else if process_queue s1 = p then Inr (False, s1)
            else kbind (queue_walk fuel p (process_queue s1) (queue_next s1)) (\<lambda>r.
              case r of None \<Rightarrow> Inr (False, s1)
              | Some node \<Rightarrow> Inr (True, upd_process node (\<lambda>q. q\<lparr>p_next := p\<rparr>) s1))) (\<lambda>(ret, s2).
     kbind (int_unlock_region lock s2) (\<lambda>s3. Inr (ret, s3)))))"

definition scheduler_find_next_best :: "'a scheduler_scheme \<Rightarrow> (u32 \<times> 'a scheduler_scheme) kres" where
  "scheduler_find_next_best s =
     kbind (int_lock_region s) (\<lambda>(lock, s1).
     kbind (kassert (g_current_process s1 \<noteq> 0) ''g_current_process'') (\<lambda>_.
     let next = queue_next s1 (g_current_process s1);
         next1 = (if next = 0 then process_queue s1 else next)
     in kbind (int_unlock_region lock s1) (\<lambda>s2. Inr (next1, s2))))"

text \<open>The size that the code computes from the context is not used and left out.\<close>

definition scheduler_advance_stage1 :: "u32 \<Rightarrow> u32 \<Rightarrow> 'a scheduler_scheme \<Rightarrow> ('a scheduler_scheme) kres" where
  "scheduler_advance_stage1 ra context s =
     kbind (int_lock_region s) (\<lambda>(lock, s1).
     let p = g_current_process s1;
         s2 = upd_process p (\<lambda>q. q\<lparr>p_flags := p_flags q AND NOT PROC_DEBUG_YIELD\<rparr>) s1
     in kbind (nonnull p) (\<lambda>_. kbind (if p_flags (processes s2 p) AND PROC_FREE_THREAD_CONTEXT \<noteq> 0 then
                 let s3 = upd_process p (\<lambda>q. q\<lparr>p_flags := p_flags q AND NOT PROC_FREE_THREAD_CONTEXT\<rparr>) s2
                 in kfree ra (th_context (threads s3 (p_thread (processes s3 p)))) s3
               else Inr s2) (\<lambda>s4.
        let s5 = upd_thread (p_thread (processes s4 p)) (\<lambda>t. t\<lparr>th_context := context\<rparr>) s4 in
        kbind (scheduler_find_next_best s5) (\<lambda>(next, s6).
        int_unlock_region lock (s6\<lparr>g_current_process := next\<rparr>)))))"

definition scheduler_tick :: "'a scheduler_scheme \<Rightarrow> ('a scheduler_scheme) kres" where
  "scheduler_tick s =
     kbind (int_lock_region s) (\<lambda>(lock, s1).
     let p = g_current_process s1;
         s2 = upd_process p (\<lambda>q. q\<lparr>p_quantum := p_quantum q - 1\<rparr>) s1
     in kbind (nonnull p) (\<lambda>_.
        kbind (if p_flags (processes s2 p) AND PROC_DEBUG_YIELD \<noteq> 0 \<or> p_quantum (processes s2 p) = 0
               then kbind (nonnull (process_queue s2)) (\<lambda>_.
                 Inr (if queue_next s2 (process_queue s2) \<noteq> 0 then s2\<lparr>g_switch_processes := True\<rparr> else s2))
               else Inr s2) (int_unlock_region lock)))"

text \<open>The end of \<open>int_handler_stub\<close> with \<open>scheduler_advance_stage2\<close>; the result also has the stack
  pointer the interrupt returns with.\<close>

definition interrupt_exit :: "u32 \<Rightarrow> u32 \<Rightarrow> 'a scheduler_scheme \<Rightarrow> (u32 \<times> 'a scheduler_scheme) kres" where
  "interrupt_exit ra context s =
     (if g_preemption_enabled s \<and> g_switch_processes s then
        kbind (scheduler_advance_stage1 ra context s) (\<lambda>s1.
        Inr (th_context (threads s1 (p_thread (processes s1 (g_current_process s1)))),
             s1\<lparr>g_switch_processes := False\<rparr>))
      else Inr (context, s))"

section \<open>The queue\<close>

lemma sched_set_raw_mask [simp]:
  "processes (set_raw_mask m s) = processes s" "threads (set_raw_mask m s) = threads s"
  "process_queue (set_raw_mask m s) = process_queue s" "g_current_process (set_raw_mask m s) = g_current_process s"
  "g_switch_processes (set_raw_mask m s) = g_switch_processes s"
  "g_preemption_enabled (set_raw_mask m s) = g_preemption_enabled s"
  by (simp_all add: set_raw_mask_def ioport_outb_def Let_def)

lemma sched_locked [simp]:
  "processes (locked s) = processes s" "threads (locked s) = threads s"
  "process_queue (locked s) = process_queue s" "g_current_process (locked s) = g_current_process s"
  "g_switch_processes (locked s) = g_switch_processes s"
  "g_preemption_enabled (locked s) = g_preemption_enabled s"
  by (simp_all add: locked_def)

lemma sched_unlocked [simp]:
  "processes (unlocked l s) = processes s" "threads (unlocked l s) = threads s"
  "process_queue (unlocked l s) = process_queue s" "g_current_process (unlocked l s) = g_current_process s"
  "g_switch_processes (unlocked l s) = g_switch_processes s"
  "g_preemption_enabled (unlocked l s) = g_preemption_enabled s"
  by (simp_all add: unlocked_def)

lemma sched_worry [simp]:
  "processes (worry_if b m s) = processes s" "threads (worry_if b m s) = threads s"
  "process_queue (worry_if b m s) = process_queue s" "g_current_process (worry_if b m s) = g_current_process s"
  by (simp_all add: worry_if_def worry_def)

lemma upd_process_sel [simp]:
  "processes (upd_process p f s) = (processes s)(p := f (processes s p))" "threads (upd_process p f s) = threads s"
  "process_queue (upd_process p f s) = process_queue s" "g_current_process (upd_process p f s) = g_current_process s"
  "irq_mask (upd_process p f s) = irq_mask s" "g_switch_processes (upd_process p f s) = g_switch_processes s"
  "g_preemption_enabled (upd_process p f s) = g_preemption_enabled s"
  by (simp_all add: upd_process_def)

lemma upd_thread_sel [simp]:
  "processes (upd_thread p f s) = processes s" "threads (upd_thread p f s) = (threads s)(p := f (threads s p))"
  "process_queue (upd_thread p f s) = process_queue s" "g_current_process (upd_thread p f s) = g_current_process s"
  "irq_mask (upd_thread p f s) = irq_mask s" "g_switch_processes (upd_thread p f s) = g_switch_processes s"
  "g_preemption_enabled (upd_thread p f s) = g_preemption_enabled s"
  by (simp_all add: upd_thread_def)

lemma unlock_same_mask:
  "irq_mask t = irq_mask (locked s) \<Longrightarrow>
    int_unlock_region (irq_enabled IRQ_PIT s) t = Inr (unlocked (irq_enabled IRQ_PIT s) t)"
  by (rule region_mask_restored(1))

definition queued :: "'a scheduler_scheme \<Rightarrow> u32 list \<Rightarrow> bool" where
  "queued s xs \<longleftrightarrow> chain (queue_next s) (process_queue s) xs"

text \<open>The walk meets \<open>p\<close> exactly if it is behind the first node.\<close>

lemma queue_walk_spec:
  "chain nx node (node # xs) \<Longrightarrow> p \<noteq> 0 \<Longrightarrow> length xs < n \<Longrightarrow>
    queue_walk n p node nx = Inr (if p \<in> set xs then None else Some (List.last (node # xs)))"
proof (induction xs arbitrary: node n)
  case Nil
  then obtain m where "n = Suc m" by (cases n) simp_all
  with Nil show ?case by simp
next
  case (Cons x xs)
  then obtain m where n: "n = Suc m" by (cases n) simp_all
  have x: "nx node = x" "x \<noteq> 0" and "chain nx x (x # xs)" using Cons.prems(1) by auto
  with Cons n have "queue_walk m p x nx = Inr (if p \<in> set xs then None else Some (List.last (x # xs)))"
    by (intro Cons.IH) simp_all
  with x n show ?case by simp
qed

lemma chain_append_link:
  "chain nx h xs \<Longrightarrow> xs \<noteq> [] \<Longrightarrow> p \<noteq> 0 \<Longrightarrow> p \<notin> set xs \<Longrightarrow> nx p = 0 \<Longrightarrow>
    chain (nx(List.last xs := p)) h (xs @ [p])"
  using chain_snoc_link [of nx h "butlast xs" "List.last xs" p] append_butlast_last_id [of xs]
  by (metis append.assoc append_Cons append_Nil in_set_butlastD last_in_set)

lemma add_process_spec:
  assumes xs: "queued s xs" and p: "p \<noteq> 0" "p \<in> set xs \<or> queue_next s p = 0" and fuel: "length xs \<le> n"
  shows "\<exists>s'. scheduler_add_process n p s = Inr (p \<notin> set xs, s') \<and>
    queued s' (if p \<in> set xs then xs else xs @ [p]) \<and> g_current_process s' = g_current_process s \<and>
    (\<forall>q. p_flags (processes s' q) = p_flags (processes s q))"
proof -
  define s0 where "s0 = worry_if (queue_next s p \<noteq> 0) ''process has residual queue information'' s"
  define s1 where "s1 = locked s0"
  have s1: "processes s1 = processes s" "process_queue s1 = process_queue s" "g_current_process s1 = g_current_process s"
    by (simp_all add: s1_def s0_def)
  let ?l = "irq_enabled IRQ_PIT s0"
  have unlock: "int_unlock_region ?l t = Inr (unlocked ?l t)" if "irq_mask t = irq_mask s1" for t
    using that unfolding s1_def by (rule unlock_same_mask)
  have run: "scheduler_add_process n p s =
     kbind (if process_queue s = 0 then Inr (True, s1\<lparr>process_queue := p\<rparr>)
            else if process_queue s = p then Inr (False, s1)
            else kbind (queue_walk n p (process_queue s) (queue_next s)) (\<lambda>r.
              case r of None \<Rightarrow> Inr (False, s1)
              | Some node \<Rightarrow> Inr (True, upd_process node (\<lambda>q. q\<lparr>p_next := p\<rparr>) s1))) (\<lambda>(ret, s2).
     kbind (int_unlock_region ?l s2) (\<lambda>s3. Inr (ret, s3)))"
    unfolding scheduler_add_process_def s0_def [symmetric] int_lock_region_eq s1_def [symmetric]
    using p(1) s1 by simp
  have chain: "chain (queue_next s) (process_queue s) xs" using xs by (simp add: queued_def)
  show ?thesis
  proof (cases xs)
    case Nil
    then have "process_queue s = 0" "queue_next s p = 0" using chain p(2) by simp_all
    then show ?thesis unfolding run using Nil s1 p(1) by (simp add: unlock queued_def)
  next
    case (Cons x ys)
    have x: "process_queue s = x" "x \<noteq> 0" using chain Cons by simp_all
    show ?thesis
    proof (cases "p = x")
      case True
      then show ?thesis unfolding run using x xs Cons s1 by (simp add: unlock queued_def)
    next
      case False
      have walk: "queue_walk n p x (queue_next s) = Inr (if p \<in> set ys then None else Some (List.last xs))"
        using queue_walk_spec [of "queue_next s" x ys p n] chain Cons fuel p by simp
      show ?thesis
      proof (cases "p \<in> set ys")
        case True
        then show ?thesis
          unfolding run using walk x xs Cons False s1 by (simp add: unlock queued_def)
      next
        case notin: False
        have link: "chain ((queue_next s)(List.last xs := p)) x (xs @ [p])"
          using chain_append_link [OF chain, of p] Cons x p notin False by auto
        have nx: "queue_next (unlocked ?l (upd_process (List.last xs) (\<lambda>q. q\<lparr>p_next := p\<rparr>) s1)) =
            (queue_next s)(List.last xs := p)" using s1 by auto
        have "scheduler_add_process n p s =
            Inr (True, unlocked ?l (upd_process (List.last xs) (\<lambda>q. q\<lparr>p_next := p\<rparr>) s1))"
          unfolding run using walk x False notin by (simp add: unlock)
        moreover have "queued (unlocked ?l (upd_process (List.last xs) (\<lambda>q. q\<lparr>p_next := p\<rparr>) s1)) (xs @ [p])"
          unfolding queued_def nx using link x s1 by simp
        ultimately show ?thesis using notin False Cons s1 by simp
      qed
    qed
  qed
qed

text \<open>\<open>scheduler_add_process\<close> puts a process that is not on the queue at its end and returns true;
  for a process that is on the queue it returns false and leaves the queue as it is.\<close>

lemma scheduler_add_process_appends:
  assumes "queued s xs" and "p \<noteq> 0" and "p \<in> set xs \<or> queue_next s p = 0" and "length xs \<le> n"
  shows "\<exists>s'. scheduler_add_process n p s = Inr (p \<notin> set xs, s') \<and>
    queued s' (if p \<in> set xs then xs else xs @ [p]) \<and> g_current_process s' = g_current_process s"
  using add_process_spec [OF assms] by blast

section \<open>Round robin\<close>

lemma chain_first: "chain nx h xs \<Longrightarrow> xs \<noteq> [] \<Longrightarrow> h = xs ! 0"
  by (cases xs) auto

lemma chain_nth: "chain nx h xs \<Longrightarrow> i < length xs \<Longrightarrow>
    nx (xs ! i) = (if Suc i < length xs then xs ! Suc i else 0) \<and> xs ! i \<noteq> 0"
proof (induction xs arbitrary: h i)
  case (Cons x xs)
  then show ?case
    by (cases i; cases xs) auto
qed simp

text \<open>The process after the current one, cyclically.\<close>

definition next_process :: "'a scheduler_scheme \<Rightarrow> u32" where
  "next_process s =
     (if queue_next s (g_current_process s) = 0 then process_queue s else queue_next s (g_current_process s))"

lemma next_process_nth:
  assumes "queued s xs" and "i < length xs" and "g_current_process s = xs ! i"
  shows "next_process s = xs ! (Suc i mod length xs)"
proof -
  have chain: "chain (queue_next s) (process_queue s) xs" using assms(1) by (simp add: queued_def)
  show ?thesis
  proof (cases "Suc i < length xs")
    case True
    then have "xs ! Suc i \<noteq> 0" using chain_nth [OF chain] by blast
    then show ?thesis using chain_nth [OF chain assms(2)] assms(3) True by (simp add: next_process_def)
  next
    case False
    then have "Suc i = length xs" using assms(2) by simp
    then have "Suc i mod length xs = 0" "xs \<noteq> []" by auto
    then show ?thesis
      using chain_nth [OF chain assms(2)] chain_first [OF chain] assms False by (auto simp: next_process_def)
  qed
qed

lemma find_next_best_eq:
  "g_current_process s \<noteq> 0 \<Longrightarrow>
    scheduler_find_next_best s = Inr (next_process s, unlocked (irq_enabled IRQ_PIT s) (locked s))"
  using unlock_same_mask [of "locked s" s]
  by (simp add: scheduler_find_next_best_def int_lock_region_eq next_process_def Let_def)

definition keeps_context :: "'a scheduler_scheme \<Rightarrow> u32 \<Rightarrow> bool" where
  "keeps_context s p \<longleftrightarrow> p_flags (processes s p) AND PROC_FREE_THREAD_CONTEXT = 0"

lemma keeps_context_and: "keeps_context s p \<Longrightarrow>
    (p_flags (processes s p) AND m) AND PROC_FREE_THREAD_CONTEXT = 0"
  unfolding keeps_context_def by (metis and.assoc and.commute zero_and_eq)

lemma stage1_step:
  assumes "g_current_process s \<noteq> 0" and "keeps_context s (g_current_process s)"
  shows "\<exists>s'. scheduler_advance_stage1 ra context s = Inr s' \<and> g_current_process s' = next_process s \<and>
    process_queue s' = process_queue s \<and> g_preemption_enabled s' = g_preemption_enabled s \<and>
    processes s' = (processes s)(g_current_process s := (processes s (g_current_process s))
      \<lparr>p_flags := p_flags (processes s (g_current_process s)) AND NOT PROC_DEBUG_YIELD\<rparr>) \<and>
    threads s' = (threads s)(p_thread (processes s (g_current_process s)) :=
      (threads s (p_thread (processes s (g_current_process s))))\<lparr>th_context := context\<rparr>) \<and> irq_mask s' = irq_mask s"
proof -
  let ?p = "g_current_process s" and ?l = "irq_enabled IRQ_PIT s"
  define s2 where "s2 = upd_process ?p (\<lambda>q. q\<lparr>p_flags := p_flags q AND NOT PROC_DEBUG_YIELD\<rparr>) (locked s)"
  define s5 where "s5 = upd_thread (p_thread (processes s2 ?p)) (\<lambda>t. t\<lparr>th_context := context\<rparr>) s2"
  have noflag: "p_flags (processes s2 ?p) AND PROC_FREE_THREAD_CONTEXT = 0"
    using keeps_context_and [OF assms(2)] by (simp add: s2_def)
  have s5: "g_current_process s5 = ?p" "irq_mask s5 = irq_mask (locked s)" by (simp_all add: s5_def s2_def)
  have nxt: "next_process s5 = next_process s" by (simp add: next_process_def s5_def s2_def)
  have off: "\<not> irq_enabled IRQ_PIT s5" using irq_enabled_cong [OF s5(2)] by simp
  then have "locked s5 = s5" "unlocked False s5 = s5" by (simp_all add: locked_def unlocked_def)
  then have find: "scheduler_find_next_best s5 = Inr (next_process s, s5)"
    using find_next_best_eq [of s5] assms(1) off nxt s5(1) by simp
  have "scheduler_advance_stage1 ra context s =
      kbind (scheduler_find_next_best s5) (\<lambda>(next, s6). int_unlock_region ?l (s6\<lparr>g_current_process := next\<rparr>))"
    unfolding scheduler_advance_stage1_def int_lock_region_eq
    using noflag keeps_context_and [OF assms(2)] assms(1) by (simp add: Let_def nonnull_def s2_def [symmetric] s5_def [symmetric])
  also have "\<dots> = Inr (unlocked ?l (s5\<lparr>g_current_process := next_process s\<rparr>))"
    unfolding find using unlock_same_mask [of "s5\<lparr>g_current_process := next_process s\<rparr>" s] s5(2) by simp
  moreover have "irq_mask (unlocked ?l (s5\<lparr>g_current_process := next_process s\<rparr>)) = irq_mask s"
    by (rule unlocked_mask) (simp add: s5(2))
  ultimately show ?thesis by (simp add: s5_def s2_def)
qed

text \<open>A sequence of steps, each with an input. The locale \<open>rotation\<close> is the contract of a scheduler: every
  step moves on to the next element of a list that stays as it is. Its instances are the switch here and
  the whole turn of a task in \<open>KernelMain\<close>.\<close>

primrec run_all :: "('c \<Rightarrow> 's \<Rightarrow> 's kres) \<Rightarrow> 'c list \<Rightarrow> 's \<Rightarrow> 's kres" where
  "run_all step [] s = Inr s"
| "run_all step (c # ins) s = kbind (step c s) (run_all step ins)"

locale rotation =
  fixes holds :: "'s \<Rightarrow> 'p list \<Rightarrow> bool"
    and current :: "'s \<Rightarrow> 'p"
    and allowed :: "'c \<Rightarrow> bool"
    and step :: "'c \<Rightarrow> 's \<Rightarrow> 's kres"
  assumes step_law: "holds s xs \<Longrightarrow> i < length xs \<Longrightarrow> current s = xs ! i \<Longrightarrow> allowed c \<Longrightarrow>
    \<exists>t. step c s = Inr t \<and> holds t xs \<and> current t = xs ! (Suc i mod length xs)"
begin

lemma run_all_rotates:
  "holds s xs \<Longrightarrow> i < length xs \<Longrightarrow> current s = xs ! i \<Longrightarrow> list_all allowed ins \<Longrightarrow>
    \<exists>t. run_all step ins s = Inr t \<and> holds t xs \<and> current t = xs ! ((i + length ins) mod length xs)"
proof (induction ins arbitrary: s i)
  case (Cons c ins)
  then obtain u where u: "step c s = Inr u" "holds u xs" "current u = xs ! (Suc i mod length xs)"
    using step_law [of s xs i c] by auto
  have "Suc i mod length xs < length xs" using Cons.prems(2) by (intro mod_less_divisor) auto
  from Cons.IH [OF u(2) this u(3)] Cons.prems(4) u(1) show ?case by (auto simp: mod_simps)
qed simp

lemma comes_round:
  assumes "holds s xs" "i < length xs" "current s = xs ! i" "j < length xs" "allowed c"
  shows "\<exists>k t. k \<le> length xs \<and> run_all step (replicate k c) s = Inr t \<and> current t = xs ! j"
proof -
  define k where "k = (if i \<le> j then j - i else length xs - i + j)"
  have "(i + k) mod length xs = j" "k \<le> length xs" using assms(2,4) by (auto simp: k_def)
  then show ?thesis
    using run_all_rotates [OF assms(1-3), of "replicate k c"] assms(5) by (auto simp: list_all_iff)
qed

end

definition rotatable :: "'a scheduler_scheme \<Rightarrow> u32 list \<Rightarrow> bool" where
  "rotatable s xs \<longleftrightarrow> queued s xs \<and> (\<forall>x \<in> set xs. keeps_context s x)"

lemma stage1_rotates:
  assumes "rotatable s xs" and "i < length xs" and "g_current_process s = xs ! i"
  shows "\<exists>t. scheduler_advance_stage1 ra c s = Inr t \<and> rotatable t xs \<and>
    g_current_process t = xs ! (Suc i mod length xs)"
proof -
  let ?p = "g_current_process s"
  have q: "queued s xs" and keeps: "\<And>x. x \<in> set xs \<Longrightarrow> keeps_context s x"
    using assms(1) by (auto simp: rotatable_def)
  have "?p \<in> set xs" "?p \<noteq> 0"
    using assms(2,3) q chain_nth [of "queue_next s" "process_queue s" xs i] by (simp_all add: queued_def)
  then obtain t where t: "scheduler_advance_stage1 ra c s = Inr t" "g_current_process t = next_process s"
    "process_queue t = process_queue s" "processes t = (processes s)(?p := (processes s ?p)
      \<lparr>p_flags := p_flags (processes s ?p) AND NOT PROC_DEBUG_YIELD\<rparr>)"
    using stage1_step [of s ra c] keeps by blast
  have "queue_next t = queue_next s" using t(4) by auto
  then have "queued t xs" using q t(3) by (simp add: queued_def)
  moreover have "keeps_context t x" if "x \<in> set xs" for x
    using keeps [OF that] keeps_context_and [of s x] t(4) by (auto simp: keeps_context_def)
  ultimately show ?thesis
    using t(1,2) next_process_nth [OF q assms(2,3)] by (auto simp: rotatable_def)
qed

interpretation switching: rotation rotatable g_current_process "\<lambda>_. True" "scheduler_advance_stage1 ra" for ra
  by unfold_locales (rule stage1_rotates)

text \<open>C6. The scheduler is a round robin: if the current process is the \<open>i\<close>-th of a queue of \<open>n\<close>
  processes, then after \<open>k\<close> switches, each with the address of the context of the interrupted thread, it is
  the one at position \<open>i + k\<close> modulo \<open>n\<close>, and every process on the queue is current again after at most
  \<open>n\<close> switches; the queue stays as it is.\<close>

theorem round_robin:
  assumes "rotatable s xs" and "i < length xs" and "g_current_process s = xs ! i"
  shows "(\<exists>t. run_all (scheduler_advance_stage1 ra) contexts s = Inr t \<and> queued t xs \<and>
      g_current_process t = xs ! ((i + length contexts) mod length xs)) \<and>
    (\<forall>j < length xs. \<exists>k t. k \<le> length xs \<and>
      run_all (scheduler_advance_stage1 ra) (replicate k c) s = Inr t \<and> g_current_process t = xs ! j)"
  using switching.run_all_rotates [OF assms, of contexts ra] switching.comes_round [OF assms, of _ ra c]
  by (auto simp: rotatable_def list_all_iff)

section \<open>Ticks\<close>

definition wants_switch :: "process \<Rightarrow> bool" where
  "wants_switch p \<longleftrightarrow> p_flags p AND PROC_DEBUG_YIELD \<noteq> 0 \<or> p_quantum p = 1"

lemma set_own_switch: "s\<lparr>g_switch_processes := g_switch_processes s\<rparr> = s"
  by simp

definition tick_result :: "'a scheduler_scheme \<Rightarrow> 'a scheduler_scheme" where
  "tick_result s = unlocked (irq_enabled IRQ_PIT s)
    ((locked s)\<lparr>processes := (processes s)(g_current_process s := (processes s (g_current_process s))
        \<lparr>p_quantum := p_quantum (processes s (g_current_process s)) - 1\<rparr>),
      g_switch_processes := g_switch_processes s \<or>
        wants_switch (processes s (g_current_process s)) \<and> queue_next s (process_queue s) \<noteq> 0\<rparr>)"

lemma scheduler_tick_eq:
  "scheduler_tick s = (if g_current_process s = 0 \<or> wants_switch (processes s (g_current_process s)) \<and> process_queue s = 0
    then Inl (Undefined ''null pointer'') else Inr (tick_result s))"
proof -
  let ?p = "g_current_process s" and ?l = "irq_enabled IRQ_PIT s"
  define s2 where "s2 = upd_process ?p (\<lambda>q. q\<lparr>p_quantum := p_quantum q - 1\<rparr>) (locked s)"
  define s3 where "s3 = (if wants_switch (processes s ?p) \<and> queue_next s (process_queue s) \<noteq> 0
    then s2\<lparr>g_switch_processes := True\<rparr> else s2)"
  have q: "queue_next s2 = queue_next s" by (auto simp: s2_def)
  have "p_flags (processes s2 ?p) AND PROC_DEBUG_YIELD \<noteq> 0 \<or> p_quantum (processes s2 ?p) = 0 \<longleftrightarrow>
      wants_switch (processes s ?p)"
    by (auto simp: s2_def wants_switch_def)
  then have "scheduler_tick s = (if ?p = 0 \<or> wants_switch (processes s ?p) \<and> process_queue s = 0
      then Inl (Undefined ''null pointer'') else int_unlock_region ?l s3)"
    using fun_cong [OF q, of "process_queue s"]
    unfolding scheduler_tick_def int_lock_region_eq Let_def kbind_Inr prod.case sched_locked s2_def [symmetric]
    by (simp add: s3_def s2_def nonnull_def)
  moreover have "irq_mask s3 = irq_mask (locked s)" by (simp add: s3_def s2_def)
  ultimately have "scheduler_tick s = (if ?p = 0 \<or> wants_switch (processes s ?p) \<and> process_queue s = 0
      then Inl (Undefined ''null pointer'') else Inr (unlocked ?l s3))" using unlock_same_mask by metis
  moreover have "s3 = s2\<lparr>g_switch_processes := g_switch_processes s \<or>
      wants_switch (processes s ?p) \<and> queue_next s (process_queue s) \<noteq> 0\<rparr>"
  proof (cases "wants_switch (processes s ?p) \<and> queue_next s (process_queue s) \<noteq> 0")
    case False
    have "g_switch_processes s2 = g_switch_processes s" by (simp add: s2_def)
    with set_own_switch [of s2] have "s2\<lparr>g_switch_processes := g_switch_processes s\<rparr> = s2" by (simp only:)
    then show ?thesis by (simp only: s3_def False if_False simp_thms)
  qed (simp only: s3_def if_True simp_thms)
  ultimately show ?thesis by (simp only: s2_def upd_process_def sched_locked tick_result_def)
qed

lemma tick_result_sel:
  "process_queue (tick_result s) = process_queue s" "threads (tick_result s) = threads s"
  "g_current_process (tick_result s) = g_current_process s" "g_preemption_enabled (tick_result s) = g_preemption_enabled s"
  "processes (tick_result s) = (processes s)(g_current_process s := (processes s (g_current_process s))
      \<lparr>p_quantum := p_quantum (processes s (g_current_process s)) - 1\<rparr>)"
  "g_switch_processes (tick_result s) \<longleftrightarrow> g_switch_processes s \<or>
      wants_switch (processes s (g_current_process s)) \<and> queue_next s (process_queue s) \<noteq> 0"
  by (simp_all add: tick_result_def)

lemma tick_Inr: "scheduler_tick s = Inr t \<Longrightarrow> t = tick_result s"
  by (simp add: scheduler_tick_eq split: if_splits)

lemma tick_runs:
  "g_current_process s \<noteq> 0 \<Longrightarrow> process_queue s \<noteq> 0 \<or> \<not> wants_switch (processes s (g_current_process s)) \<Longrightarrow>
    scheduler_tick s = Inr (tick_result s)"
  by (auto simp: scheduler_tick_eq)

primrec ticks :: "nat \<Rightarrow> 'a scheduler_scheme \<Rightarrow> ('a scheduler_scheme) kres" where
  "ticks 0 s = Inr s"
| "ticks (Suc n) s = kbind (scheduler_tick s) (ticks n)"

text \<open>C34. The quantum of a process is never filled up again: when it has reached zero, which a context
  switch does not change, the next tick wraps it around, and the process runs for 4294967295 more ticks
  without a request to switch.\<close>

theorem exhausted_quantum_wraps:
  assumes "p_quantum (processes s (g_current_process s)) = 0 \<and>
      p_flags (processes s (g_current_process s)) AND PROC_DEBUG_YIELD = 0"
    and "\<not> g_switch_processes s" and "n < 4294967296" and "g_current_process s \<noteq> 0"
  shows "\<exists>s'. ticks n s = Inr s' \<and> \<not> g_switch_processes s' \<and>
    p_quantum (processes s' (g_current_process s')) = - of_nat n"
proof -
  have run: "\<exists>s'. ticks n s = Inr s' \<and> \<not> g_switch_processes s' \<and>
      p_quantum (processes s' (g_current_process s')) = q - of_nat n"
    if "p_quantum (processes s (g_current_process s)) = q" "p_flags (processes s (g_current_process s)) AND PROC_DEBUG_YIELD = 0"
      "\<not> g_switch_processes s" "\<forall>i < n. q - of_nat i \<noteq> 1" "g_current_process s \<noteq> 0" for q n and s :: "'a scheduler_scheme"
    using that
  proof (induction n arbitrary: s q)
    case (Suc n)
    let ?p = "g_current_process s"
    have "q \<noteq> 1" using Suc.prems(4) by force
    then have "\<not> wants_switch (processes s ?p)" using Suc.prems by (simp add: wants_switch_def)
    then obtain s1 where s1: "scheduler_tick s = Inr s1"
      "g_current_process s1 = ?p" "\<not> g_switch_processes s1"
      "processes s1 = (processes s)(?p := (processes s ?p)\<lparr>p_quantum := p_quantum (processes s ?p) - 1\<rparr>)"
      using tick_runs [of s] Suc.prems(3,5) by (simp add: tick_result_sel)
    have "\<forall>i < n. (q - 1) - of_nat i \<noteq> 1"
    proof (intro allI impI)
      fix i assume "i < n"
      then have "q - of_nat (Suc i) \<noteq> 1" using Suc.prems(4) by (meson Suc_mono)
      then show "(q - 1) - of_nat i \<noteq> 1" by (simp add: algebra_simps)
    qed
    from Suc.IH [of s1 "q - 1", OF _ _ s1(3) this] s1 Suc.prems(1,2,5) show ?case
      by (simp add: algebra_simps)
  qed simp
  have "\<forall>i < n. (0 :: u32) - of_nat i \<noteq> 1"
  proof (intro allI impI notI)
    fix i assume "i < n" and "(0 :: u32) - of_nat i = 1"
    then have "(of_nat i :: u32) = - 1" by (metis diff_0 minus_minus)
    then have "i = 4294967295"
      using unat_of_nat_u32 [of i] \<open>i < n\<close> assms(3) by simp
    then show False using \<open>i < n\<close> assms(3) by simp
  qed
  then show ?thesis using run [of s 0 n] assms(1,2,4) by simp
qed

section \<open>Runs of the scheduler\<close>

text \<open>
  One step: a process structure that is not on the queue is filled in, a process is added, the
  current process yields, the clock ticks, or an interrupt ends (with or without a switch).
\<close>

inductive sched_step :: "'a scheduler_scheme \<Rightarrow> 'a scheduler_scheme \<Rightarrow> bool" where
  fill: "queued s xs \<Longrightarrow> p \<notin> set xs \<Longrightarrow> p_next q = 0 \<Longrightarrow> p_flags q AND PROC_FREE_THREAD_CONTEXT = 0 \<Longrightarrow>
    sched_step s (upd_process p (\<lambda>_. q) s)"
| add: "p \<noteq> 0 \<Longrightarrow> queue_next s p = 0 \<Longrightarrow> scheduler_add_process n p s = Inr (b, t) \<Longrightarrow> sched_step s t"
| yield: "process_yield s = Inr t \<Longrightarrow> sched_step s t"
| tick: "scheduler_tick s = Inr t \<Longrightarrow> sched_step s t"
| leave: "interrupt_exit ra context s = Inr (stack, t) \<Longrightarrow> sched_step s t"

inductive sched_run :: "'a scheduler_scheme \<Rightarrow> 'a scheduler_scheme \<Rightarrow> bool" where
  start: "sched_run s s"
| more: "sched_run s t \<Longrightarrow> sched_step t u \<Longrightarrow> sched_run s u"

definition sched_ok :: "'a scheduler_scheme \<Rightarrow> bool" where
  "sched_ok s \<longleftrightarrow> (\<exists>xs. queued s xs \<and> g_current_process s \<in> set xs) \<and> (\<forall>p. keeps_context s p)"

lemma queue_walk_mono: "queue_walk n p node nx = Inr r \<Longrightarrow> n \<le> m \<Longrightarrow> queue_walk m p node nx = Inr r"
proof (induction n arbitrary: node m)
  case (Suc n)
  then show ?case by (cases m) (auto split: if_splits)
qed simp

lemma add_process_mono:
  "scheduler_add_process n p s = Inr r \<Longrightarrow> n \<le> m \<Longrightarrow> scheduler_add_process m p s = Inr r"
  unfolding scheduler_add_process_def kbind_eq_Inr
  by (fastforce simp: kbind_eq_Inr dest: queue_walk_mono split: if_splits)

lemma sched_okI: "queued s xs \<Longrightarrow> g_current_process s \<in> set xs \<Longrightarrow> (\<And>p. keeps_context s p) \<Longrightarrow> sched_ok s"
  by (auto simp: sched_ok_def)

lemma sched_ok_add:
  assumes "sched_ok s" and "p \<noteq> 0" and "queue_next s p = 0" and "scheduler_add_process n p s = Inr (b, t)"
  shows "sched_ok t"
proof -
  obtain xs where xs: "queued s xs" "g_current_process s \<in> set xs" and ctx: "\<And>p. keeps_context s p"
    using assms(1) by (auto simp: sched_ok_def)
  have m: "scheduler_add_process (max n (length xs)) p s = Inr (b, t)"
    using assms(4) by (rule add_process_mono) simp
  from add_process_spec [OF xs(1) assms(2), of "max n (length xs)"] assms(3) m
  have "queued t (if p \<in> set xs then xs else xs @ [p])" "g_current_process t = g_current_process s"
    "\<And>q. p_flags (processes t q) = p_flags (processes s q)" by auto
  then show ?thesis
    using xs(2) ctx by (intro sched_okI [of t "if p \<in> set xs then xs else xs @ [p]"]) (simp_all add: keeps_context_def)
qed

lemma sched_ok_upd_current:
  assumes "sched_ok s" and "process_queue t = process_queue s" "g_current_process t = g_current_process s"
    and "processes t = (processes s)(p := f (processes s p))" and "p_next (f (processes s p)) = p_next (processes s p)"
    and "p_flags (f (processes s p)) AND PROC_FREE_THREAD_CONTEXT = p_flags (processes s p) AND PROC_FREE_THREAD_CONTEXT"
  shows "sched_ok t"
proof -
  have "queue_next t = queue_next s" using assms(4,5) by auto
  then show ?thesis
    using assms(1-3,4,6) unfolding sched_ok_def queued_def keeps_context_def by simp
qed

lemma yield_runs:
  assumes "g_current_process s \<noteq> 0"
  shows "\<exists>t. process_yield s = Inr t \<and> process_queue t = process_queue s \<and> g_current_process t = g_current_process s \<and>
    threads t = threads s \<and> g_preemption_enabled t = g_preemption_enabled s \<and>
    processes t = (processes s)(g_current_process s := (processes s (g_current_process s))
      \<lparr>p_flags := p_flags (processes s (g_current_process s)) OR PROC_DEBUG_YIELD\<rparr>)"
  using unlock_same_mask [of "upd_process (g_current_process s)
      (\<lambda>p. p\<lparr>p_flags := p_flags p OR PROC_DEBUG_YIELD\<rparr>) (locked s)" s] assms
  by (simp add: process_yield_def int_lock_region_eq nonnull_def)

lemma yield_current: "process_yield s = Inr t \<Longrightarrow> g_current_process s \<noteq> 0"
  by (simp add: process_yield_def int_lock_region_eq nonnull_def split: if_splits)

lemma flag_bits:
  "(w OR PROC_DEBUG_YIELD) AND PROC_FREE_THREAD_CONTEXT = w AND PROC_FREE_THREAD_CONTEXT"
  "(w AND NOT PROC_DEBUG_YIELD) AND PROC_FREE_THREAD_CONTEXT = w AND PROC_FREE_THREAD_CONTEXT"
  by (rule bit_word_eqI; auto simp: proc_flags bit_simps)+

lemma sched_ok_leave:
  assumes "sched_ok s" and "interrupt_exit ra context s = Inr (stack, t)"
  shows "sched_ok t"
proof (cases "g_preemption_enabled s \<and> g_switch_processes s")
  case False
  then show ?thesis using assms by (auto simp: interrupt_exit_def split: if_splits)
next
  case True
  obtain xs i where xs: "queued s xs" "i < length xs" "g_current_process s = xs ! i" and ctx: "\<And>p. keeps_context s p"
    using assms(1) unfolding sched_ok_def in_set_conv_nth by metis
  have "g_current_process s \<noteq> 0" using chain_nth [of "queue_next s"] xs by (simp add: queued_def)
  from stage1_step [OF this ctx, of ra "context"] True assms(2) obtain s1 where s1:
    "g_current_process s1 = next_process s" "process_queue s1 = process_queue s"
    "processes s1 = (processes s)(g_current_process s := (processes s (g_current_process s))
      \<lparr>p_flags := p_flags (processes s (g_current_process s)) AND NOT PROC_DEBUG_YIELD\<rparr>)"
    and t: "t = s1\<lparr>g_switch_processes := False\<rparr>"
    by (auto simp: interrupt_exit_def)
  have "queue_next t = queue_next s" using s1(3) t by auto
  then have "queued t xs" using xs(1) s1(2) t by (simp add: queued_def)
  moreover have "Suc i mod length xs < length xs" using xs(2) by (intro mod_less_divisor) auto
  then have "g_current_process t \<in> set xs" using next_process_nth [OF xs] s1(1) t by simp
  moreover have "keeps_context t p" for p
    using ctx [of p] ctx [of "g_current_process s"] s1(3) t flag_bits(2) by (simp add: keeps_context_def)
  ultimately show ?thesis by (rule sched_okI)
qed

lemma sched_ok_step: "sched_step s t \<Longrightarrow> sched_ok s \<Longrightarrow> sched_ok t"
proof (induction rule: sched_step.induct)
  case (fill s xs p q)
  have chain: "chain (queue_next s) (process_queue s) xs" using fill.hyps by (simp add: queued_def)
  have nx: "queue_next (upd_process p (\<lambda>_. q) s) = (queue_next s)(p := p_next q)" by auto
  have "queued (upd_process p (\<lambda>_. q) s) xs"
    unfolding queued_def nx using chain fill.hyps(2) by simp
  moreover obtain ys where "queued s ys" "g_current_process s \<in> set ys" using fill.prems by (auto simp: sched_ok_def)
  then have "g_current_process s \<in> set xs" using chain chain_functional by (metis queued_def)
  ultimately show ?case
    using fill.prems fill.hyps(4) by (intro sched_okI) (auto simp: sched_ok_def keeps_context_def)
next
  case (add p s n b t)
  then show ?case using sched_ok_add by blast
next
  case (yield s t)
  then show ?case using yield_runs [OF yield_current, of s] flag_bits(1)
    by (intro sched_ok_upd_current [of s t "g_current_process s" "\<lambda>p. p\<lparr>p_flags := p_flags p OR PROC_DEBUG_YIELD\<rparr>"]) auto
next
  case (tick s t)
  then show ?case using tick_Inr [of s t] tick_result_sel [of s]
    by (intro sched_ok_upd_current [of s t "g_current_process s" "\<lambda>p. p\<lparr>p_quantum := p_quantum p - 1\<rparr>"]) auto
next
  case (leave ra c s stack t)
  then show ?case using sched_ok_leave by blast
qed

text \<open>C4. In every run of the scheduler, whatever processes without a residual link are added and however yields, ticks and
  interrupt exits interleave, the queue stays a list without cycles that ends in NULL, the current
  process is on it, and no process has a context that a switch would free.\<close>

theorem sched_run_invariant:
  assumes "sched_run s t" and "sched_ok s"
  shows "sched_ok t"
  using assms by (induction rule: sched_run.induct) (blast intro: sched_ok_step)+

section \<open>Examples\<close>

definition sched_zero :: scheduler where
  "sched_zero = timer.extend timer_zero
     \<lparr>g_current_process = 0x10, g_preemption_enabled = True, g_switch_processes = False, process_queue = 0x10,
      processes = (\<lambda>_. zero_process)(0x10 := zero_process\<lparr>p_next := 0x20\<rparr>),
      threads = (\<lambda>_. \<lparr>th_context = 0, th_owner = 0, th_next = 0\<rparr>)\<rparr>"

lemma sched_zero_sel [simp]:
  "g_current_process sched_zero = 0x10" "process_queue sched_zero = 0x10" "g_switch_processes sched_zero = False"
  "processes sched_zero = (\<lambda>_. zero_process)(0x10 := zero_process\<lparr>p_next := 0x20\<rparr>)"
  by (simp_all add: sched_zero_def timer.defs)

lemma sched_zero_queued: "queued sched_zero [0x10, 0x20]"
  by (simp add: queued_def zero_process_def)

lemma sched_zero_keeps: "keeps_context sched_zero p"
  by (simp add: keeps_context_def zero_process_def)

theorem round_robin_witness:
  "\<exists>t. run_all (scheduler_advance_stage1 0) [1, 2, 3] sched_zero = Inr t \<and> queued t [0x10, 0x20] \<and>
     g_current_process t = 0x20"
proof -
  have "rotatable sched_zero [0x10, 0x20]" using sched_zero_queued sched_zero_keeps by (simp add: rotatable_def)
  from round_robin [OF this, of 0 0 "[1, 2, 3]"] show ?thesis by (simp add: mod_Suc)
qed

theorem exhausted_quantum_wraps_witness:
  "\<exists>s'. ticks 7 sched_zero = Inr s' \<and> \<not> g_switch_processes s' \<and>
    p_quantum (processes s' (g_current_process s')) = - of_nat 7"
  using exhausted_quantum_wraps [of sched_zero 7] by (simp add: zero_process_def)

theorem sched_run_invariant_witness:
  "\<exists>t. sched_run sched_zero t \<and> t \<noteq> sched_zero \<and> sched_ok t"
proof -
  obtain t where t: "scheduler_tick sched_zero = Inr t"
    "processes t = (processes sched_zero)(0x10 := (processes sched_zero 0x10)\<lparr>p_quantum := - 1\<rparr>)"
    using tick_runs [of sched_zero] by (simp add: tick_result_sel zero_process_def)
  have run: "sched_run sched_zero t"
    by (rule sched_run.more [OF sched_run.start sched_step.tick [OF t(1)]])
  have "sched_ok sched_zero"
    using sched_zero_queued sched_zero_keeps by (intro sched_okI) auto
  with run have "sched_ok t" by (rule sched_run_invariant)
  moreover have "p_quantum (processes t 0x10) \<noteq> p_quantum (processes sched_zero 0x10)"
    by (simp add: t(2) zero_process_def)
  then have "t \<noteq> sched_zero" by auto
  ultimately show ?thesis using run by blast
qed

end
