(* ===== verification/Clock.thy ===== *)
theory Clock
  imports HeapClient Scheduler
begin

text \<open>
  The clock: \<open>timer_init\<close> and \<open>scheduler_init\<close>, as \<open>kmain\<close> calls them, hang two handlers on IRQ 0, whose
  nodes come from \<open>kmalloc\<close>; from then on every interrupt of the timer counts a tick and charges the current
  process. Here the allocator, the interrupt dispatcher, the timer and the scheduler meet.
\<close>

section \<open>Handlers behind their pointers\<close>

text \<open>The calls \<open>node->handler(context)\<close> of \<open>irq_int_handler\<close>. Other functions are not registered for an IRQ.\<close>

definition irq_call :: "handler \<Rightarrow> thread_context \<Rightarrow> 'a scheduler_scheme \<Rightarrow> ('a scheduler_scheme) kres" where
  "irq_call h c s =
     (case h of
        Timer_Callback \<Rightarrow> Inr (timer_callback s)
      | Scheduler_Tick \<Rightarrow> scheduler_tick s
      | Kbd_Int \<Rightarrow> kbd_int_handler False s
      | _ \<Rightarrow> Inl (Undefined ''not an IRQ handler''))"

text \<open>The two calls of \<open>kmain\<close>.\<close>

definition clock_init :: "nat \<Rightarrow> u32 \<Rightarrow> u32 \<Rightarrow> 'a scheduler_scheme \<Rightarrow> ('a scheduler_scheme) kres" where
  "clock_init fuel ra frequency s = kbind (timer_init fuel ra frequency s) (scheduler_init fuel ra)"

text \<open>\<open>n\<close> interrupts of the timer, without a switch in between.\<close>

primrec timer_interrupts :: "nat \<Rightarrow> thread_context \<Rightarrow> nat \<Rightarrow> 'a scheduler_scheme \<Rightarrow> ('a scheduler_scheme) kres" where
  "timer_interrupts fuel c 0 s = Inr s"
| "timer_interrupts fuel c (Suc n) s = kbind (irq_int_handler fuel irq_call c s) (timer_interrupts fuel c n)"

section \<open>Registration with a heap\<close>

lemma more_fields:
  "lalloc.more t = lalloc.more s \<Longrightarrow> interrupts.more t = interrupts.more s"
  by (cases s rule: interrupts.cases_scheme, cases t rule: interrupts.cases_scheme) simp

lemma above_interrupts:
  assumes "interrupts.more t = interrupts.more s"
  shows "system_ticks t = system_ticks s \<and> g_current_process t = g_current_process s \<and> processes t = processes s \<and>
    threads t = threads s \<and> g_switch_processes t = g_switch_processes s \<and> process_queue t = process_queue s \<and>
    g_preemption_enabled t = g_preemption_enabled s"
  using assms by (cases s rule: scheduler.cases_scheme, cases t rule: scheduler.cases_scheme) simp

lemma register_with_heap:
  assumes irq: "VALID_IRQ irq" "irq \<noteq> 2" and heap: "heap_live k U live s" and fuel: "2 * length live + 2 < fuel"
    and room: "k + 16 \<le> 256" "16 \<le> free_count s"
    and xs: "irq_list s irq xs" "length xs \<le> fuel" "length (irq_handler_list s) = NUM_IRQS"
      "set xs \<subseteq> fst ` set live"
  obtains t new k' where "int_register_irq_handler fuel ra irq (Some h) s = Inr t" "heap_live k' U ((new, 8) # live) t"
    "k' \<le> k + 16" "free_count s \<le> free_count t + 16"
    "irq_list t irq ((if xs = [] then [] else [List.last xs]) @ [new])" "ih_handler (irq_nodes t new) = Some h"
    "map (\<lambda>p. ih_handler (irq_nodes t p)) xs = map (\<lambda>p. ih_handler (irq_nodes s p)) xs"
    "length (irq_handler_list t) = NUM_IRQS" "interrupts.more t = interrupts.more s"
proof -
  have "new_pages (8 + 32) = 16" using request_pages_eq [of 8] by (simp add: request_allowed_def request_pages_def)
  with kmalloc_live [OF heap _ fuel, of 8 ra] room obtain p u k' where
    u: "kmalloc fuel ra 8 s = Inr (p, u)" "p \<noteq> 0" "heap_live k' U ((p, 8) # live) u" "k' \<le> k + 16"
      "free_count s \<le> free_count u + 16" "lalloc.more u = lalloc.more s" by auto
  note fields = irq_fields_in_more [OF u(6)]
  have fresh: "p \<notin> set xs"
  proof
    assume "p \<in> set xs"
    then obtain m where "(p, m) \<in> set live" using xs(4) by force
    then show False using heap_live_layout(1) [OF u(3)] by (auto simp: apart_def before_def)
  qed
  have "irq_list u irq xs" using xs(1) fields by (simp add: irq_list_def)
  moreover have "length (irq_handler_list u) = NUM_IRQS" using xs(3) fields by simp
  ultimately obtain t where t: "int_register_irq_handler fuel ra irq (Some h) s = Inr t"
    "irq_list t irq ((if xs = [] then [] else [List.last xs]) @ [p])" "ih_handler (irq_nodes t p) = Some h"
    "map (\<lambda>q. ih_handler (irq_nodes t q)) xs = map (\<lambda>q. ih_handler (irq_nodes u q)) xs"
    "t = u\<lparr>irq_handler_list := irq_handler_list t, irq_nodes := irq_nodes t\<rparr>"
    "length (irq_handler_list t) = NUM_IRQS"
    using register_irq_handler [OF irq u(1,2) fresh _ xs(2)] by metis
  have same: "heap_same u t" by (subst t(5)) (simp add: heap_same_def same_vm_def)
  have outer: "interrupts.more t = interrupts.more u" by (subst t(5)) simp
  show thesis
  proof
    show "heap_live k' U ((p, 8) # live) t" using u(3) heap_same_live(1) [OF same] by blast
    show "free_count s \<le> free_count t + 16" using u(5) heap_same_live(2) [OF same] by simp
    show "interrupts.more t = interrupts.more s" using outer more_fields [OF u(6)] by simp
  qed (use t u(4) fields in simp_all)
qed

section \<open>Initialisation\<close>

text \<open>What the drivers change below the paging layer leaves the heap and the IRQ lists alone.\<close>

lemma above_pic:
  assumes "pic.more t = pic.more s"
  shows "heap_same s t" and "irq_nodes t = irq_nodes s" "irq_handler_list t = irq_handler_list s"
    "interrupts.more t = interrupts.more s"
  using assms
  by (cases s rule: interrupts.cases_scheme, cases t rule: interrupts.cases_scheme; simp add: heap_same_def same_vm_def)+

lemma unmask_above_pic:
  "\<exists>r t. int_unmask_irq IRQ_PIT s = Inr (r, t) \<and> pic.more t = pic.more s"
  using sprintf_irq [of "ucast IRQ_PIT"] valid_PIT
  by (auto simp: int_unmask_irq_def worry_def)

lemma printf_timer:
  "\<exists>msg. printf (''[timer] initialized system timer to %d Hz'' @ [CHR 0x0A]) [VInt f] s =
    Inr (s\<lparr>con_log := con_log s @ [Printed msg]\<rparr>)"
  by (rule printf_prints) (simp_all add: conversion_width_def)

definition clock_ready :: "'a interrupts_scheme \<Rightarrow> u32 \<Rightarrow> u32 \<Rightarrow> bool" where
  "clock_ready s a b \<longleftrightarrow> irq_list s IRQ_PIT [a, b] \<and> ih_handler (irq_nodes s a) = Some Timer_Callback \<and>
     ih_handler (irq_nodes s b) = Some Scheduler_Tick"

lemma timer_init_effect:
  assumes f: "frequency \<noteq> 0" and heap: "heap_live k U live s" and fuel: "2 * length live + 2 < fuel"
    and room: "k + 16 \<le> 256" "16 \<le> free_count s"
    and lists: "irq_list s IRQ_PIT []" "length (irq_handler_list s) = NUM_IRQS"
  obtains t a k' where "timer_init fuel ra frequency s = Inr t" "heap_live k' U ((a, 8) # live) t" "k' \<le> k + 16"
    "free_count s \<le> free_count t + 16" "irq_list t IRQ_PIT [a]" "ih_handler (irq_nodes t a) = Some Timer_Callback"
    "length (irq_handler_list t) = NUM_IRQS" "interrupts.more t = interrupts.more s"
proof -
  from f obtain s1 where s1: "pit_init frequency s = Inr s1" "pic.more s1 = pic.more s"
    by (simp add: pit_init_def Let_def ioport_outb_def)
  note same1 = above_pic [OF s1(2)]
  have ready: "heap_live k U live s1" "irq_list s1 IRQ_PIT []" "length (irq_handler_list s1) = NUM_IRQS"
    "16 \<le> free_count s1"
    using heap heap_same_live [OF same1(1)] lists room same1(2,3) by (simp_all add: irq_list_def)
  obtain s2 a k' where s2: "int_register_irq_handler fuel ra IRQ_PIT (Some Timer_Callback) s1 = Inr s2"
    "heap_live k' U ((a, 8) # live) s2" "k' \<le> k + 16" "free_count s1 \<le> free_count s2 + 16"
    "irq_list s2 IRQ_PIT [a]" "ih_handler (irq_nodes s2 a) = Some Timer_Callback"
    "length (irq_handler_list s2) = NUM_IRQS" "interrupts.more s2 = interrupts.more s1"
    by (rule register_with_heap [OF valid_PIT ready(1) fuel room(1) ready(4,2) _ ready(3), of ra Timer_Callback]) simp_all
  obtain r s3 where s3: "int_unmask_irq IRQ_PIT s2 = Inr (r, s3)" "pic.more s3 = pic.more s2"
    using unmask_above_pic by blast
  obtain msg where msg: "printf (''[timer] initialized system timer to %d Hz'' @ [CHR 0x0A]) [VInt frequency] s3 =
    Inr (s3\<lparr>con_log := con_log s3 @ [Printed msg]\<rparr>)" using printf_timer by blast
  let ?t = "s3\<lparr>con_log := con_log s3 @ [Printed msg]\<rparr>"
  have "pic.more ?t = pic.more s2" using s3(2) by simp
  note same = above_pic [OF this]
  show thesis
  proof
    show "timer_init fuel ra frequency s = Inr ?t"
      using s1(1) s2(1) s3(1) msg by (simp add: timer_init_def)
    show "heap_live k' U ((a, 8) # live) ?t" using s2(2) heap_same_live(1) [OF same(1)] by blast
    show "free_count s \<le> free_count ?t + 16"
      using s2(4) heap_same_live(2) [OF same(1)] heap_same_live(2) [OF same1(1)] by simp
    show "irq_list ?t IRQ_PIT [a]" using s2(5) same(2,3) by (simp only: irq_list_def)
  qed (use s2(3,6-8) same(2-4) same1(4) in simp_all)
qed

lemma clock_init_effect:
  assumes f: "frequency \<noteq> 0" and heap: "heap_live k U live s" and fuel: "2 * length live + 4 < fuel"
    and room: "k + 32 \<le> 256" "32 \<le> free_count s"
    and lists: "irq_list s IRQ_PIT []" "length (irq_handler_list s) = NUM_IRQS"
  obtains t a b k' where "clock_init fuel ra frequency s = Inr t" "clock_ready t a b"
    "heap_live k' U ((b, 8) # (a, 8) # live) t" "k' \<le> k + 32" "system_ticks t = system_ticks s" "process_queue t = 0"
    "g_preemption_enabled t" "g_current_process t = g_current_process s" "processes t = processes s"
    "threads t = threads s" "g_switch_processes t = g_switch_processes s"
proof -
  obtain t1 a k1 where t1: "timer_init fuel ra frequency s = Inr t1" "heap_live k1 U ((a, 8) # live) t1" "k1 \<le> k + 16"
    "free_count s \<le> free_count t1 + 16" "irq_list t1 IRQ_PIT [a]" "ih_handler (irq_nodes t1 a) = Some Timer_Callback"
    "length (irq_handler_list t1) = NUM_IRQS" "interrupts.more t1 = interrupts.more s"
    by (rule timer_init_effect [OF f heap _ _ _ lists, of fuel ra]) (use fuel room in simp_all)
  define t2 where "t2 = t1\<lparr>process_queue := 0, g_preemption_enabled := True\<rparr>"
  have same: "heap_same t1 t2" by (simp add: t2_def heap_same_def same_vm_def)
  have ready: "heap_live k1 U ((a, 8) # live) t2" "irq_list t2 IRQ_PIT [a]" "length (irq_handler_list t2) = NUM_IRQS"
    "2 * length ((a, 8) # live) + 2 < fuel" "k1 + 16 \<le> 256" "16 \<le> free_count t2"
    using t1(2-5,7) heap_same_live [OF same] fuel room by (simp_all add: t2_def irq_list_def)
  obtain t b k' where t: "int_register_irq_handler fuel ra IRQ_PIT (Some Scheduler_Tick) t2 = Inr t"
    "heap_live k' U ((b, 8) # (a, 8) # live) t" "k' \<le> k1 + 16" "irq_list t IRQ_PIT [a, b]"
    "ih_handler (irq_nodes t b) = Some Scheduler_Tick"
    "ih_handler (irq_nodes t a) = ih_handler (irq_nodes t2 a)" "interrupts.more t = interrupts.more t2"
    by (rule register_with_heap [OF valid_PIT ready(1,4,5,6,2) _ ready(3), of ra Scheduler_Tick]) (use fuel in simp_all)
  show thesis
  proof
    show "clock_init fuel ra frequency s = Inr t"
      using t1(1) t(1) by (simp add: clock_init_def scheduler_init_def t2_def)
    show "clock_ready t a b" using t(4-6) t1(6) by (simp add: clock_ready_def t2_def)
    show "k' \<le> k + 32" using t(3) t1(3) by simp
  qed (use t(2) above_interrupts [OF t(7)] above_interrupts [OF t1(8)] in \<open>simp_all add: t2_def\<close>)
qed

section \<open>An interrupt of the timer\<close>

lemma clock_set_raw_mask:
  "irq_nodes (set_raw_mask m s) = irq_nodes s" "irq_handler_list (set_raw_mask m s) = irq_handler_list s"
  "system_ticks (set_raw_mask m (u :: 'a scheduler_scheme)) = system_ticks u"
  "g_int_handler_table (set_raw_mask m s) = g_int_handler_table s"
  by (simp_all add: set_raw_mask_def ioport_outb_def Let_def)

lemma clock_region:
  "irq_nodes (locked s) = irq_nodes s" "irq_handler_list (locked s) = irq_handler_list s"
  "irq_nodes (unlocked l s) = irq_nodes s" "irq_handler_list (unlocked l s) = irq_handler_list s"
  "system_ticks (locked (u :: 'a scheduler_scheme)) = system_ticks u" "system_ticks (unlocked l u) = system_ticks u"
  "g_int_handler_table (locked s) = g_int_handler_table s" "g_int_handler_table (unlocked l s) = g_int_handler_table s"
  by (simp_all add: locked_def unlocked_def clock_set_raw_mask)

lemma irq_call_nodes: "irq_call h c s = Inr t \<Longrightarrow> irq_nodes t = irq_nodes s \<and> irq_handler_list t = irq_handler_list s \<and>
    g_int_handler_table t = g_int_handler_table s"
  by (cases h)
    (auto simp: irq_call_def timer_callback_def tick_result_def kbd_int_handler_def clock_region dest!: tick_Inr)

lemma clock_interrupt:
  assumes ready: "clock_ready s a b" and c: "int_num c = 32" and fuel: "2 < fuel"
    and proc: "g_current_process s \<noteq> 0" "process_queue s \<noteq> 0"
  obtains u where "irq_int_handler fuel irq_call c s = Inr u" "clock_ready u a b"
    "system_ticks u = system_ticks s + 1" "last_out PIC_MASTER_CMD (out_log u) = Some 0x20"
    "g_current_process u = g_current_process s" "process_queue u = process_queue s"
    "processes u = (processes s)(g_current_process s := (processes s (g_current_process s))
      \<lparr>p_quantum := p_quantum (processes s (g_current_process s)) - 1\<rparr>)"
    "g_switch_processes u \<longleftrightarrow> g_switch_processes s \<or>
      wants_switch (processes s (g_current_process s)) \<and> queue_next s (process_queue s) \<noteq> 0"
    "threads u = threads s" "g_preemption_enabled u = g_preemption_enabled s" "g_int_handler_table u = g_int_handler_table s"
proof -
  define f where "f x = (if x = a then Timer_Callback else Scheduler_Tick)" for x
  have "chain (\<lambda>p. ih_next (irq_nodes s p)) (irq_handler_list s ! unat IRQ_PIT) [a, b]"
    using ready by (simp add: clock_ready_def irq_list_def)
  then have ab: "a \<noteq> b" using ready by (auto simp: clock_ready_def)
  let ?s = "timer_callback s"
  define t where "t = tick_result ?s"
  have t: "scheduler_tick ?s = Inr t"
    unfolding t_def using proc by (intro tick_runs) (simp_all add: timer_callback_def)
  define u where "u = t\<lparr>out_log := out_log t @ [(PIC_MASTER_CMD, 0x20)]\<rparr>"
  have "irq_int_handler fuel irq_call c s =
      kbind (call_all irq_call c (map f [a, b]) s) (\<lambda>t. Inr (t\<lparr>out_log := out_log t @ end_of_interrupt IRQ_PIT\<rparr>))"
    by (rule irq_int_handler_run [OF _ _ valid_PIT(1)])
      (use ready c fuel ab irq_call_nodes in \<open>auto simp: clock_ready_def f_def FIRST_IRQ_INT_def IRQ_PIT_def\<close>)
  also have "\<dots> = Inr u"
    using ab t by (simp add: f_def irq_call_def end_of_interrupt_def IRQ_PIT_def u_def)
  finally have run: "irq_int_handler fuel irq_call c s = Inr u" .
  have "irq_nodes t = irq_nodes s \<and> irq_handler_list t = irq_handler_list s \<and>
      g_int_handler_table t = g_int_handler_table s"
    using irq_call_nodes [of Scheduler_Tick c ?s t] t by (simp add: irq_call_def timer_callback_def)
  then have "clock_ready u a b" "g_int_handler_table u = g_int_handler_table s" using ready by (simp_all add: clock_ready_def irq_list_def u_def)
  moreover have "system_ticks t = system_ticks s + 1"
    by (simp add: t_def tick_result_def timer_callback_def clock_region)
  ultimately show thesis
    using that [OF run] by (simp add: u_def t_def tick_result_sel timer_callback_def)
qed

text \<open>The process after \<open>n\<close> ticks.\<close>

abbreviation charged :: "nat \<Rightarrow> process \<Rightarrow> process" where
  "charged n p \<equiv> p\<lparr>p_quantum := p_quantum p - of_nat n\<rparr>"

lemma queue_next_charged:
  "p_next ((f(p := (f p)\<lparr>p_quantum := q\<rparr>)) x) = p_next (f x)"
  by simp

lemma timer_interrupts_run:
  assumes "clock_ready s a b" and c: "int_num c = 32" and fuel: "2 < fuel"
    and "g_current_process s \<noteq> 0" "process_queue s \<noteq> 0"
  shows "\<exists>u. timer_interrupts fuel c n s = Inr u \<and> clock_ready u a b \<and> system_ticks u = system_ticks s + of_nat n \<and>
    g_current_process u = g_current_process s \<and> process_queue u = process_queue s \<and>
    processes u = (processes s)(g_current_process s := charged n (processes s (g_current_process s))) \<and>
    (g_switch_processes u \<longleftrightarrow> g_switch_processes s \<or>
      queue_next s (process_queue s) \<noteq> 0 \<and> (\<exists>k < n. wants_switch (charged k (processes s (g_current_process s)))))"
  using assms(1,4,5)
proof (induction n arbitrary: s)
  case 0
  then show ?case by simp
next
  case (Suc n)
  let ?p = "processes s (g_current_process s)"
  obtain t where t: "irq_int_handler fuel irq_call c s = Inr t" "clock_ready t a b"
    "system_ticks t = system_ticks s + 1" "g_current_process t = g_current_process s"
    "process_queue t = process_queue s" "processes t = (processes s)(g_current_process s := charged 1 ?p)"
    "g_switch_processes t \<longleftrightarrow> g_switch_processes s \<or> wants_switch ?p \<and> queue_next s (process_queue s) \<noteq> 0"
    by (rule clock_interrupt [OF Suc.prems(1) c fuel Suc.prems(2,3)]) simp
  have next': "queue_next t (process_queue t) = queue_next s (process_queue s)"
    unfolding t(5,6) queue_next_charged ..
  have later: "charged k (charged 1 ?p) = charged (Suc k) ?p" for k by (simp add: algebra_simps)
  have p: "processes t (g_current_process t) = charged 1 ?p" by (simp add: t(4,6))
  have "(\<exists>k < Suc n. wants_switch (charged k ?p)) \<longleftrightarrow> wants_switch ?p \<or> (\<exists>k < n. wants_switch (charged (Suc k) ?p))"
    by (simp add: Ex_less_Suc2)
  moreover obtain u where u: "timer_interrupts fuel c n t = Inr u" "clock_ready u a b"
    "system_ticks u = system_ticks t + of_nat n" "g_current_process u = g_current_process t"
    "process_queue u = process_queue t"
    "processes u = (processes t)(g_current_process t := charged n (charged 1 ?p))"
    "g_switch_processes u \<longleftrightarrow> g_switch_processes t \<or> queue_next t (process_queue t) \<noteq> 0 \<and>
      (\<exists>k < n. wants_switch (charged k (charged 1 ?p)))"
    using Suc.IH [OF t(2) Suc.prems(2,3) [folded t(4,5)]] unfolding p by blast
  ultimately have "g_switch_processes u \<longleftrightarrow> g_switch_processes s \<or> queue_next s (process_queue s) \<noteq> 0 \<and>
      (\<exists>k < Suc n. wants_switch (charged k ?p))"
    unfolding t(7) next' later by blast
  moreover have "processes u = (processes s)(g_current_process s := charged (Suc n) ?p)"
    unfolding u(6) t(4,6) later by simp
  moreover have "timer_interrupts fuel c (Suc n) s = Inr u" using t(1) u(1) by simp
  ultimately show ?case using t(3-5) u(2-5) by (intro exI [of _ u]) simp
qed

section \<open>Properties\<close>

text \<open>C10. \<open>timer_init\<close> and \<open>scheduler_init\<close>, called one after the other on a heap that may grow by two blocks
  and without a handler for IRQ 0, leave exactly two handlers on the list of IRQ 0, first the tick counter
  and then the scheduler; their nodes are the only new allocations, the process queue is empty and
  preemption is on.\<close>

theorem clock_init_installs:
  assumes "frequency \<noteq> 0" and "heap_live k U live s" and "2 * length live + 4 < fuel"
    and "k + 32 \<le> 256" and "32 \<le> free_count s"
    and "irq_list s IRQ_PIT []" and "length (irq_handler_list s) = NUM_IRQS"
  shows "\<exists>t a b k'. clock_init fuel ra frequency s = Inr t \<and> irq_list t IRQ_PIT [a, b] \<and>
    ih_handler (irq_nodes t a) = Some Timer_Callback \<and> ih_handler (irq_nodes t b) = Some Scheduler_Tick \<and>
    heap_live k' U ((b, 8) # (a, 8) # live) t \<and> k' \<le> k + 32 \<and> process_queue t = 0 \<and> g_preemption_enabled t \<and>
    system_ticks t = system_ticks s"
  by (rule clock_init_effect [OF assms]) (auto simp: clock_ready_def)

text \<open>With these two handlers installed, every timer interrupt counts one tick and takes one from the
  quantum of the current process, and is acknowledged; a switch is requested for the first time by the interrupt that
  uses up the quantum, if the process did not yield before and another process is on the queue.\<close>

lemma clock_charges_quantum:
  assumes "clock_ready s a b" and "int_num c = 32" and "2 < fuel" and "\<not> g_switch_processes s"
    and "queue_next s (process_queue s) \<noteq> 0"
    and "p_flags (processes s (g_current_process s)) AND PROC_DEBUG_YIELD = 0"
    and "0 < p_quantum (processes s (g_current_process s))"
    and "n \<le> unat (p_quantum (processes s (g_current_process s)))" "g_current_process s \<noteq> 0" "process_queue s \<noteq> 0"
  shows "\<exists>t. timer_interrupts fuel c n s = Inr t \<and> clock_ready t a b \<and>
    system_ticks t = system_ticks s + of_nat n \<and> g_current_process t = g_current_process s \<and>
    unat (p_quantum (processes t (g_current_process t))) = unat (p_quantum (processes s (g_current_process s))) - n \<and>
    (g_switch_processes t \<longleftrightarrow> n = unat (p_quantum (processes s (g_current_process s))))"
proof -
  let ?q = "p_quantum (processes s (g_current_process s))"
  have q: "unat (?q - of_nat k) = unat ?q - k" if "k \<le> unat ?q" for k
  proof -
    have "unat (of_nat k :: u32) = k"
      using that unat_lt_2p [of ?q] by (simp add: unat_of_nat)
    then show ?thesis using that by (simp add: u32_sub_no_wrap)
  qed
  have wants: "wants_switch (charged k (processes s (g_current_process s))) \<longleftrightarrow> unat ?q = k + 1" if "k < n" for k
  proof -
    have "?q - of_nat k = 1 \<longleftrightarrow> unat (?q - of_nat k) = 1" by (simp add: word_unat_eq_iff)
    then show ?thesis using q [of k] that assms(6,8) by (auto simp: wants_switch_def)
  qed
  have "0 < unat ?q" using assms(7) by (simp add: word_less_nat_alt)
  then have "(\<exists>k < n. wants_switch (charged k (processes s (g_current_process s)))) \<longleftrightarrow> n = unat ?q"
    using wants assms(8) by (metis Suc_eq_plus1 Suc_pred less_Suc_eq_le linorder_neqE_nat not_less_eq lessI)
  then show ?thesis
    using timer_interrupts_run [OF assms(1-3,9,10), of n] assms(4,5) q [OF assms(8)] by auto
qed

section \<open>A concrete clock\<close>

definition clock_zero :: scheduler where
  "clock_zero = sched_zero\<lparr>l_memRoot := 0, irq_handler_list := replicate 16 0\<rparr>"

definition clock_two :: scheduler where
  "clock_two = sched_zero\<lparr>irq_handler_list := replicate 16 0x40,
     irq_nodes := (\<lambda>p. if p = 0x40 then \<lparr>ih_handler = Some Timer_Callback, ih_next = 0x50\<rparr>
       else \<lparr>ih_handler = Some Scheduler_Tick, ih_next = 0\<rparr>),
     processes := (\<lambda>_. zero_process)(0x10 := zero_process\<lparr>p_next := 0x20, p_quantum := 2\<rparr>)\<rparr>"

lemma clock_zero_heap: "heap_live 0 (in_use clock_zero) [] clock_zero" and clock_zero_free: "free_count clock_zero = 8192"
proof -
  have vm: "pmem clock_zero = pmem lalloc_empty" "cr3 clock_zero = cr3 lalloc_empty" "kheap clock_zero = kheap lalloc_empty"
    "page_bitmap clock_zero = page_bitmap lalloc_empty" "page_count clock_zero = page_count lalloc_empty"
    and list: "l_memRoot clock_zero = 0" "l_bestBet clock_zero = 0"
    by (simp_all add: clock_zero_def sched_zero_def timer.defs timer_zero_def serial.defs serial_zero_def interrupts.defs
        irq_zero_def cpu.defs lalloc.defs lalloc_empty_def lalloc_zero_def kernel_heap.defs kheap_zero_def)
  have eq: "in_use clock_zero = in_use lalloc_empty" "page_limit clock_zero = page_limit lalloc_empty"
    "pages_ok clock_zero = pages_ok lalloc_empty" "slot_free a clock_zero = slot_free a lalloc_empty" for a
    by (simp_all add: in_use_def page_limit_def pages_ok_def slot_free_def vm)
  show "free_count clock_zero = 8192" using lalloc_empty_free by (simp add: free_count_def eq)
  show "heap_live 0 (in_use clock_zero) [] clock_zero"
    using lalloc_empty_heap by (simp add: heap_empty_live heap_empty_def heap_ok_def vm_ok_def recursive_def eq vm list)
qed

theorem clock_init_installs_witness:
  "\<exists>t a b. clock_init 5 0 100 clock_zero = Inr t \<and> irq_list t IRQ_PIT [a, b] \<and>
    ih_handler (irq_nodes t a) = Some Timer_Callback \<and> ih_handler (irq_nodes t b) = Some Scheduler_Tick"
proof -
  have "irq_list clock_zero IRQ_PIT []" "length (irq_handler_list clock_zero) = NUM_IRQS"
    by (simp_all add: clock_zero_def irq_list_def IRQ_PIT_def NUM_IRQS_def)
  from clock_init_installs [OF _ clock_zero_heap _ _ _ this, of 100 5 0] clock_zero_free show ?thesis by auto
qed

end
