(* ===== verification/Interleave.thy ===== *)
theory Interleave
  imports Clock
begin

text \<open>
  The timer interrupt inside of operations. The critical regions of the kernel mask the timer IRQ; here their code
  is taken statement by statement, the interrupt may come between any two of them when it is not masked, and the
  result is the same as if it had come only before the region or after it.
\<close>

section \<open>Regions\<close>

text \<open>
  \<open>int_lock_region\<close> reads the mask (\<open>Enter\<close>) and then masks the timer (\<open>Masking\<close>); the code in the region is a
  function \<open>body\<close> that runs one statement at the point \<open>l\<close> and gives the next point or the result; the region is
  left by \<open>int_unlock_region\<close>.
\<close>

datatype ('l, 'r) region_point = Enter | Masking bool | Inside bool 'l | Leaving bool 'r | Left 'r

fun region_step :: "'l \<Rightarrow> ('l \<Rightarrow> 'a pic_scheme \<Rightarrow> (('l + 'r) \<times> 'a pic_scheme) kres) \<Rightarrow>
    ('l, 'r) region_point \<Rightarrow> 'a pic_scheme \<Rightarrow> (('l, 'r) region_point \<times> 'a pic_scheme) kres" where
  "region_step start body Enter s = kbind (int_irq_enabled IRQ_PIT s) (\<lambda>lock. Inr (Masking lock, s))"
| "region_step start body (Masking lock) s =
     kbind (if lock then int_mask_irq IRQ_PIT s else Inr (False, s)) (\<lambda>(_, t). Inr (Inside lock start, t))"
| "region_step start body (Inside lock l) s =
     kbind (body l s) (\<lambda>(x, t). Inr (case x of Inl l' \<Rightarrow> Inside lock l' | Inr r \<Rightarrow> Leaving lock r, t))"
| "region_step start body (Leaving lock r) s = kbind (int_unlock_region lock s) (\<lambda>t. Inr (Left r, t))"
| "region_step start body (Left r) s = Inr (Left r, s)"

text \<open>An interrupt of the timer is delivered if the processor takes interrupts and the IRQ is not masked.\<close>

definition interrupted :: "('a pic_scheme \<Rightarrow> 'a pic_scheme \<Rightarrow> bool) \<Rightarrow> 'a pic_scheme \<Rightarrow> 'a pic_scheme \<Rightarrow> bool" where
  "interrupted intr s t \<longleftrightarrow> if_flag s \<and> irq_enabled IRQ_PIT s \<and> intr s t"

inductive region_move :: "'l \<Rightarrow> ('l \<Rightarrow> 'a pic_scheme \<Rightarrow> (('l + 'r) \<times> 'a pic_scheme) kres) \<Rightarrow>
    ('a pic_scheme \<Rightarrow> 'a pic_scheme \<Rightarrow> bool) \<Rightarrow>
    ('l, 'r) region_point \<times> 'a pic_scheme \<Rightarrow> ('l, 'r) region_point \<times> 'a pic_scheme \<Rightarrow> bool" for start body intr where
  statement: "region_step start body pc s = Inr (pc', t) \<Longrightarrow> region_move start body intr (pc, s) (pc', t)"
| interrupt: "interrupted intr s t \<Longrightarrow> region_move start body intr (pc, s) (pc, t)"

inductive_cases region_moveE: "region_move start body intr (pc, s) (pc', t)"

text \<open>The code of the region without interrupts.\<close>

definition body_move :: "('l \<Rightarrow> 's \<Rightarrow> (('l + 'r) \<times> 's) kres) \<Rightarrow> 'l \<times> 's \<Rightarrow> 'l \<times> 's \<Rightarrow> bool" where
  "body_move body c d \<longleftrightarrow> body (fst c) (snd c) = Inr (Inl (fst d), snd d)"

definition body_runs :: "('l \<Rightarrow> 's \<Rightarrow> (('l + 'r) \<times> 's) kres) \<Rightarrow> 'l \<Rightarrow> 's \<Rightarrow> 'r \<Rightarrow> 's \<Rightarrow> bool" where
  "body_runs body l s r t \<longleftrightarrow> (\<exists>l' s'. (body_move body)\<^sup>*\<^sup>* (l, s) (l', s') \<and> body l' s' = Inr (Inr r, t))"

definition region_result :: "'l \<Rightarrow> ('l \<Rightarrow> 'a pic_scheme \<Rightarrow> (('l + 'r) \<times> 'a pic_scheme) kres) \<Rightarrow> 'a pic_scheme \<Rightarrow> 'r \<Rightarrow>
    'a pic_scheme \<Rightarrow> bool" where
  "region_result start body s r t \<longleftrightarrow> (\<exists>lock u v. int_lock_region s = Inr (lock, u) \<and>
     body_runs body start u r v \<and> int_unlock_region lock v = Inr t)"

lemma body_runs_done: "body l s = Inr (Inr r, t) \<Longrightarrow> body_runs body l s r t"
  unfolding body_runs_def by blast

lemma body_runs_step: "body l s = Inr (Inl l', u) \<Longrightarrow> body_runs body l' u r t \<Longrightarrow> body_runs body l s r t"
proof -
  assume "body l s = Inr (Inl l', u)" "body_runs body l' u r t"
  then obtain l1 s1 where "body_move body (l, s) (l', u)" "(body_move body)\<^sup>*\<^sup>* (l', u) (l1, s1)"
    "body l1 s1 = Inr (Inr r, t)" by (auto simp: body_runs_def body_move_def)
  then show ?thesis unfolding body_runs_def by (meson converse_rtranclp_into_rtranclp)
qed

lemma body_runs_iff:
  "body_runs body l s r t \<longleftrightarrow> body l s = Inr (Inr r, t) \<or> (\<exists>l' u. body l s = Inr (Inl l', u) \<and> body_runs body l' u r t)"
proof
  assume "body_runs body l s r t"
  then obtain l1 s1 where m: "(body_move body)\<^sup>*\<^sup>* (l, s) (l1, s1)" "body l1 s1 = Inr (Inr r, t)"
    by (auto simp: body_runs_def)
  from m(1) show "body l s = Inr (Inr r, t) \<or> (\<exists>l' u. body l s = Inr (Inl l', u) \<and> body_runs body l' u r t)"
  proof (rule converse_rtranclpE)
    fix y assume y: "body_move body (l, s) y" "(body_move body)\<^sup>*\<^sup>* y (l1, s1)"
    obtain l' u where "y = (l', u)" by (cases y)
    then show ?thesis using y m(2) unfolding body_runs_def body_move_def by auto
  qed (use m(2) in simp)
qed (auto intro: body_runs_done body_runs_step)

lemma region_enter:
  "int_irq_enabled IRQ_PIT s = Inr (irq_enabled IRQ_PIT s)"
  "kbind (if irq_enabled IRQ_PIT s then int_mask_irq IRQ_PIT s else Inr (False, s)) (\<lambda>(_, t). Inr (f t)) = Inr (f (locked s))"
proof -
  show "int_irq_enabled IRQ_PIT s = Inr (irq_enabled IRQ_PIT s)"
    using valid_PIT by (auto simp: int_irq_enabled_def and_irq_bit VALID_IRQ_unat irq_enabled_def)
  show "kbind (if irq_enabled IRQ_PIT s then int_mask_irq IRQ_PIT s else Inr (False, s)) (\<lambda>(_, t). Inr (f t)) = Inr (f (locked s))"
    using int_mask_irq_masks [OF valid_PIT, of s] by (simp add: locked_def irq_bit_PIT)
qed

text \<open>What a region asks of its code, and of the interrupt: they leave the mask of the timer as they find it.\<close>

locale masked_region =
  fixes start :: 'l and body :: "'l \<Rightarrow> 'a pic_scheme \<Rightarrow> (('l + 'r) \<times> 'a pic_scheme) kres"
    and intr :: "'a pic_scheme \<Rightarrow> 'a pic_scheme \<Rightarrow> bool"
  assumes body_mask: "body l s = Inr (x, t) \<Longrightarrow> irq_mask t = irq_mask s"
    and intr_mask: "intr s t \<Longrightarrow> irq_enabled IRQ_PIT t = irq_enabled IRQ_PIT s"
begin

lemma forward:
  "(region_move start body intr)\<^sup>*\<^sup>* (Enter, s) (pc, u) \<Longrightarrow>
    case pc of
      Enter \<Rightarrow> (interrupted intr)\<^sup>*\<^sup>* s u
    | Masking lock \<Rightarrow> (interrupted intr)\<^sup>*\<^sup>* s u \<and> lock = irq_enabled IRQ_PIT u
    | Inside lock l \<Rightarrow> \<exists>s1. (interrupted intr)\<^sup>*\<^sup>* s s1 \<and> lock = irq_enabled IRQ_PIT s1 \<and>
        (body_move body)\<^sup>*\<^sup>* (start, locked s1) (l, u) \<and> \<not> irq_enabled IRQ_PIT u
    | Leaving lock r \<Rightarrow> \<exists>s1. (interrupted intr)\<^sup>*\<^sup>* s s1 \<and> lock = irq_enabled IRQ_PIT s1 \<and>
        body_runs body start (locked s1) r u \<and> \<not> irq_enabled IRQ_PIT u
    | Left r \<Rightarrow> \<exists>s1 t1. (interrupted intr)\<^sup>*\<^sup>* s s1 \<and> region_result start body s1 r t1 \<and> (interrupted intr)\<^sup>*\<^sup>* t1 u"
proof (induction rule: rtranclp_induct2)
  case (step pc u pc' v)
  from step.hyps(2) consider (statement) "region_step start body pc u = Inr (pc', v)"
    | (interrupt) "pc' = pc" "interrupted intr u v" by (auto elim: region_moveE)
  then show ?case
  proof cases
    case statement
    show ?thesis
    proof (cases pc)
      case Enter
      then show ?thesis using statement step.IH by (auto simp: region_enter)
    next
      case (Masking lock)
      then have "lock = irq_enabled IRQ_PIT u" "(interrupted intr)\<^sup>*\<^sup>* s u" using step.IH by simp_all
      moreover have "region_step start body (Masking (irq_enabled IRQ_PIT u)) u =
          Inr (Inside (irq_enabled IRQ_PIT u) start, locked u)"
        by (simp only: region_step.simps region_enter(2))
      then have "pc' = Inside lock start" "v = locked u"
        using statement Masking \<open>lock = irq_enabled IRQ_PIT u\<close> by simp_all
      ultimately show ?thesis by auto
    next
      case (Inside lock l)
      then obtain s1 where s1: "(interrupted intr)\<^sup>*\<^sup>* s s1" "lock = irq_enabled IRQ_PIT s1"
        "(body_move body)\<^sup>*\<^sup>* (start, locked s1) (l, u)" "\<not> irq_enabled IRQ_PIT u" using step.IH by auto
      from statement Inside obtain x where x: "body l u = Inr (x, v)"
        "pc' = (case x of Inl l' \<Rightarrow> Inside lock l' | Inr r \<Rightarrow> Leaving lock r)" by (auto simp: kbind_eq_Inr)
      have off: "\<not> irq_enabled IRQ_PIT v" using s1(4) irq_enabled_cong [OF body_mask [OF x(1)]] by simp
      show ?thesis
      proof (cases x)
        case (Inl l')
        then have "body_move body (l, u) (l', v)" using x(1) by (simp add: body_move_def)
        then show ?thesis using s1 off x(2) Inl by (auto intro: rtranclp.rtrancl_into_rtrancl)
      next
        case (Inr r)
        then show ?thesis using s1 off x by (auto simp: body_runs_def)
      qed
    next
      case (Leaving lock r)
      then obtain s1 where s1: "(interrupted intr)\<^sup>*\<^sup>* s s1" "lock = irq_enabled IRQ_PIT s1"
        "body_runs body start (locked s1) r u" using step.IH by auto
      from statement Leaving have "pc' = Left r" "int_unlock_region lock u = Inr v" by (auto simp: kbind_eq_Inr)
      moreover have "region_result start body s1 r v"
        using s1(2,3) calculation(2) by (auto simp: region_result_def int_lock_region_eq)
      ultimately show ?thesis using s1(1) by auto
    next
      case (Left r)
      then show ?thesis using statement step.IH by auto
    qed
  next
    case interrupt
    have on: "irq_enabled IRQ_PIT u" "irq_enabled IRQ_PIT v"
      using interrupt(2) intr_mask by (auto simp: interrupted_def)
    show ?thesis
      using step.IH interrupt on by (cases pc) (auto intro: rtranclp.rtrancl_into_rtrancl)
  qed
qed simp

lemma interrupts_move: "(interrupted intr)\<^sup>*\<^sup>* s t \<Longrightarrow> (region_move start body intr)\<^sup>*\<^sup>* (pc, s) (pc, t)"
  by (induction rule: rtranclp_induct) (auto intro: rtranclp.rtrancl_into_rtrancl region_move.interrupt)

lemma body_moves:
  "(body_move body)\<^sup>*\<^sup>* (l, s) (l', t) \<Longrightarrow> (region_move start body intr)\<^sup>*\<^sup>* (Inside lock l, s) (Inside lock l', t)"
proof (induction rule: rtranclp_induct2)
  case (step l1 s1 l2 s2)
  have "region_move start body intr (Inside lock l1, s1) (Inside lock l2, s2)"
    using step.hyps(2) by (intro region_move.statement) (simp add: body_move_def)
  then show ?case using step.IH by (rule rtranclp.rtrancl_into_rtrancl [rotated])
qed simp

lemma backward:
  assumes "region_result start body s r t"
  shows "(region_move start body intr)\<^sup>*\<^sup>* (Enter, s) (Left r, t)"
proof -
  let ?m = "region_move start body intr" and ?lock = "irq_enabled IRQ_PIT s"
  obtain l u v where u: "(body_move body)\<^sup>*\<^sup>* (start, locked s) (l, u)" "body l u = Inr (Inr r, v)"
    "int_unlock_region ?lock v = Inr t"
    using assms by (auto simp: region_result_def int_lock_region_eq body_runs_def)
  have "?m (Enter, s) (Masking ?lock, s)" by (intro region_move.statement) (simp add: region_enter)
  moreover have "?m (Masking ?lock, s) (Inside ?lock start, locked s)"
    by (intro region_move.statement) (simp only: region_step.simps region_enter(2))
  moreover note body_moves [OF u(1), of ?lock]
  moreover have "?m (Inside ?lock l, u) (Leaving ?lock r, v)" by (intro region_move.statement) (simp add: u(2))
  moreover have "?m (Leaving ?lock r, v) (Left r, t)" by (intro region_move.statement) (simp add: u(3))
  ultimately show ?thesis by (meson converse_rtranclp_into_rtranclp rtranclp.rtrancl_into_rtrancl)
qed

text \<open>The region is atomic: interrupts count only before it and after it.\<close>

lemma atomic:
  "(region_move start body intr)\<^sup>*\<^sup>* (Enter, s) (Left r, t) \<longleftrightarrow>
    (\<exists>s1 t1. (interrupted intr)\<^sup>*\<^sup>* s s1 \<and> region_result start body s1 r t1 \<and> (interrupted intr)\<^sup>*\<^sup>* t1 t)"
proof
  assume "\<exists>s1 t1. (interrupted intr)\<^sup>*\<^sup>* s s1 \<and> region_result start body s1 r t1 \<and> (interrupted intr)\<^sup>*\<^sup>* t1 t"
  then show "(region_move start body intr)\<^sup>*\<^sup>* (Enter, s) (Left r, t)"
    using interrupts_move backward by (meson rtranclp_trans)
qed (use forward [of s "Left r" t] in simp)

end

section \<open>\<open>scheduler_add_process\<close> by statements\<close>

datatype add_point = Add_Empty | Add_First | Add_Walk u32 | Add_Append u32

fun add_step :: "u32 \<Rightarrow> add_point \<Rightarrow> 'a scheduler_scheme \<Rightarrow> ((add_point + bool) \<times> 'a scheduler_scheme) kres" where
  "add_step p Add_Empty s =
     Inr (if process_queue s = 0 then (Inr True, s\<lparr>process_queue := p\<rparr>) else (Inl Add_First, s))"
| "add_step p Add_First s =
     Inr (if process_queue s = p then Inr False else Inl (Add_Walk (process_queue s)), s)"
| "add_step p (Add_Walk node) s =
     Inr (if queue_next s node \<noteq> 0
          then if queue_next s node = p then Inr False else Inl (Add_Walk (queue_next s node))
          else Inl (Add_Append node), s)"
| "add_step p (Add_Append node) s = Inr (Inr True, upd_process node (\<lambda>q. q\<lparr>p_next := p\<rparr>) s)"

text \<open>The part of \<open>scheduler_add_process\<close> behind its two checks.\<close>

definition add_walked :: "nat \<Rightarrow> u32 \<Rightarrow> u32 \<Rightarrow> 'a scheduler_scheme \<Rightarrow> (bool \<times> 'a scheduler_scheme) kres" where
  "add_walked fuel p node s = kbind (queue_walk fuel p node (queue_next s)) (\<lambda>r.
     case r of None \<Rightarrow> Inr (False, s) | Some node \<Rightarrow> Inr (True, upd_process node (\<lambda>q. q\<lparr>p_next := p\<rparr>) s))"

definition add_body :: "nat \<Rightarrow> u32 \<Rightarrow> 'a scheduler_scheme \<Rightarrow> (bool \<times> 'a scheduler_scheme) kres" where
  "add_body fuel p s =
     (if process_queue s = 0 then Inr (True, s\<lparr>process_queue := p\<rparr>)
      else if process_queue s = p then Inr (False, s) else add_walked fuel p (process_queue s) s)"

definition add_locked :: "nat \<Rightarrow> u32 \<Rightarrow> 'a scheduler_scheme \<Rightarrow> (bool \<times> 'a scheduler_scheme) kres" where
  "add_locked fuel p s =
     kbind (int_lock_region s) (\<lambda>(lock, s1).
     kbind (add_body fuel p s1) (\<lambda>(ret, s2).
     kbind (int_unlock_region lock s2) (\<lambda>s3. Inr (ret, s3))))"

lemma scheduler_add_process_locked:
  "scheduler_add_process fuel p s = kbind (kassert (p \<noteq> 0) ''p'') (\<lambda>_.
     add_locked fuel p (worry_if (queue_next s p \<noteq> 0) ''process has residual queue information'' s))"
  unfolding scheduler_add_process_def add_locked_def add_body_def add_walked_def by (rule refl)

lemma add_walked_Suc:
  "add_walked (Suc n) p node s = (if queue_next s node \<noteq> 0
     then if queue_next s node = p then Inr (False, s) else add_walked n p (queue_next s node) s
     else Inr (True, upd_process node (\<lambda>q. q\<lparr>p_next := p\<rparr>) s))"
  by (simp add: add_walked_def)

lemma add_walk_runs: "add_walked n p node s = Inr (r, t) \<Longrightarrow> body_runs (add_step p) (Add_Walk node) s r t"
proof (induction n arbitrary: node)
  case (Suc n)
  have append: "body_runs (add_step p) (Add_Append node) s True (upd_process node (\<lambda>q. q\<lparr>p_next := p\<rparr>) s)"
    by (rule body_runs_done) simp
  show ?case
    using Suc append
    by (subst body_runs_iff) (auto simp: add_walked_Suc split: if_splits)
qed (simp add: add_walked_def)

lemma add_moves_result:
  "(body_move (add_step p))\<^sup>*\<^sup>* (l, s) (l', s') \<Longrightarrow> add_step p l' s' = Inr (Inr r, t) \<Longrightarrow>
    \<exists>n. case l of
        Add_Empty \<Rightarrow> add_body n p s = Inr (r, t)
      | Add_First \<Rightarrow> (if process_queue s = p then Inr (False, s) else add_walked n p (process_queue s) s) = Inr (r, t)
      | Add_Walk node \<Rightarrow> add_walked n p node s = Inr (r, t)
      | Add_Append node \<Rightarrow> (True, upd_process node (\<lambda>q. q\<lparr>p_next := p\<rparr>) s) = (r, t)"
proof (induction rule: converse_rtranclp_induct2)
  case refl
  have "add_walked (Suc 0) p node s' = Inr (r, t)" if "l' = Add_Walk node" for node
    using refl that by (simp add: add_walked_Suc split: if_splits)
  then show ?case
    using refl by (cases l') (auto simp: add_body_def split: if_splits)
next
  case (step l s l1 s1)
  then obtain n where n: "case l1 of
        Add_Empty \<Rightarrow> add_body n p s1 = Inr (r, t)
      | Add_First \<Rightarrow> (if process_queue s1 = p then Inr (False, s1) else add_walked n p (process_queue s1) s1) = Inr (r, t)
      | Add_Walk node \<Rightarrow> add_walked n p node s1 = Inr (r, t)
      | Add_Append node \<Rightarrow> (True, upd_process node (\<lambda>q. q\<lparr>p_next := p\<rparr>) s1) = (r, t)" by blast
  have move: "add_step p l s = Inr (Inl l1, s1)" using step.hyps(1) by (simp add: body_move_def)
  show ?case
  proof (cases l)
    case (Add_Walk node)
    then have "add_walked (Suc n) p node s = Inr (r, t)"
      using move n by (auto simp: add_walked_Suc split: if_splits)
    then show ?thesis using Add_Walk by auto
  qed (use move n in \<open>auto simp: add_body_def split: if_splits\<close>)
qed

lemma add_body_runs: "body_runs (add_step p) Add_Empty s r t \<longleftrightarrow> (\<exists>n. add_body n p s = Inr (r, t))"
proof
  assume "\<exists>n. add_body n p s = Inr (r, t)"
  then obtain n where n: "add_body n p s = Inr (r, t)" by blast
  have walk: "body_runs (add_step p) (Add_Walk node) s r t" if "add_walked n p node s = Inr (r, t)" for node
    by (rule add_walk_runs [OF that])
  have "body_runs (add_step p) Add_First s r t" if "process_queue s \<noteq> 0"
    using n that walk by (subst body_runs_iff) (auto simp: add_body_def split: if_splits)
  then show "body_runs (add_step p) Add_Empty s r t"
    using n by (subst body_runs_iff) (auto simp: add_body_def split: if_splits)
next
  assume "body_runs (add_step p) Add_Empty s r t"
  then show "\<exists>n. add_body n p s = Inr (r, t)" using add_moves_result [of p Add_Empty s] by (auto simp: body_runs_def)
qed

lemma add_region_result: "region_result Add_Empty (add_step p) s r t \<longleftrightarrow> (\<exists>n. add_locked n p s = Inr (r, t))"
  by (auto simp: region_result_def add_body_runs add_locked_def int_lock_region_eq kbind_eq_Inr)

lemma add_step_mask: "add_step p l s = Inr (x, t) \<Longrightarrow> irq_mask t = irq_mask s"
  by (cases l) (auto split: if_splits)

section \<open>\<open>process_yield\<close> by statements\<close>

text \<open>The flags are read and then written.\<close>

datatype yield_point = Yield_Read | Yield_Write u32 u8

fun yield_body :: "yield_point \<Rightarrow> 'a scheduler_scheme \<Rightarrow> ((yield_point + unit) \<times> 'a scheduler_scheme) kres" where
  "yield_body Yield_Read s =
     (let p = g_current_process s in
      kbind (nonnull p) (\<lambda>_. Inr (Inl (Yield_Write p (p_flags (processes s p) OR PROC_DEBUG_YIELD)), s)))"
| "yield_body (Yield_Write p flags) s = Inr (Inr (), upd_process p (\<lambda>q. q\<lparr>p_flags := flags\<rparr>) s)"

lemma yield_body_mask: "yield_body l s = Inr (x, t) \<Longrightarrow> irq_mask t = irq_mask s"
  by (cases l) (auto simp: Let_def kbind_eq_Inr)

lemma yield_region_result: "region_result Yield_Read yield_body s r t \<longleftrightarrow> process_yield s = Inr t"
proof -
  let ?f = "\<lambda>s :: 'a scheduler_scheme. upd_process (g_current_process s) (\<lambda>p. p\<lparr>p_flags := p_flags p OR PROC_DEBUG_YIELD\<rparr>) s"
  have "body_runs yield_body Yield_Read u r v \<longleftrightarrow> g_current_process u \<noteq> 0 \<and> v = ?f u" for u v :: "'a scheduler_scheme"
    by (subst body_runs_iff, subst body_runs_iff) (auto simp: Let_def upd_process_def nonnull_def)
  then show ?thesis by (auto simp: region_result_def process_yield_def int_lock_region_eq nonnull_def)
qed

section \<open>Everything else that may happen\<close>

text \<open>
  When the timer interrupts a region's process, others may run before it goes on: the events in between are steps of
  the scheduler, from states in which its invariant holds. All of them leave the IRQ mask as it was.
\<close>

definition sched_event :: "'a scheduler_scheme \<Rightarrow> 'a scheduler_scheme \<Rightarrow> bool" where
  "sched_event s t \<longleftrightarrow> sched_ok s \<and> sched_step s t"

lemma irq_mask_worry_if [simp]: "irq_mask (worry_if c m s) = irq_mask s"
  by (simp add: worry_if_def worry_def)

lemma add_body_mask: "add_body n p s = Inr (r, t) \<Longrightarrow> irq_mask t = irq_mask s"
  by (auto simp: add_body_def add_walked_def kbind_eq_Inr split: if_splits option.splits)

lemma add_locked_mask: "add_locked n p s = Inr (r, t) \<Longrightarrow> irq_mask t = irq_mask s"
proof -
  assume "add_locked n p s = Inr (r, t)"
  then obtain u where u: "add_body n p (locked s) = Inr (r, u)" "int_unlock_region (irq_enabled IRQ_PIT s) u = Inr t"
    by (auto simp: add_locked_def int_lock_region_eq kbind_eq_Inr)
  show ?thesis using region_mask_restored [OF add_body_mask [OF u(1)]] u(2) by simp
qed

lemma sched_event_mask:
  assumes "sched_event s t"
  shows "irq_mask t = irq_mask s"
proof -
  have ok: "sched_ok s" and step: "sched_step s t" using assms by (auto simp: sched_event_def)
  from step show ?thesis
  proof cases
    case (add p n b)
    then show ?thesis by (auto simp: scheduler_add_process_locked kbind_eq_Inr dest!: add_locked_mask)
  next
    case yield
    let ?u = "upd_process (g_current_process s) (\<lambda>p. p\<lparr>p_flags := p_flags p OR PROC_DEBUG_YIELD\<rparr>) (locked s)"
    have "int_unlock_region (irq_enabled IRQ_PIT s) ?u = Inr t" using yield by (simp add: process_yield_def int_lock_region_eq nonnull_def split: if_splits)
    then show ?thesis using region_mask_restored [of ?u s] by simp
  next
    case tick
    then show ?thesis by (auto simp: tick_result_def dest!: tick_Inr intro!: unlocked_mask)
  next
    case (leave ra c stack)
    obtain xs where "queued s xs" "g_current_process s \<in> set xs" "keeps_context s (g_current_process s)"
      using ok by (auto simp: sched_ok_def)
    moreover from this have "g_current_process s \<noteq> 0" using chain_nonzero by (metis queued_def)
    ultimately show ?thesis
      using leave stage1_step [of s ra c] by (auto simp: interrupt_exit_def kbind_eq_Inr split: if_splits)
  qed simp
qed

lemma sched_event_enabled: "sched_event s t \<Longrightarrow> irq_enabled IRQ_PIT t = irq_enabled IRQ_PIT s"
  by (rule irq_enabled_cong [OF sched_event_mask])

interpretation add_region: masked_region Add_Empty "add_step p" sched_event for p
  by unfold_locales (rule add_step_mask, assumption, rule sched_event_enabled)

interpretation yield_region: masked_region Yield_Read yield_body sched_event
  by unfold_locales (rule yield_body_mask, assumption, rule sched_event_enabled)

section \<open>The queue under interruptions\<close>

text \<open>The process \<open>p\<close> is on the queue, or its link is null; no event changes that.\<close>

definition link_settled :: "u32 \<Rightarrow> 'a scheduler_scheme \<Rightarrow> bool" where
  "link_settled p s \<longleftrightarrow> (\<exists>xs. queued s xs \<and> (p \<in> set xs \<or> queue_next s p = 0))"

lemma link_settled_cong:
  "queue_next t = queue_next s \<Longrightarrow> process_queue t = process_queue s \<Longrightarrow> link_settled p t = link_settled p s"
  by (simp add: link_settled_def queued_def fun_eq_iff)

lemma queue_walk_in:
  "chain nx node (node # ys) \<Longrightarrow> queue_walk n p node nx = Inr (Some l) \<Longrightarrow> l \<in> set (node # ys)"
proof (induction n arbitrary: node ys)
  case (Suc n)
  then show ?case by (cases ys) (auto split: if_splits)
qed simp

lemma add_locked_links:
  assumes "queued s xs" "add_locked n p s = Inr (r, t)" "q \<notin> set xs"
  shows "queue_next t q = queue_next s q"
proof -
  obtain u where u: "add_body n p (locked s) = Inr (r, u)" "int_unlock_region (irq_enabled IRQ_PIT s) u = Inr t"
    using assms(2) by (auto simp: add_locked_def int_lock_region_eq kbind_eq_Inr)
  have "queue_next u q = queue_next s q"
  proof (cases xs)
    case Nil
    then show ?thesis using u(1) assms(1) by (auto simp: add_body_def queued_def)
  next
    case (Cons x ys)
    have chain: "chain (queue_next s) x (x # ys)" "process_queue s = x" "x \<noteq> 0"
      using assms(1) Cons by (auto simp: queued_def)
    show ?thesis
      using u(1) chain queue_walk_in [OF chain(1), of n p] assms(3) Cons
      by (auto simp: add_body_def add_walked_def kbind_eq_Inr split: if_splits option.splits)
  qed
  moreover have "t = unlocked (irq_enabled IRQ_PIT s) u"
    using region_mask_restored(1) [OF add_body_mask [OF u(1)]] u(2) by simp
  ultimately show ?thesis by simp
qed

lemma sched_event_link_settled:
  assumes event: "sched_event s t" and p: "link_settled p s"
  shows "link_settled p t"
proof -
  have ok: "sched_ok s" and step: "sched_step s t" using event by (auto simp: sched_event_def)
  obtain xs where xs: "queued s xs" "p \<in> set xs \<or> queue_next s p = 0" using p by (auto simp: link_settled_def)
  from step show ?thesis
  proof cases
    case (fill ys q d)
    have chain: "chain (queue_next s) (process_queue s) ys" using fill(2) by (simp add: queued_def)
    have ys: "ys = xs" using chain xs(1) chain_functional by (metis queued_def)
    have nx: "queue_next t = (queue_next s)(q := 0)" using fill(1,4) by auto
    have "process_queue t = process_queue s" using fill(1) by simp
    then have "queued t xs" using chain fill(3) ys unfolding queued_def nx by simp
    moreover have "p \<in> set xs \<or> queue_next t p = 0" using xs(2) fun_cong [OF nx, of p] by auto
    ultimately have "\<exists>zs. queued t zs \<and> (p \<in> set zs \<or> queue_next t p = 0)" by blast
    then show ?thesis by (simp only: link_settled_def)
  next
    case (add q n b)
    have m: "scheduler_add_process (max n (length xs)) q s = Inr (b, t)" by (rule add_process_mono [OF add(3)]) simp
    have queue: "queued t (if q \<in> set xs then xs else xs @ [q])"
      using add_process_spec [OF xs(1) add(1), of "max n (length xs)"] add(2) m by auto
    have run: "add_locked n q s = Inr (b, t)"
      using add by (simp add: scheduler_add_process_locked worry_if_def)
    have "queue_next t p = queue_next s p" if "p \<notin> set xs" by (rule add_locked_links [OF xs(1) run that])
    then have "p \<in> set xs \<or> queue_next t p = 0" using xs(2) by metis
    then show ?thesis using queue by (auto simp: link_settled_def split: if_splits)
  next
    case yield
    then have "queue_next t = queue_next s" "process_queue t = process_queue s" using yield_runs [OF yield_current, of s] by auto
    then show ?thesis using p link_settled_cong by blast
  next
    case tick
    then have "queue_next t = queue_next s" "process_queue t = process_queue s" using tick_Inr [of s t] by (auto simp: tick_result_sel)
    then show ?thesis using p link_settled_cong by blast
  next
    case (leave ra c stack)
    obtain ys where "queued s ys" "g_current_process s \<in> set ys" "keeps_context s (g_current_process s)"
      using ok by (auto simp: sched_ok_def)
    moreover from this have "g_current_process s \<noteq> 0" using chain_nonzero by (metis queued_def)
    ultimately have "queue_next t = queue_next s" "process_queue t = process_queue s"
      using leave stage1_step [of s ra c] by (auto simp: interrupt_exit_def kbind_eq_Inr split: if_splits)
    then show ?thesis using p link_settled_cong by blast
  qed
qed

lemma interrupted_ok: "(interrupted sched_event)\<^sup>*\<^sup>* s t \<Longrightarrow> sched_ok s \<Longrightarrow> sched_ok t"
  by (induction rule: rtranclp_induct) (auto simp: interrupted_def sched_event_def intro: sched_ok_step)

lemma interrupted_run:
  assumes "(interrupted sched_event)\<^sup>*\<^sup>* s t" "sched_ok s" "link_settled p s"
  shows "sched_ok t" "link_settled p t"
proof -
  show "sched_ok t" by (rule interrupted_ok [OF assms(1,2)])
  show "link_settled p t"
    using assms(1,3) by (induction rule: rtranclp_induct) (auto simp: interrupted_def dest: sched_event_link_settled)
qed

lemma add_locked_ok:
  assumes ok: "sched_ok s" "link_settled p s" "p \<noteq> 0" and run: "add_locked n p s = Inr (r, t)"
  shows "sched_ok t"
proof (cases "queue_next s p = 0")
  case True
  then have "scheduler_add_process n p s = Inr (r, t)"
    using run ok(3) by (simp add: scheduler_add_process_locked worry_if_def)
  then show ?thesis by (rule sched_ok_add [OF ok(1,3) True])
next
  case False
  then obtain xs where xs: "queued s xs" "p \<in> set xs" using ok(2) by (auto simp: link_settled_def)
  obtain u where u: "add_body n p (locked s) = Inr (r, u)" "int_unlock_region (irq_enabled IRQ_PIT s) u = Inr t"
    using run by (auto simp: add_locked_def int_lock_region_eq kbind_eq_Inr)
  obtain x ys where x: "xs = x # ys" using xs(2) by (cases xs) auto
  have chain: "chain (queue_next s) x (x # ys)" "process_queue s = x" "x \<noteq> 0"
    using xs(1) x by (auto simp: queued_def)
  have "queue_walk (max n (length xs)) p x (queue_next s) = Inr None" if "p \<noteq> x"
    using queue_walk_spec [of "queue_next s" x ys p "max n (length xs)"] chain ok(3) xs(2) that x by auto
  then have "w = None" if "p \<noteq> x" "queue_walk n p x (queue_next s) = Inr w" for w
    using queue_walk_mono [OF that(2), of "max n (length xs)"] that(1) by simp
  then have "u = locked s"
    using u(1) chain by (auto simp: add_body_def add_walked_def kbind_eq_Inr split: if_splits)
  then have "t = unlocked (irq_enabled IRQ_PIT s) (locked s)" using u(2) by (simp add: int_unlock_region_eq)
  then show ?thesis using ok(1) by (simp add: sched_ok_def queued_def keeps_context_def)
qed

section \<open>Properties\<close>

text \<open>\<open>process_yield\<close> is atomic: with interrupts between any two of its statements it does what it does as a
  whole, between some of them.\<close>

lemma yield_interleaved:
  "(region_move Yield_Read yield_body sched_event)\<^sup>*\<^sup>* (Enter, s) (Left r, t) \<longleftrightarrow>
    (\<exists>s1 t1. (interrupted sched_event)\<^sup>*\<^sup>* s s1 \<and> process_yield s1 = Inr t1 \<and> (interrupted sched_event)\<^sup>*\<^sup>* t1 t)"
  by (simp only: yield_region.atomic yield_region_result)

text \<open>C5. Adding a process is atomic although the timer interrupts it: run statement by statement from a well
  formed queue, with interrupts wherever the timer IRQ is not masked and with any events of the scheduler during
  them, also the addition of other processes or of the same one, \<open>scheduler_add_process\<close> can finish, and however it finishes the
  result is that of the whole operation at one moment between the events; the queue is well formed in the end.\<close>

theorem add_process_interleaved:
  assumes "sched_ok s" and "p \<noteq> 0" and "queue_next s p = 0"
  shows "(\<exists>r t. (region_move Add_Empty (add_step p) sched_event)\<^sup>*\<^sup>* (Enter, s) (Left r, t)) \<and>
    (\<forall>r t. (region_move Add_Empty (add_step p) sched_event)\<^sup>*\<^sup>* (Enter, s) (Left r, t) \<longrightarrow> sched_ok t \<and>
      (\<exists>s1 t1 n. (interrupted sched_event)\<^sup>*\<^sup>* s s1 \<and> add_locked n p s1 = Inr (r, t1) \<and>
        (interrupted sched_event)\<^sup>*\<^sup>* t1 t))"
proof
  obtain xs where xs: "queued s xs" using assms(1) by (auto simp: sched_ok_def)
  obtain t where "add_locked (length xs) p s = Inr (p \<notin> set xs, t)"
    using add_process_spec [OF xs assms(2), of "length xs"] assms(2,3)
    by (auto simp: scheduler_add_process_locked worry_if_def)
  then have "region_result Add_Empty (add_step p) s (p \<notin> set xs) t" using add_region_result by blast
  then show "\<exists>r t. (region_move Add_Empty (add_step p) sched_event)\<^sup>*\<^sup>* (Enter, s) (Left r, t)"
    using add_region.backward by blast
  have settled: "link_settled p s" using xs assms(3) by (auto simp: link_settled_def)
  show "\<forall>r t. (region_move Add_Empty (add_step p) sched_event)\<^sup>*\<^sup>* (Enter, s) (Left r, t) \<longrightarrow> sched_ok t \<and>
      (\<exists>s1 t1 n. (interrupted sched_event)\<^sup>*\<^sup>* s s1 \<and> add_locked n p s1 = Inr (r, t1) \<and>
        (interrupted sched_event)\<^sup>*\<^sup>* t1 t)"
  proof (intro allI impI)
    fix r t assume "(region_move Add_Empty (add_step p) sched_event)\<^sup>*\<^sup>* (Enter, s) (Left r, t)"
    then obtain s1 t1 n where run: "(interrupted sched_event)\<^sup>*\<^sup>* s s1" "add_locked n p s1 = Inr (r, t1)"
      "(interrupted sched_event)\<^sup>*\<^sup>* t1 t"
      unfolding add_region.atomic add_region_result by blast
    have "sched_ok t1" using add_locked_ok [OF interrupted_run [OF run(1) assms(1) settled] assms(2) run(2)] .
    then have "sched_ok t" using interrupted_ok [OF run(3)] by blast
    then show "sched_ok t \<and> (\<exists>s1 t1 n. (interrupted sched_event)\<^sup>*\<^sup>* s s1 \<and> add_locked n p s1 = Inr (r, t1) \<and>
        (interrupted sched_event)\<^sup>*\<^sup>* t1 t)" using run by blast
  qed
qed

text \<open>A tick of the timer after \<open>scheduler_add_process\<close> was entered and before the timer is masked.\<close>

theorem add_process_interleaved_witness:
  "\<exists>s t u r. interrupted sched_event (s :: scheduler) t \<and> t \<noteq> s \<and> sched_ok u \<and>
    (region_move Add_Empty (add_step 0x30) sched_event)\<^sup>*\<^sup>* (Enter, s) (Left r, u)"
proof -
  define s where "s = sched_zero\<lparr>if_flag := True, irq_mask := 0\<rparr>"
  have ok: "sched_ok s"
    by (rule sched_okI [of _ "[0x10, 0x20]"]) (simp_all add: s_def queued_def keeps_context_def zero_process_def)
  obtain t where t: "scheduler_tick s = Inr t" "processes t = (processes s)(0x10 := (processes s 0x10)\<lparr>p_quantum := - 1\<rparr>)"
    using tick_runs [of s] by (simp add: tick_result_sel s_def zero_process_def)
  have event: "sched_event s t" using ok t(1) sched_step.tick by (auto simp: sched_event_def)
  then have intr: "interrupted sched_event s t" by (simp add: interrupted_def s_def irq_enabled_def)
  have "sched_ok t" using sched_ok_step ok event by (auto simp: sched_event_def)
  moreover have "queue_next t 0x30 = 0" by (simp add: t(2) s_def zero_process_def)
  ultimately obtain r u where u: "sched_ok u" "(region_move Add_Empty (add_step 0x30) sched_event)\<^sup>*\<^sup>* (Enter, t) (Left r, u)"
    using add_process_interleaved [of t "0x30"] by auto
  have "p_quantum (processes t 0x10) \<noteq> p_quantum (processes s 0x10)" by (simp add: t(2) s_def zero_process_def)
  then have "t \<noteq> s" by auto
  moreover have "(region_move Add_Empty (add_step 0x30) sched_event)\<^sup>*\<^sup>* (Enter, s) (Left r, u)"
    using region_move.interrupt [OF intr] u(2) by (rule converse_rtranclp_into_rtranclp)
  ultimately show ?thesis using intr u(1) by blast
qed

end
