(* ===== verification/Entry.thy ===== *)
theory Entry
  imports Interleave
begin

text \<open>
  The way of an interrupt through the kernel: \<open>int_handler_stub\<close> of \<open>kernel/arch/i386/interrupt_asm.S\<close>, which all
  49 vectors enter, calls the function in the handler table and ends with the switch to another process if one was
  asked for. Here the table, the handlers of all components and the scheduler come together. Also: what a \<open>printf\<close>,
  of which the other components record the text in \<open>con_log\<close>, shows on the terminal.
\<close>

section \<open>The stub\<close>

text \<open>The call through the table: the C function behind a pointer. \<open>cr2\<close> is what the page fault reads; \<open>fuel\<close> bounds
  the list of handlers of an IRQ and the string of a system call.\<close>

definition call_handler :: "nat \<Rightarrow> u32 \<Rightarrow> handler \<Rightarrow> thread_context \<Rightarrow> 'a scheduler_scheme \<Rightarrow>
    ('a scheduler_scheme) kres" where
  "call_handler fuel cr2 h c s =
     (case h of
        Unexpected_Int \<Rightarrow> unexpected_int_handler c
      | Page_Fault_Int \<Rightarrow> page_fault_int_handler cr2 c
      | Irq_Int \<Rightarrow> irq_int_handler fuel irq_call c s
      | Syscall_Int \<Rightarrow> syscall_int_handler fuel c s
      | _ \<Rightarrow> irq_call h c s)"

text \<open>\<open>context\<close> is the stack pointer after the registers were pushed, and \<open>c\<close> are the values there.\<close>

definition int_handler_stub :: "nat \<Rightarrow> u32 \<Rightarrow> u32 \<Rightarrow> u32 \<Rightarrow> thread_context \<Rightarrow> 'a scheduler_scheme \<Rightarrow>
    (u32 \<times> 'a scheduler_scheme) kres" where
  "int_handler_stub fuel cr2 ra context c s =
     (if length (g_int_handler_table s) \<le> unat (int_num c) then Inl (Undefined ''g_int_handler_table'')
      else case g_int_handler_table s ! unat (int_num c) of
        None \<Rightarrow> Inl (Undefined ''null function pointer'')
      | Some h \<Rightarrow> kbind (call_handler fuel cr2 h c s) (interrupt_exit ra context))"

text \<open>The table as \<open>int_init\<close> and \<open>pmm_init\<close> leave it.\<close>

definition vectors_ready :: "'a interrupts_scheme \<Rightarrow> bool" where
  "vectors_ready s \<longleftrightarrow> g_int_handler_table s =
     (map (\<lambda>i. Some (default_handler i)) [0..<INT_NUM_INTERRUPTS])[14 := Some Page_Fault_Int]"

lemma vectors_ready_nth:
  assumes "vectors_ready s"
  shows "length (g_int_handler_table s) = 49"
    "i < 49 \<Longrightarrow> g_int_handler_table s ! i = Some (if i = 14 then Page_Fault_Int else default_handler i)"
  using assms by (auto simp: vectors_ready_def INT_NUM_INTERRUPTS_def nth_list_update)

lemma vectors_made:
  assumes "g_int_handler_table s = map (\<lambda>i. Some (default_handler i)) [0..<INT_NUM_INTERRUPTS]"
  shows "\<exists>t. int_register_handler 14 (Some Page_Fault_Int) s = Inr t \<and> vectors_ready t"
  using assms by (simp add: int_register_handler_def vectors_ready_def int_consts)

lemma stub_call:
  assumes "vectors_ready s" "int_num c < 49"
  shows "int_handler_stub fuel cr2 ra context c s =
    kbind (call_handler fuel cr2 (if int_num c = 14 then Page_Fault_Int else default_handler (unat (int_num c))) c s)
      (interrupt_exit ra context)"
proof -
  have "unat (int_num c) < 49" using assms(2) by (simp add: word_less_nat_alt)
  moreover have "int_num c = 14 \<longleftrightarrow> unat (int_num c) = 14" by (simp add: word_unat_eq_iff)
  ultimately show ?thesis by (simp add: int_handler_stub_def vectors_ready_nth [OF assms(1)])
qed

section \<open>Exceptions\<close>

definition registers_text :: "thread_context \<Rightarrow> string" where
  "registers_text c = concat (map piece_text
     [Plain ''  eax='', Hex (eax c), Plain '' ebx='', Hex (ebx c), Plain '' ecx='', Hex (ecx c), Plain '' edx='', Hex (edx c),
      Plain (CHR 0x0A # ''  ebp=''), Hex (ebp c), Plain '' esi='', Hex (esi c), Plain '' edi='', Hex (edi c),
      Plain (CHR 0x0A # ''  ds=''), Hex (ds c), Plain '' es='', Hex (es c), Plain '' fs='', Hex (fs c), Plain '' gs='', Hex (gs c),
      Plain (CHR 0x0A # ''  cs:eip=''), Hex (cs c), Plain '':'', Hex (eip c),
      Plain (CHR 0x0A # ''  ss:esp=''), Hex (user_ss c), Plain '':'', Hex (esp c),
      Plain (CHR 0x0A # ''  eflags=''), Hex (eflags c),
      Plain (CHR 0x0A # ''  int=''), Signed (int_num c), Plain '' err='', Hex (error_code c), Plain [CHR 0x0A]])"

text \<open>The exceptions that have no message of their own get the one of number 15.\<close>

definition exception_text :: "thread_context \<Rightarrow> string" where
  "exception_text c = concat (map piece_text [Plain ''unhandled interrupt '', Signed (int_num c), Plain '': '',
     Plain (error_msg ! (if unat (int_num c) \<le> 20 then unat (int_num c) else 15)), Plain [CHR 0x0A]]) @ registers_text c"

definition page_fault_text :: "u32 \<Rightarrow> thread_context \<Rightarrow> string" where
  "page_fault_text cr2 c = concat (map piece_text
     [Plain ''page fault at address '', Hex cr2, Plain [CHR 0x0A]]) @ registers_text c"

lemmas number_texts = piece_text_def ltoa_text ultoa_text ultox_text zero_buf_def BUF_LEN_def cstring_of_Cons

lemma strcat_registers_text: "strcat_registers buf c = Inr (buf @ registers_text c)"
  by (simp add: strcat_registers_def sprintf_def vsprintf_def registers_text_def number_texts)

lemma panic_r_text: "panic_r msg c = Inl (Panic (msg @ CHR 0x0A # registers_text c))"
  by (simp add: panic_r_def strcat_registers_text)

lemma cstring_of_NUL: "cstring_of (str @ [CHR 0x00]) = cstring_of str"
  by (induction str) (simp_all add: cstring_of_def)

lemma error_msg_text: "i < 21 \<Longrightarrow> cstring_of (error_msg ! i) = error_msg ! i"
proof -
  have "list_all (\<lambda>m. CHR 0x00 \<notin> set m) error_msg" "length error_msg = 21" by (simp_all add: error_msg_def)
  then show "i < 21 \<Longrightarrow> ?thesis" by (auto simp: list_all_length intro!: cstring_of_id)
qed

lemma unexpected_panics:
  assumes "int_num c < 32"
  shows "unexpected_int_handler c = Inl (Panic (exception_text c))"
proof -
  have msg: "sprintf ''unhandled interrupt %d: %s'' [VInt v, VStr (error_msg ! i)] =
      Inr (''unhandled interrupt '' @ piece_text (Signed v) @ '': '' @ error_msg ! i)" if "i < 21" for v i
    using error_msg_text [OF that] by (simp add: sprintf_def vsprintf_def number_texts cstring_of_NUL)
  have "int_num c \<le> 20 \<longleftrightarrow> unat (int_num c) \<le> 20" by (simp add: word_le_nat_alt)
  then show ?thesis
    using assms msg [of 15] msg [of "unat (int_num c)"]
    by (auto simp: unexpected_int_handler_def panic_r_text exception_text_def piece_text_def)
qed

lemma page_fault_panics: "page_fault_int_handler cr2 c = Inl (Panic (page_fault_text cr2 c))"
  by (simp add: page_fault_int_handler_def sprintf_def vsprintf_def panic_r_text page_fault_text_def number_texts)

section \<open>The terminal below the rest of the kernel\<close>

text \<open>Output on the terminal changes nothing above it.\<close>

lemma tty_more_region [simp]: "tty.more (locked s) = tty.more s" "tty.more (unlocked l s) = tty.more s"
  by (simp_all add: locked_def unlocked_def set_raw_mask_def ioport_outb_def Let_def)

lemma unlock_tty_more:
  fixes s :: "'a tty_scheme"
  assumes "int_unlock_region l s = Inr t"
  shows "tty.more t = tty.more s"
proof (cases l)
  case True
  then obtain r where "int_unmask_irq IRQ_PIT s = Inr (r, t)"
    using assms by (auto simp: int_unlock_region_def kbind_eq_Inr)
  then have "pic.more t = pic.more s" using unmask_above_pic [of s] by auto
  then show ?thesis by (cases s; cases t) simp
qed (use assms in \<open>simp add: int_unlock_region_def\<close>)

lemma update_cursor_more: "update_cursor s = Inr t \<Longrightarrow> tty.more t = tty.more s"
  by (auto simp: update_cursor_def int_lock_region_eq Let_def ioport_outb_def dest!: unlock_tty_more)

lemma next_row_more: "next_row s = Inr t \<Longrightarrow> tty.more t = tty.more s"
  by (auto simp: next_row_def scroll_def int_lock_region_eq Let_def dest!: unlock_tty_more split: if_splits)

lemma putchar_more: "tty_putchar_color c color s = Inr (r, t) \<Longrightarrow> tty.more t = tty.more s"
  by (auto simp: tty_putchar_color_def int_lock_region_eq Let_def kbind_eq_Inr
      dest!: unlock_tty_more update_cursor_more next_row_more split: if_splits)

lemma puts_loop_more: "puts_loop str color s = Inr t \<Longrightarrow> tty.more t = tty.more s"
  by (induction str arbitrary: s) (auto simp: kbind_eq_Inr dest!: putchar_more)

lemma puts_more: "tty_puts_color str color newline s = Inr (n, t) \<Longrightarrow> tty.more t = tty.more s"
  by (auto simp: tty_puts_color_def int_lock_region_eq kbind_eq_Inr Let_def
      dest!: unlock_tty_more puts_loop_more putchar_more split: if_splits)

section \<open>\<open>printf\<close> on the terminal\<close>

abbreviation shows_text :: "string \<Rightarrow> bool \<Rightarrow> screen \<Rightarrow> screen" where
  "shows_text str newline \<equiv> spec_puts str TTY_COLOR_SCREEN newline"

text \<open>What output of a text in the colours of the screen does to the state.\<close>

definition displayed :: "string \<Rightarrow> bool \<Rightarrow> 'a tty_scheme \<Rightarrow> 'a tty_scheme \<Rightarrow> bool" where
  "displayed str newline s t \<longleftrightarrow> tty_inv t \<and> irq_mask t = irq_mask s \<and> tty.more t = tty.more s \<and>
     screen_of t = shows_text str newline (screen_of s)"

lemma tty_puts_displays:
  assumes "tty_inv s"
  shows "\<exists>t. tty_puts (Some str) newline s =
    Inr (length (cstring_of str) + (if newline then 1 else 0), t) \<and> displayed str newline s t"
  using tty_puts_color_step [OF assms, of str TTY_COLOR_SCREEN newline] puts_more
  by (fastforce simp: tty_puts_def displayed_def)

lemma cstring_of_twice [simp]: "cstring_of (cstring_of t) = cstring_of t"
  by (simp add: cstring_of_def)

lemma displayed_cstring: "displayed (cstring_of str) newline s t = displayed str newline s t"
  by (simp add: displayed_def spec_puts_def)

lemma displayed_NUL: "displayed (str @ [CHR 0x00]) newline s t = displayed str newline s t"
  by (simp add: displayed_def spec_puts_def cstring_of_NUL)

lemma tty_printf_displays:
  assumes "tty_inv s" "vprintf_buf fmt args = Inr buf"
  shows "\<exists>t. tty_printf fmt args s = Inr (length (cstring_of buf), t) \<and> displayed buf False s t"
  using tty_puts_displays [OF assms(1), of buf False] assms(2) by (simp add: tty_printf_def vprintf_def)

section \<open>System calls\<close>

definition syscall_text :: "u32 \<Rightarrow> string" where
  "syscall_text v = CHR 0x0A # ''received syscall '' @ piece_text (Signed v) @ [CHR 0x0A]"

lemma signed_text: "cstring_of (ltoa v zero_buf) = piece_text (Signed v)" "length (piece_text (Signed v)) \<le> 11"
proof -
  have len: "length (dec_text (unat w)) \<le> 10" for w :: u32
    using u32_digits_le(1) [of w] by (simp add: dec_text_def)
  show "cstring_of (ltoa v zero_buf) = piece_text (Signed v)"
    unfolding piece_text_def piece.case by (rule ltoa_text) (simp add: zero_buf_def BUF_LEN_def)
  show "length (piece_text (Signed v)) \<le> 11" using len [of v] len [of "- v"] by (auto simp: piece_text_def)
qed

lemma syscall_printf:
  "vprintf_buf (CHR 0x0A # ''received syscall %d'' @ [CHR 0x0A]) [VInt v] = Inr (syscall_text v @ [CHR 0x00])"
  using signed_text(2) [of v] by (simp add: vprintf_buf_def vsprintf_def signed_text(1) syscall_text_def BUF_LEN_def)

text \<open>The characters of \<open>str\<close>, none of them NUL, can be read from the address \<open>p\<close> on.\<close>

definition prefix_at :: "'a paging_scheme \<Rightarrow> u32 \<Rightarrow> string \<Rightarrow> bool" where
  "prefix_at s p str \<longleftrightarrow> (\<forall>i < length str. str ! i \<noteq> CHR 0x00 \<and> read8 (p + of_nat i) s = Inr (of_char (str ! i)))"

lemma prefix_at_Cons:
  "prefix_at s p []" "prefix_at s p (c # str) \<longleftrightarrow> c \<noteq> CHR 0x00 \<and> read8 p s = Inr (of_char c) \<and> prefix_at s (p + 1) str"
  by (auto simp: prefix_at_def nth_Cons All_less_Suc2 algebra_simps)

lemma u8_of_char: "(of_char c :: u8) = 0 \<longleftrightarrow> c = CHR 0x00" "char_of (unat (of_char c :: u8)) = c"
proof -
  have small: "(of_char c :: nat) < 256"
    using of_char_mod_256 [of c, where ?'a = nat] mod_less_divisor [of 256 "of_char c :: nat"] by simp
  have "(of_char c :: u8) = of_nat (of_char c)" by (simp add: of_nat_of_char)
  then have u: "unat (of_char c :: u8) = of_char c" using small by (simp add: unat_of_nat)
  then show "char_of (unat (of_char c :: u8)) = c" by simp
  have "(of_char c :: u8) = 0 \<longleftrightarrow> (of_char c :: nat) = of_char (CHR 0x00)" using u by (simp add: word_unat_eq_iff)
  then show "(of_char c :: u8) = 0 \<longleftrightarrow> c = CHR 0x00" by (simp only: of_char_eq_iff)
qed

lemma string_at_prefix:
  assumes "prefix_at s p str" "length str < n"
  shows "read8 (p + of_nat (length str)) s = Inr 0 \<Longrightarrow> string_at n p s = Inr str"
    "read8 (p + of_nat (length str)) s = Inl e \<Longrightarrow> string_at n p s = Inl e"
  using assms
proof (induction str arbitrary: n p)
  case Nil
  { case 1 then show ?case by (cases n) simp_all }
  { case 2 then show ?case by (cases n) simp_all }
next
  case (Cons c str)
  { case 1 with Cons.IH(1) [of "p + 1" "n - 1"] show ?case
      by (cases n) (simp_all add: prefix_at_Cons u8_of_char algebra_simps) }
  { case 2 with Cons.IH(2) [of "p + 1" "n - 1"] show ?case
      by (cases n) (simp_all add: prefix_at_Cons u8_of_char algebra_simps) }
qed

lemma read8_more:
  assumes "tty.more t = tty.more s"
  shows "read8 p t = read8 p s"
proof -
  have "pmem t = pmem s" "cr3 t = cr3 s"
    using assms by (cases s rule: paging.cases_scheme, cases t rule: paging.cases_scheme, simp)+
  then show ?thesis by (simp add: read8_def translate_def Let_def)
qed

lemma string_at_more:
  assumes "tty.more t = tty.more s"
  shows "string_at n p t = string_at n p s"
  by (induction n arbitrary: p) (simp_all add: read8_more [OF assms] cong: if_cong)

text \<open>What a system call does after it printed its number.\<close>

definition syscall_body :: "nat \<Rightarrow> thread_context \<Rightarrow> 'a interrupts_scheme \<Rightarrow> 'a interrupts_scheme \<Rightarrow> ('a interrupts_scheme) kres" where
  "syscall_body fuel c s u =
    (if eax c = 1 then
       kbind (if ecx c = 0 then Inr None else kbind (string_at fuel (ecx c) s) (\<lambda>str. Inr (Some str))) (\<lambda>str.
       kbind (tty_puts str True u) (\<lambda>(_, t). Inr t))
     else Inr u)"

lemma syscall_runs:
  assumes "tty_inv s"
  shows "\<exists>u. displayed (syscall_text (eax c)) False s u \<and> syscall_int_handler fuel c s = syscall_body fuel c s u"
proof -
  obtain n u where u: "tty_printf (CHR 0x0A # ''received syscall %d'' @ [CHR 0x0A]) [VInt (eax c)] s = Inr (n, u)"
    "displayed (syscall_text (eax c)) False s u"
    using tty_printf_displays [OF assms syscall_printf [of "eax c"]] by (auto simp only: displayed_NUL)
  then have "tty.more u = tty.more s" by (simp add: displayed_def)
  then have "syscall_int_handler fuel c s = syscall_body fuel c s u"
    unfolding syscall_int_handler_def syscall_body_def u(1) by (simp add: string_at_more [of u s])
  with u(2) show ?thesis by blast
qed

text \<open>The three ways a system call 1 can end.\<close>

lemma syscall_null: "eax c = 1 \<Longrightarrow> ecx c = 0 \<Longrightarrow>
    syscall_body fuel c s u = Inl (Panic ''KASSERT failed: str != NULL'')"
  by (simp add: syscall_body_def tty_puts_def tty_puts_color_def int_lock_region_eq kassert_def panic_if_def)

lemma syscall_fault: "eax c = 1 \<Longrightarrow> ecx c \<noteq> 0 \<Longrightarrow> prefix_at s (ecx c) str \<Longrightarrow> length str < fuel \<Longrightarrow>
    read8 (ecx c + of_nat (length str)) s = Inl e \<Longrightarrow> syscall_body fuel c s u = Inl e"
  by (simp add: syscall_body_def string_at_prefix(2))

lemma syscall_string:
  assumes "tty_inv u" "eax c = 1" "ecx c \<noteq> 0" "prefix_at s (ecx c) str" "length str < fuel"
    and "read8 (ecx c + of_nat (length str)) s = Inr 0"
  shows "\<exists>t. syscall_body fuel c s u = Inr t \<and> displayed str True u t"
  using tty_puts_displays [OF assms(1), of str True] string_at_prefix(1) [OF assms(4-6)] assms(2,3)
  by (auto simp: syscall_body_def)

section \<open>The quantum of a process\<close>

text \<open>Interrupts of the timer through the stub; each pushes its registers at an address of its own, the context.
  The result has the stack pointer that the last one returned with.\<close>

primrec timer_stubs :: "nat \<Rightarrow> u32 \<Rightarrow> thread_context \<Rightarrow> u32 list \<Rightarrow> u32 \<times> 'a scheduler_scheme \<Rightarrow>
    (u32 \<times> 'a scheduler_scheme) kres" where
  "timer_stubs fuel ra c [] r = Inr r"
| "timer_stubs fuel ra c (x # xs) r =
     kbind (int_handler_stub fuel 0 ra x c (snd r)) (timer_stubs fuel ra c xs)"

lemma timer_stub:
  assumes "vectors_ready s" "int_num c = 32"
  shows "int_handler_stub fuel cr2 ra x c s = kbind (irq_int_handler fuel irq_call c s) (interrupt_exit ra x)"
  using stub_call [of s c fuel cr2 ra x] assms by (simp add: default_handler_def int_consts call_handler_def)

text \<open>A timer interrupt that does not ask for a switch returns to the process it interrupted.\<close>

definition runs_on :: "u32 \<Rightarrow> u32 \<Rightarrow> 'a scheduler_scheme \<Rightarrow> bool" where
  "runs_on a b s \<longleftrightarrow> vectors_ready s \<and> clock_ready s a b \<and> g_preemption_enabled s \<and> \<not> g_switch_processes s"

abbreviation running :: "'a scheduler_scheme \<Rightarrow> process" where
  "running s \<equiv> processes s (g_current_process s)"

lemma tick_through_stub:
  assumes "runs_on a b s" "int_num c = 32" "2 < fuel" "g_current_process s \<noteq> 0" "process_queue s \<noteq> 0"
  obtains t where "int_handler_stub fuel cr2 ra x c s = interrupt_exit ra x t"
    "vectors_ready t" "clock_ready t a b" "g_preemption_enabled t" "system_ticks t = system_ticks s + 1"
    "g_current_process t = g_current_process s" "process_queue t = process_queue s" "threads t = threads s"
    "processes t = (processes s)(g_current_process s := charged 1 (running s))"
    "g_switch_processes t \<longleftrightarrow> wants_switch (running s) \<and> queue_next s (process_queue s) \<noteq> 0"
proof -
  have s: "vectors_ready s" "clock_ready s a b" "g_preemption_enabled s" "\<not> g_switch_processes s"
    using assms(1) by (simp_all add: runs_on_def)
  show thesis
    by (rule clock_interrupt [OF s(2) assms(2-5)], rule that)
      (use s in \<open>simp_all add: timer_stub [OF s(1) assms(2)] vectors_ready_def\<close>)
qed

lemma quantum_lasts:
  assumes "runs_on a b s" and "int_num c = 32" and "2 < fuel"
    and "p_flags (running s) AND PROC_DEBUG_YIELD = 0" and "length xs < unat (p_quantum (running s))"
    and "g_current_process s \<noteq> 0" and "process_queue s \<noteq> 0"
  shows "\<exists>t. timer_stubs fuel ra c xs (r, s) = Inr (List.last (r # xs), t) \<and> runs_on a b t \<and>
    system_ticks t = system_ticks s + of_nat (length xs) \<and> g_current_process t = g_current_process s \<and>
    process_queue t = process_queue s \<and> threads t = threads s \<and>
    processes t = (processes s)(g_current_process s := charged (length xs) (running s))"
  using assms(1,4-7)
proof (induction xs arbitrary: r s)
  case Nil
  then show ?case by simp
next
  case (Cons x xs)
  obtain t where t: "int_handler_stub fuel 0 ra x c s = interrupt_exit ra x t" "vectors_ready t" "clock_ready t a b"
    "g_preemption_enabled t" "system_ticks t = system_ticks s + 1" "g_current_process t = g_current_process s"
    "process_queue t = process_queue s" "threads t = threads s"
    "processes t = (processes s)(g_current_process s := charged 1 (running s))"
    "g_switch_processes t \<longleftrightarrow> wants_switch (running s) \<and> queue_next s (process_queue s) \<noteq> 0"
    by (rule tick_through_stub [OF Cons.prems(1) assms(2,3) Cons.prems(4,5)])
  have q: "p_quantum (running s) \<noteq> 1" "unat (p_quantum (running s) - 1) = unat (p_quantum (running s)) - 1"
    using Cons.prems(3) by (auto simp: u32_sub_no_wrap)
  then have "\<not> wants_switch (running s)" using Cons.prems(2) by (simp add: wants_switch_def)
  then have on: "runs_on a b t" using t(2-4,10) by (simp add: runs_on_def)
  have run: "running t = charged 1 (running s)" by (simp add: t(6,9))
  then have "p_flags (running t) AND PROC_DEBUG_YIELD = 0" "length xs < unat (p_quantum (running t))"
    using Cons.prems(2,3) q(2) by simp_all
  then obtain u where u: "timer_stubs fuel ra c xs (x, t) = Inr (List.last (x # xs), u)" "runs_on a b u"
    "system_ticks u = system_ticks t + of_nat (length xs)" "g_current_process u = g_current_process t"
    "process_queue u = process_queue t" "threads u = threads t"
    "processes u = (processes t)(g_current_process t := charged (length xs) (running t))"
    using Cons.IH [OF on _ _ Cons.prems(4,5) [folded t(6,7)], of x] by blast
  have "interrupt_exit ra x t = Inr (x, t)" using on by (simp add: interrupt_exit_def runs_on_def)
  then have "timer_stubs fuel ra c (x # xs) (r, s) = Inr (List.last (r # x # xs), u)" using t(1) u(1) by simp
  moreover have "charged (length xs) (running t) = charged (length (x # xs)) (running s)"
    by (simp add: run algebra_simps)
  ultimately show ?case using t u by (intro exI [of _ u]) (simp add: diff_diff_eq)
qed

lemma queued_running:
  assumes "queued s ps" "i < length ps" "g_current_process s = ps ! i"
  shows "g_current_process s \<noteq> 0" "process_queue s \<noteq> 0"
proof -
  have chain: "chain (queue_next s) (process_queue s) ps" using assms(1) by (simp add: queued_def)
  have "ps \<noteq> []" "0 < length ps" using assms(2) by auto
  then show "g_current_process s \<noteq> 0" "process_queue s \<noteq> 0"
    using chain_nth [OF chain assms(2)] chain_nth [OF chain, of 0] chain_first [OF chain] assms(3) by simp_all
qed

lemma ticks_above:
  fixes s t :: "'a scheduler_scheme"
  assumes "tty.more t = tty.more s"
  shows "system_ticks t = system_ticks s"
  using assms by (cases s rule: scheduler.cases_scheme, cases t rule: scheduler.cases_scheme) simp

lemma unlock_ticks:
  fixes s t :: "'a scheduler_scheme"
  shows "int_unlock_region l s = Inr t \<Longrightarrow> system_ticks t = system_ticks s"
  by (rule ticks_above [OF unlock_tty_more])

lemma stage1_ticks:
  assumes "scheduler_advance_stage1 ra x s = Inr t" "keeps_context s (g_current_process s)"
  shows "system_ticks t = system_ticks s"
  using assms(1) keeps_context_and [OF assms(2)]
  by (auto simp: scheduler_advance_stage1_def scheduler_find_next_best_def int_lock_region_eq kbind_eq_Inr Let_def
      clock_region upd_process_def upd_thread_def nonnull_def dest!: unlock_ticks split: if_splits)

lemma timer_stubs_append:
  "timer_stubs fuel ra c (xs @ ys) r = kbind (timer_stubs fuel ra c xs r) (timer_stubs fuel ra c ys)"
proof (induction xs arbitrary: r)
  case (Cons x xs)
  show ?case unfolding append_Cons timer_stubs.simps kbind_assoc by (rule kbind_cong) (simp_all add: Cons.IH)
qed simp

section \<open>Properties\<close>

text \<open>C8. A process that never yields is preempted when its quantum is used up, and not before. With a quantum of
  \<open>length xs + 1\<close> and another process on the queue, each of the timer interrupts \<open>xs\<close> goes through the stub, the table
  and the handlers of IRQ 0 and returns to the stack it came from; the interrupt \<open>x\<close> after them saves its context in
  the thread of the process, makes the following process of the queue the current one, and returns with the stack
  pointer saved for that one. Each interrupt counts one tick, and the quantum of the process is 0 in the end.\<close>

theorem quantum_preempts:
  assumes "runs_on a b s" and "int_num c = 32" and "2 < fuel"
    and "queued s ps" and "i < length ps" and "2 \<le> length ps" and "g_current_process s = ps ! i"
    and "p_flags (running s) AND PROC_DEBUG_YIELD = 0" and "keeps_context s (ps ! i)"
    and "unat (p_quantum (running s)) = length xs + 1"
    and "p_thread (processes s (ps ! i)) \<noteq> p_thread (processes s (ps ! (Suc i mod length ps)))"
  shows "(\<forall>ys zs. xs = ys @ zs \<longrightarrow> (\<exists>u. timer_stubs fuel ra c ys (r, s) = Inr (List.last (r # ys), u) \<and>
      g_current_process u = ps ! i)) \<and>
    (\<exists>t. timer_stubs fuel ra c (xs @ [x]) (r, s) =
        Inr (th_context (threads s (p_thread (processes s (ps ! (Suc i mod length ps))))), t) \<and>
      g_current_process t = ps ! (Suc i mod length ps) \<and> queued t ps \<and> \<not> g_switch_processes t \<and>
      th_context (threads t (p_thread (processes t (ps ! i)))) = x \<and> p_quantum (processes t (ps ! i)) = 0 \<and>
      system_ticks t = system_ticks s + of_nat (length xs + 1))"
proof (intro conjI allI impI)
  fix ys zs assume "xs = ys @ zs"
  then have "length ys < unat (p_quantum (running s))" using assms(10) by simp
  then show "\<exists>u. timer_stubs fuel ra c ys (r, s) = Inr (List.last (r # ys), u) \<and> g_current_process u = ps ! i"
    using quantum_lasts [OF assms(1-3,8) _ queued_running [OF assms(4,5,7)], of ys ra r] assms(7) by auto
next
  show "\<exists>t. timer_stubs fuel ra c (xs @ [x]) (r, s) =
        Inr (th_context (threads s (p_thread (processes s (ps ! (Suc i mod length ps))))), t) \<and>
      g_current_process t = ps ! (Suc i mod length ps) \<and> queued t ps \<and> \<not> g_switch_processes t \<and>
      th_context (threads t (p_thread (processes t (ps ! i)))) = x \<and> p_quantum (processes t (ps ! i)) = 0 \<and>
      system_ticks t = system_ticks s + of_nat (length xs + 1)"
  proof -
    let ?p = "ps ! i" and ?n = "ps ! (Suc i mod length ps)"
    have chain: "chain (queue_next s) (process_queue s) ps" using assms(4) by (simp add: queued_def)
    have "ps \<noteq> []" using assms(6) by auto
    then have second: "queue_next s (process_queue s) \<noteq> 0"
      using chain_nth [OF chain, of 0] chain_nth [OF chain, of 1] chain_first [OF chain] assms(6) by auto
    have "length xs < unat (p_quantum (running s))" using assms(10) by simp
    from quantum_lasts [OF assms(1-3,8) this queued_running [OF assms(4,5,7)], of ra r] obtain u where
      u: "timer_stubs fuel ra c xs (r, s) = Inr (List.last (r # xs), u)" "runs_on a b u"
        "system_ticks u = system_ticks s + of_nat (length xs)" "g_current_process u = ?p"
        "process_queue u = process_queue s" "threads u = threads s"
        "processes u = (processes s)(?p := charged (length xs) (running s))" by (auto simp: assms(7))
    have on: "g_current_process u \<noteq> 0" "process_queue u \<noteq> 0"
      using queued_running [OF assms(4,5,7)] assms(7) by (simp_all add: u(4,5))
    obtain v where v: "int_handler_stub fuel 0 ra x c u = interrupt_exit ra x v"
        "g_preemption_enabled v" "system_ticks v = system_ticks u + 1" "g_current_process v = ?p"
        "process_queue v = process_queue s" "threads v = threads s"
        "processes v = (processes s)(?p := charged 1 (charged (length xs) (running s)))"
        "g_switch_processes v \<longleftrightarrow> wants_switch (running u) \<and> queue_next u (process_queue u) \<noteq> 0"
      by (rule tick_through_stub [OF u(2) assms(2,3) on, of 0 ra x]) (simp add: u(4-7))
    have len: "unat (of_nat (length xs) :: u32) = length xs"
      using assms(10) unat_lt_2p [of "p_quantum (running s)"] by (simp add: unat_of_nat)
    then have "unat (p_quantum (running s) - of_nat (length xs)) = 1"
      using assms(10) by (subst u32_sub_no_wrap) simp_all
    then have left: "p_quantum (running s) - of_nat (length xs) = 1" by (simp add: word_unat_eq_iff)
    have next_v: "queue_next v = queue_next s" and next_u: "queue_next u = queue_next s"
      using assms(7) by (auto simp: v(7) u(7))
    have sw: "g_switch_processes v"
      using left second fun_cong [OF next_u] by (simp add: v(8) u(4,5,7) wants_switch_def)
    have queue: "queued v ps" using chain v(5) next_v by (simp add: queued_def)
    have nxt: "next_process v = ?n" by (rule next_process_nth [OF queue assms(5) v(4)])
    have "keeps_context v ?p" using assms(7,9) by (simp add: keeps_context_def v(7))
    moreover have "g_current_process v \<noteq> 0" using chain_nth [OF chain assms(5)] by (simp add: v(4))
    ultimately obtain w where w: "scheduler_advance_stage1 ra x v = Inr w" "g_current_process w = ?n"
        "process_queue w = process_queue s" "system_ticks w = system_ticks v"
        "processes w = (processes v)(?p := (processes v ?p)\<lparr>p_flags := p_flags (processes v ?p) AND NOT PROC_DEBUG_YIELD\<rparr>)"
        "threads w = (threads v)(p_thread (processes v ?p) := (threads v (p_thread (processes v ?p)))\<lparr>th_context := x\<rparr>)"
      using stage1_step [of v ra x] stage1_ticks [of ra x v] v(4,5) nxt by metis
    have thr: "p_thread (processes w q) = p_thread (processes s q)" for q using assms(7) by (simp add: w(5) v(7))
    have "queue_next w = queue_next s" using next_v by (auto simp: w(5) fun_eq_iff)
    then have "queued (w\<lparr>g_switch_processes := False\<rparr>) ps" using chain w(3) by (simp add: queued_def)
    moreover have "timer_stubs fuel ra c (xs @ [x]) (r, s) =
        Inr (th_context (threads w (p_thread (processes w ?n))), w\<lparr>g_switch_processes := False\<rparr>)"
      using v(2) sw by (simp add: timer_stubs_append u(1) v(1) interrupt_exit_def w(1,2))
    moreover have "p_thread (processes v ?p) = p_thread (processes s ?p)" using assms(7) by (simp add: v(7))
    moreover have "p_quantum (processes w ?p) = 0" using left assms(7) by (simp add: w(5) v(7) algebra_simps)
    ultimately show ?thesis
      using assms(11) w(2,4) v(3) u(3) by (simp add: thr) (simp add: w(6) v(6))
  qed
qed

text \<open>A handler that ended in \<open>t\<close>, without a switch being asked for since: the stub returns to the stack it came from.\<close>

definition stub_returns :: "u32 \<Rightarrow> u32 \<Rightarrow> 'a scheduler_scheme \<Rightarrow> 'a scheduler_scheme \<Rightarrow>
    (u32 \<times> 'a scheduler_scheme) kres \<Rightarrow> bool" where
  "stub_returns ra x s t r \<longleftrightarrow> r = interrupt_exit ra x t \<and> (\<not> g_switch_processes s \<longrightarrow> r = Inr (x, t))"

lemma displayed_returns:
  fixes s t :: "'a scheduler_scheme"
  assumes "tty.more t = tty.more s"
  shows "stub_returns ra x s t (interrupt_exit ra x t)"
proof -
  have "g_switch_processes t = g_switch_processes s"
    using assms by (cases s rule: scheduler.cases_scheme, cases t rule: scheduler.cases_scheme) simp
  then show ?thesis by (simp add: stub_returns_def interrupt_exit_def)
qed

text \<open>C9. Exceptions and system calls, from the vector to the end of the stub. An exception of the processor never
  returns: the kernel panics with its number, the message for it and all registers, and for a page fault with the
  faulting address. The system call prints its number, and call 1 also the string at \<open>ecx\<close> with a line feed; then the stub
  returns to the stack it came from, unless a switch was already asked for, and nothing above the terminal has
  changed. But a null pointer in \<open>ecx\<close> is a failed assertion of the kernel, and a string that runs into a page that is not
  mapped is a page fault in the kernel, at the first byte that cannot be read.\<close>

theorem exceptions_panic_syscalls_print:
  fixes s :: "'a scheduler_scheme"
  assumes "vectors_ready s" and "tty_inv s"
  shows "(int_num c < 32 \<and> int_num c \<noteq> 14 \<longrightarrow> int_handler_stub fuel cr2 ra x c s = Inl (Panic (exception_text c))) \<and>
    (int_num c = 14 \<longrightarrow> int_handler_stub fuel cr2 ra x c s = Inl (Panic (page_fault_text cr2 c))) \<and>
    (int_num c = 48 \<and> eax c \<noteq> 1 \<longrightarrow> (\<exists>t. stub_returns ra x s t (int_handler_stub fuel cr2 ra x c s) \<and>
      displayed (syscall_text (eax c)) False s t)) \<and>
    (int_num c = 48 \<and> eax c = 1 \<and> ecx c = 0 \<longrightarrow>
      int_handler_stub fuel cr2 ra x c s = Inl (Panic ''KASSERT failed: str != NULL'')) \<and>
    (\<forall>str. int_num c = 48 \<and> eax c = 1 \<and> ecx c \<noteq> 0 \<and> prefix_at s (ecx c) str \<and> length str < fuel \<longrightarrow>
      (read8 (ecx c + of_nat (length str)) s = Inr 0 \<longrightarrow>
        (\<exists>u t. stub_returns ra x s t (int_handler_stub fuel cr2 ra x c s) \<and>
          displayed (syscall_text 1) False s u \<and> displayed str True u t)) \<and>
      (\<forall>va. read8 (ecx c + of_nat (length str)) s = Inl (Page_Fault va) \<longrightarrow>
        int_handler_stub fuel cr2 ra x c s = Inl (Page_Fault va)))"
proof -
  have exc: "int_handler_stub fuel cr2 ra x c s = Inl (Panic (exception_text c))" if c: "int_num c < 32" "int_num c \<noteq> 14"
  proof -
    have "unat (int_num c) < 32" using c by (simp add: word_less_nat_alt)
    then have "default_handler (unat (int_num c)) = Unexpected_Int" by (simp add: default_handler_def int_consts)
    moreover have "int_num c < 49" using c by (simp add: word_less_nat_alt)
    ultimately show ?thesis
      using c(2) stub_call [OF assms(1), of c] by (simp add: call_handler_def unexpected_panics [OF c(1)])
  qed
  have pf: "int_handler_stub fuel cr2 ra x c s = Inl (Panic (page_fault_text cr2 c))" if "int_num c = 14"
    using stub_call [OF assms(1), of c] that by (simp add: call_handler_def page_fault_panics)
  obtain u where u: "displayed (syscall_text (eax c)) False s u" "syscall_int_handler fuel c s = syscall_body fuel c s u"
    using syscall_runs [OF assms(2), of c fuel] by blast
  have sys: "int_handler_stub fuel cr2 ra x c s = kbind (syscall_body fuel c s u) (interrupt_exit ra x)" if "int_num c = 48"
    using stub_call [OF assms(1), of c] that u(2) by (simp add: default_handler_def int_consts call_handler_def)
  have other: "\<exists>t. stub_returns ra x s t (int_handler_stub fuel cr2 ra x c s) \<and> displayed (syscall_text (eax c)) False s t"
    if "int_num c = 48" "eax c \<noteq> 1"
    using u(1) displayed_returns [of u s ra x] that by (auto simp: sys displayed_def syscall_body_def)
  have prints: "\<exists>u t. stub_returns ra x s t (int_handler_stub fuel cr2 ra x c s) \<and>
      displayed (syscall_text 1) False s u \<and> displayed str True u t"
    if c: "int_num c = 48" "eax c = 1" "ecx c \<noteq> 0" "prefix_at s (ecx c) str" "length str < fuel"
      "read8 (ecx c + of_nat (length str)) s = Inr 0" for str
  proof -
    have "tty_inv u" using u(1) by (simp add: displayed_def)
    from syscall_string [OF this c(2-6)] obtain t where t: "syscall_body fuel c s u = Inr t" "displayed str True u t" by blast
    then have "tty.more t = tty.more s" using u(1) by (simp add: displayed_def)
    from displayed_returns [OF this, of ra x] show ?thesis using t u(1) by (auto simp: sys [OF c(1)] c(2))
  qed
  have null: "int_handler_stub fuel cr2 ra x c s = Inl (Panic ''KASSERT failed: str != NULL'')"
    if "int_num c = 48" "eax c = 1" "ecx c = 0"
    using that by (simp add: sys syscall_null)
  have fault: "int_handler_stub fuel cr2 ra x c s = Inl (Page_Fault va)"
    if c: "int_num c = 48" "eax c = 1" "ecx c \<noteq> 0" "prefix_at s (ecx c) str" "length str < fuel"
      "read8 (ecx c + of_nat (length str)) s = Inl (Page_Fault va)" for str va
    by (simp add: sys [OF c(1)] syscall_fault [OF c(2-6)])
  show ?thesis using exc pf other null prints fault by blast
qed

text \<open>C32. \<open>printf\<close> all the way to the screen: a format made of plain text and conversions shows the texts of its
  pieces one after the other at the cursor, up to the first NUL, and returns their number of characters, if with
  the closing NUL they fit the 512 bytes of the buffer of \<open>vprintf\<close>; otherwise it writes behind the end of that buffer.\<close>

theorem printf_displays:
  fixes xs :: "piece list"
  defines "shown \<equiv> concat (map piece_text xs)"
  assumes "list_all piece_ok xs" and "tty_inv s"
  shows "if length shown < 512
    then \<exists>t. tty_printf (concat (map piece_format xs)) (concat (map piece_args xs)) s = Inr (length (cstring_of shown), t) \<and>
      displayed shown False s t
    else \<exists>msg. tty_printf (concat (map piece_format xs)) (concat (map piece_args xs)) s = Inl (Undefined msg)"
proof -
  have "vsprintf_text (concat (map piece_format xs)) (concat (map piece_args xs)) = Inr shown"
    using vsprintf_text_pieces [OF assms(2)] by (simp add: shown_def)
  then have buf: "vprintf_buf (concat (map piece_format xs)) (concat (map piece_args xs)) =
      (if length shown < 512 then Inr (shown @ [CHR 0x00]) else Inl (Undefined ''vprintf: buf[BUF_LEN] overrun''))"
    by (simp add: vprintf_buf_def vsprintf_def BUF_LEN_def)
  show ?thesis
  proof (cases "length shown < 512")
    case True
    then show ?thesis using tty_printf_displays [OF assms(3), of _ _ "shown @ [CHR 0x00]"] buf
      by (simp add: displayed_NUL cstring_of_NUL)
  qed (simp add: buf tty_printf_def vprintf_def)
qed

section \<open>Examples\<close>

definition entry_zero :: scheduler where
  "entry_zero = clock_two\<lparr>tty_row := 0, tty_col := 0, g_int_handler_table :=
     (map (\<lambda>i. Some (default_handler i)) [0..<INT_NUM_INTERRUPTS])[14 := Some Page_Fault_Int],
     processes := (processes clock_two)(0x10 := (processes clock_two 0x10)\<lparr>p_thread := 0x80\<rparr>)\<rparr>"

definition context_zero :: thread_context where
  "context_zero = \<lparr>gs = 0x10, fs = 0x10, es = 0x10, ds = 0x10, edi = 0, esi = 0, ebp = 0, esp = 0, ebx = 0, edx = 0,
    ecx = 0, eax = 0, int_num = 32, error_code = 0, eip = 0, cs = 8, eflags = 0x202, user_esp = 0, user_ss = 0\<rparr>"

lemma entry_zero_sel:
  "vectors_ready entry_zero" "tty_inv entry_zero" "g_current_process entry_zero = 0x10" "process_queue entry_zero = 0x10"
  "\<not> g_switch_processes entry_zero" "g_preemption_enabled entry_zero"
  "processes entry_zero = (\<lambda>_. zero_process)(0x10 := zero_process\<lparr>p_next := 0x20, p_quantum := 2, p_thread := 0x80\<rparr>)"
  "clock_ready entry_zero 0x40 0x50" "th_context (threads entry_zero p) = 0" "int_num context_zero = 32"
  by (simp_all add: context_zero_def)
    (simp_all add: entry_zero_def vectors_ready_def tty_inv_def VGA_WIDTH_def VGA_HEIGHT_def clock_two_def clock_ready_def irq_list_def IRQ_PIT_def sched_zero_def timer.defs)

theorem quantum_preempts_witness:
  "\<exists>t. timer_stubs 3 0 context_zero [0xC0005000, 0xC0005100] (0, entry_zero) = Inr (0, t) \<and> g_current_process t = 0x20"
proof -
  have "runs_on 0x40 0x50 entry_zero" by (simp add: runs_on_def entry_zero_sel)
  moreover have "queued entry_zero [0x10, 0x20]" by (simp add: queued_def entry_zero_sel zero_process_def)
  ultimately show ?thesis
    using quantum_preempts [of "0x40" "0x50" entry_zero context_zero 3 "[0x10, 0x20]" 0 "[0xC0005000]" 0 0 "0xC0005100"]
    by (auto simp: entry_zero_sel keeps_context_def zero_process_def simp del: timer_stubs.simps)
qed

text \<open>The page at \<open>0x400000\<close> is mapped, the one behind it is not: the string in its first bytes is printed, the one
  that begins with its last byte is not.\<close>

definition entry_user :: scheduler where
  "entry_user = entry_zero\<lparr>cr3 := 1, pmem := (\<lambda>_ _. 0)(1 := (\<lambda>_. 0)(1 := 0x2007), 2 := (\<lambda>_. 0)(0 := 0x3007),
     3 := (\<lambda>_. 0)(0 := 0x006968, 1023 := 0x21000000))\<rparr>"

lemma entry_user_sel:
  "vectors_ready entry_user" "tty_inv entry_user" "\<not> g_switch_processes entry_user"
  "prefix_at entry_user 0x400000 ''hi''" "read8 0x400002 entry_user = Inr 0"
  "prefix_at entry_user 0x400FFF ''!''" "read8 0x401000 entry_user = Inl (Page_Fault 0x401000)"
  using entry_zero_sel(1,2,5)
  by (simp_all add: entry_user_def vectors_ready_def tty_inv_def prefix_at_Cons
      read8_def translate_def pd_index_def pt_index_def word_index_def frame_of_def)

theorem exceptions_panic_syscalls_print_witness:
  "(\<exists>t u. int_handler_stub 3 0 0 0xC0005000 (context_zero\<lparr>int_num := 48, eax := 1, ecx := 0x400000\<rparr>) entry_user =
      Inr (0xC0005000, t) \<and> displayed (syscall_text 1) False entry_user u \<and> displayed ''hi'' True u t) \<and>
   int_handler_stub 3 0 0 0xC0005000 (context_zero\<lparr>int_num := 48, eax := 1, ecx := 0x400FFF\<rparr>) entry_user =
     Inl (Page_Fault 0x401000) \<and>
   int_handler_stub 3 0 0 0xC0005000 (context_zero\<lparr>int_num := 48, eax := 1\<rparr>) entry_user =
     Inl (Panic ''KASSERT failed: str != NULL'')"
proof -
  note p = exceptions_panic_syscalls_print [OF entry_user_sel(1,2), where ?fuel = 3 and ?cr2.0 = 0 and ra = 0 and x = "0xC0005000"]
  have "\<exists>u t. stub_returns 0 0xC0005000 entry_user t (int_handler_stub 3 0 0 0xC0005000 (context_zero\<lparr>int_num := 48, eax := 1, ecx := 0x400000\<rparr>) entry_user) \<and>
      displayed (syscall_text 1) False entry_user u \<and> displayed ''hi'' True u t"
    using p [of "context_zero\<lparr>int_num := 48, eax := 1, ecx := 0x400000\<rparr>"] entry_user_sel(4,5)
    by (elim conjE allE [of _ "''hi''"]) simp
  moreover have "int_handler_stub 3 0 0 0xC0005000 (context_zero\<lparr>int_num := 48, eax := 1, ecx := 0x400FFF\<rparr>) entry_user =
      Inl (Page_Fault 0x401000)"
    using p [of "context_zero\<lparr>int_num := 48, eax := 1, ecx := 0x400FFF\<rparr>"] entry_user_sel(6,7)
    by (elim conjE allE [of _ "''!''"]) simp
  moreover have "int_handler_stub 3 0 0 0xC0005000 (context_zero\<lparr>int_num := 48, eax := 1\<rparr>) entry_user =
      Inl (Panic ''KASSERT failed: str != NULL'')"
    using p [of "context_zero\<lparr>int_num := 48, eax := 1\<rparr>"] by (simp add: context_zero_def)
  ultimately show ?thesis using entry_user_sel(3) by (auto simp: stub_returns_def)
qed

theorem printf_displays_witness:
  "(\<exists>t. tty_printf ''n=%d s=%s'' [VInt 7, VStr ''ok''] entry_zero = Inr (8, t) \<and> displayed ''n=7 s=ok'' False entry_zero t) \<and>
   (\<exists>msg. tty_printf ''%s'' [VStr (replicate 512 CHR ''x'')] entry_zero = Inl (Undefined msg))"
proof -
  have "dec_text 7 = ''7''" by code_simp
  then show ?thesis
    using printf_displays [OF _ entry_zero_sel(2), of "[Plain ''n='', Signed 7, Plain '' s='', Str ''ok'']"]
      printf_displays [OF _ entry_zero_sel(2), of "[Str (replicate 512 CHR ''x'')]"]
    by (auto simp: piece_ok_def piece_format_def piece_args_def piece_text_def cstring_of_Cons cstring_of_def)
qed

end
