(* ===== verification/CString.thy ===== *)
theory CString
  imports Prelude "HOL-Library.List_Lexorder"
begin

text \<open>
  \<open>klibc/string\<close>: the memory and string routines of the kernel's C library, over a byte memory
  addressed by 32-bit pointers (pointer arithmetic wraps). Loops that count are structural
  recursions on the count; loops that search for a terminating NUL are \<open>partial_function\<close>s,
  so "does not return" is \<open>None\<close>. A returned pointer or \<open>int\<close> is a component of the result.
\<close>

type_synonym mem = "u32 \<Rightarrow> u8"

section \<open>Counted loops\<close>

primrec memcpy_loop :: "nat \<Rightarrow> u32 \<Rightarrow> u32 \<Rightarrow> mem \<Rightarrow> mem" where
  "memcpy_loop 0 destc srcc m = m"
| "memcpy_loop (Suc num) destc srcc m =
     memcpy_loop num (destc + 1) (srcc + 1) (m(destc := m srcc))"

definition memcpy :: "u32 \<Rightarrow> u32 \<Rightarrow> u32 \<Rightarrow> mem \<Rightarrow> u32 \<times> mem" where
  "memcpy dest src num m = (dest, memcpy_loop (unat num) dest src m)"

text \<open>The two loops of \<open>memmove\<close>; the second is \<open>for (i = 0; i != 0; i++)\<close>.\<close>

primrec memmove_forward :: "nat \<Rightarrow> u32 \<Rightarrow> u32 \<Rightarrow> u32 \<Rightarrow> mem \<Rightarrow> mem" where
  "memmove_forward 0 i destc srcc m = m"
| "memmove_forward (Suc n) i destc srcc m =
     memmove_forward n (i + 1) destc srcc (m(destc + i := m (srcc + i)))"

function memmove_backward :: "u32 \<Rightarrow> u32 \<Rightarrow> u32 \<Rightarrow> mem \<Rightarrow> mem" where
  "memmove_backward i destc srcc m =
     (if i \<noteq> 0
      then memmove_backward (i + 1) destc srcc (m(destc + (i - 1) := m (srcc + (i - 1))))
      else m)"
  by pat_completeness auto
termination
proof (relation "measure (\<lambda>(i, _, _, _). if i = 0 then 0 else 4294967296 - unat i)", simp)
  fix i destc srcc :: u32 and m :: mem
  assume "i \<noteq> 0"
  have "unat i < 4294967296" by (rule unat_lt_2p)
  moreover have "unat (i + 1) = Suc (unat i)" if "i + 1 \<noteq> 0"
    using that unatSuc [of i] by (simp add: add.commute)
  ultimately show "((i + 1, destc, srcc, m(destc + (i - 1) := m (srcc + (i - 1)))), i, destc, srcc, m)
      \<in> measure (\<lambda>(i, _, _, _). if i = 0 then 0 else 4294967296 - unat i)"
    using \<open>i \<noteq> 0\<close> by auto
qed

declare memmove_backward.simps [simp del]

definition memmove :: "u32 \<Rightarrow> u32 \<Rightarrow> u32 \<Rightarrow> mem \<Rightarrow> u32 \<times> mem" where
  "memmove dest src sz m =
     (if dest < src then (dest, memmove_forward (unat sz) 0 dest src m)
      else (dest, memmove_backward 0 dest src m))"

primrec memset_loop :: "nat \<Rightarrow> u32 \<Rightarrow> u32 \<Rightarrow> mem \<Rightarrow> mem" where
  "memset_loop 0 buf value m = m"
| "memset_loop (Suc num) buf value m = memset_loop num (buf + 1) value (m(buf := ucast value))"

definition memset :: "u32 \<Rightarrow> u32 \<Rightarrow> u32 \<Rightarrow> mem \<Rightarrow> u32 \<times> mem" where
  "memset dest value num m = (dest, memset_loop (unat num) dest value m)"

text \<open>The source's local \<open>ptr1c\<close> is initialised from \<open>ptr2\<close> and \<open>ptr2c\<close> from \<open>ptr1\<close>.\<close>

primrec memcmp_loop :: "nat \<Rightarrow> u32 \<Rightarrow> u32 \<Rightarrow> mem \<Rightarrow> int" where
  "memcmp_loop 0 ptr1c ptr2c m = 0"
| "memcmp_loop (Suc num) ptr1c ptr2c m =
     (if m ptr1c \<noteq> m ptr2c then uint (m ptr1c) - uint (m ptr2c)
      else memcmp_loop num (ptr1c + 1) (ptr2c + 1) m)"

definition memcmp :: "u32 \<Rightarrow> u32 \<Rightarrow> u32 \<Rightarrow> mem \<Rightarrow> int" where
  "memcmp ptr1 ptr2 num m = memcmp_loop (unat num) ptr2 ptr1 m"

primrec strncpy_loop :: "nat \<Rightarrow> u32 \<Rightarrow> u32 \<Rightarrow> mem \<Rightarrow> u32 \<times> mem" where
  "strncpy_loop 0 dest src m = (dest, m)"
| "strncpy_loop (Suc num) dest src m =
     strncpy_loop num (dest + 1) (src + 1) (m(dest := m src))"

definition strncpy :: "u32 \<Rightarrow> u32 \<Rightarrow> u32 \<Rightarrow> mem \<Rightarrow> u32 \<times> mem" where
  "strncpy dest src num m = strncpy_loop (unat num) dest src m"

section \<open>Loops that run to the terminating NUL\<close>

partial_function (option) strlen_scan :: "mem \<Rightarrow> u32 \<Rightarrow> u32 option" where
  "strlen_scan m tmp = (if m tmp \<noteq> 0 then strlen_scan m (tmp + 1) else Some tmp)"

definition strlen :: "u32 \<Rightarrow> mem \<Rightarrow> u32 option" where
  "strlen str m = map_option (\<lambda>tmp. tmp - str) (strlen_scan m str)"

partial_function (option) strcmp :: "u32 \<Rightarrow> u32 \<Rightarrow> mem \<Rightarrow> int option" where
  "strcmp str1 str2 m =
     (if m str1 \<noteq> 0 \<and> m str1 = m str2 then strcmp (str1 + 1) (str2 + 1) m
      else Some (uint (m str1) - uint (m str2)))"

partial_function (option) strcpy :: "u32 \<Rightarrow> u32 \<Rightarrow> mem \<Rightarrow> (u32 \<times> mem) option" where
  "strcpy dest src m =
     (if m src \<noteq> 0 then strcpy (dest + 1) (src + 1) (m(dest := m src))
      else Some (dest + 1, m(dest := m src)))"

text \<open>\<open>while (*dest++);\<close> leaves \<open>dest\<close> one past the byte that stopped it.\<close>

partial_function (option) strcat_skip :: "mem \<Rightarrow> u32 \<Rightarrow> u32 option" where
  "strcat_skip m dest = (if m dest \<noteq> 0 then strcat_skip m (dest + 1) else Some (dest + 1))"

definition strcat :: "u32 \<Rightarrow> u32 \<Rightarrow> mem \<Rightarrow> (u32 \<times> mem) option" where
  "strcat dest src m = Option.bind (strcat_skip m dest) (\<lambda>dest'. strcpy dest' src m)"

section \<open>What the routines are about: byte ranges and C strings\<close>

primrec bytes_at :: "mem \<Rightarrow> u32 \<Rightarrow> nat \<Rightarrow> u8 list" where
  "bytes_at m p 0 = []"
| "bytes_at m p (Suc n) = m p # bytes_at m (p + 1) n"

fun cstr_at :: "mem \<Rightarrow> u32 \<Rightarrow> u8 list \<Rightarrow> bool" where
  "cstr_at m p [] \<longleftrightarrow> m p = 0"
| "cstr_at m p (b # bs) \<longleftrightarrow> m p = b \<and> b \<noteq> 0 \<and> cstr_at m (p + 1) bs"

definition addrs :: "u32 \<Rightarrow> nat \<Rightarrow> u32 set" where
  "addrs p n = (\<lambda>i. p + of_nat i) ` {..<n}"

lemma addrs_0 [simp]: "addrs p 0 = {}"
  by (simp add: addrs_def)

lemma addrs_Suc: "addrs p (Suc n) = insert p (addrs (p + 1) n)"
proof -
  have "{..<Suc n} = insert 0 (Suc ` {..<n})"
    by (simp add: lessThan_Suc_eq_insert_0)
  then show ?thesis
    by (simp add: addrs_def image_image add.assoc)
qed

lemma addrs_numeral [simp]: "addrs p (numeral k) = insert p (addrs (p + 1) (pred_numeral k))"
  by (simp add: numeral_eq_Suc addrs_Suc)

lemma addrs_1 [simp]: "addrs p (Suc 0) = {p}"
  by (simp add: addrs_Suc)

lemma addrs_iff: "q \<in> addrs p n \<longleftrightarrow> (if n < 4294967296 then unat (q - p) < n else True)"
proof (cases "n < 4294967296")
  case True
  have "q = p + of_nat (unat (q - p))" by simp
  then have "unat (q - p) < n \<Longrightarrow> q \<in> addrs p n"
    unfolding addrs_def by (metis imageI lessThan_iff)
  moreover have "unat (q - p) < n" if "q \<in> addrs p n"
    using that True by (auto simp: addrs_def unat_of_nat_u32)
  ultimately show ?thesis using True by auto
next
  case False
  have "q = p + of_nat (unat (q - p))" by simp
  moreover have "unat (q - p) < n"
    using False unat_lt_2p [of "q - p"] by linarith
  ultimately have "q \<in> addrs p n"
    unfolding addrs_def by (metis imageI lessThan_iff)
  then show ?thesis using False by simp
qed

lemma start_notin_addrs: "Suc n \<le> 4294967296 \<Longrightarrow> p \<notin> addrs (p + 1) n"
proof -
  assume "Suc n \<le> 4294967296"
  moreover have e: "p - (p + 1) = 4294967295" by simp
  have "unat (p - (p + 1)) = 4294967295" unfolding e by simp
  ultimately show ?thesis by (simp add: addrs_iff)
qed

lemma length_bytes_at [simp]: "length (bytes_at m p n) = n"
  by (induction n arbitrary: p) auto

lemma bytes_at_cong: "(\<And>a. a \<in> addrs p n \<Longrightarrow> m a = m' a) \<Longrightarrow> bytes_at m p n = bytes_at m' p n"
  by (induction n arbitrary: p) (auto simp: addrs_Suc)

lemma cstr_at_cong:
  "(\<And>a. a \<in> addrs p (Suc (length bs)) \<Longrightarrow> m a = m' a) \<Longrightarrow> cstr_at m p bs = cstr_at m' p bs"
proof (induction bs arbitrary: p)
  case (Cons b bs)
  from Cons.prems [of p] have "m p = m' p" by (simp add: addrs_Suc)
  moreover have "cstr_at m (p + 1) bs = cstr_at m' (p + 1) bs"
    by (rule Cons.IH, rule Cons.prems) (subst addrs_Suc, simp)
  ultimately show ?case by simp
qed (simp add: addrs_Suc)

lemma cstr_at_functional: "cstr_at m p xs \<Longrightarrow> cstr_at m p ys \<Longrightarrow> xs = ys"
proof (induction xs arbitrary: p ys)
  case Nil
  then show ?case by (cases ys) auto
next
  case (Cons x xs)
  then show ?case by (cases ys) auto
qed

lemma cstr_at_end: "cstr_at m p bs \<Longrightarrow> m (p + of_nat (length bs)) = 0"
proof (induction bs arbitrary: p)
  case (Cons b bs)
  then have "m (p + 1 + of_nat (length bs)) = 0" by simp
  then show ?case by (simp add: add.assoc)
qed simp

section \<open>Frames: what each loop leaves alone\<close>

lemma memcpy_loop_frame: "a \<notin> addrs d n \<Longrightarrow> memcpy_loop n d s m a = m a"
  by (induction n arbitrary: d s m) (auto simp: addrs_Suc)

lemma memset_loop_frame: "a \<notin> addrs p n \<Longrightarrow> memset_loop n p v m a = m a"
  by (induction n arbitrary: p m) (auto simp: addrs_Suc)

lemma strncpy_loop_frame: "a \<notin> addrs d n \<Longrightarrow> snd (strncpy_loop n d s m) a = m a"
  by (induction n arbitrary: d s m) (auto simp: addrs_Suc)

lemma strncpy_loop_eq: "strncpy_loop n d s m = (d + of_nat n, memcpy_loop n d s m)"
  by (induction n arbitrary: d s m) (auto simp: add.assoc)

section \<open>Counted loops: correctness\<close>

lemma memset_loop_bytes:
  "n \<le> 4294967296 \<Longrightarrow> bytes_at (memset_loop n p v m) p n = replicate n (ucast v)"
proof (induction n arbitrary: p m)
  case (Suc n)
  then have "p \<notin> addrs (p + 1) n" by (intro start_notin_addrs) simp
  with Suc show ?case by (simp add: memset_loop_frame)
qed simp

lemma memmove_forward_eq_memcpy:
  "memmove_forward n i d s m = memcpy_loop n (d + i) (s + i) m"
  by (induction n arbitrary: i m) (auto simp: add.assoc)

text \<open>
  Copying upwards is right even when the ranges overlap, as long as the destination does not
  start inside the source range: every byte is read before the loop overwrites it.
\<close>

lemma memcpy_loop_bytes:
  "n \<le> 4294967296 \<Longrightarrow> d \<notin> addrs s n \<Longrightarrow> bytes_at (memcpy_loop n d s m) d n = bytes_at m s n"
proof (induction n arbitrary: d s m)
  case (Suc n)
  let ?m = "m(d := m s)"
  have fresh: "d \<notin> addrs (d + 1) n" using Suc.prems(1) by (intro start_notin_addrs) simp
  have "d + 1 \<notin> addrs (s + 1) n"
    using Suc.prems(2) by (auto simp: addrs_def)
  then have "bytes_at (memcpy_loop n (d + 1) (s + 1) ?m) (d + 1) n = bytes_at ?m (s + 1) n"
    using Suc by simp
  also have "\<dots> = bytes_at m (s + 1) n"
    using Suc.prems(2) by (intro bytes_at_cong) (auto simp: addrs_Suc)
  finally show ?case using fresh by (simp add: memcpy_loop_frame)
qed simp

lemma below_notin_addrs: "d < s \<Longrightarrow> unat s + n \<le> 4294967296 \<Longrightarrow> d \<notin> addrs s n"
proof
  assume "d < s" "unat s + n \<le> 4294967296" "d \<in> addrs s n"
  then obtain i where i: "i < n" "d = s + of_nat i" by (auto simp: addrs_def)
  with \<open>unat s + n \<le> _\<close> have "unat d = unat s + i"
    by (simp add: u32_add_no_wrap unat_of_nat_u32)
  with \<open>d < s\<close> show False by (simp add: word_less_nat_alt)
qed

lemma memcmp_loop_zero: "memcmp_loop n p q m = 0 \<longleftrightarrow> bytes_at m p n = bytes_at m q n"
  by (induction n arbitrary: p q) (auto simp: word_uint_eq_iff)

lemma memcmp_loop_less: "memcmp_loop n p q m < 0 \<longleftrightarrow> bytes_at m p n < bytes_at m q n"
  by (induction n arbitrary: p q) (auto simp: word_less_def word_uint_eq_iff)

section \<open>Searching loops: termination and correctness\<close>

lemma strlen_scan_cstr: "cstr_at m p bs \<Longrightarrow> strlen_scan m p = Some (p + of_nat (length bs))"
proof (induction bs arbitrary: p)
  case Nil
  then show ?case by (simp add: strlen_scan.simps)
next
  case (Cons b bs)
  then show ?case by (subst strlen_scan.simps) (auto simp: add.assoc)
qed

lemma strcat_skip_cstr: "cstr_at m p bs \<Longrightarrow> strcat_skip m p = Some (p + of_nat (length bs) + 1)"
proof (induction bs arbitrary: p)
  case Nil
  then show ?case by (simp add: strcat_skip.simps)
next
  case (Cons b bs)
  then show ?case by (subst strcat_skip.simps) (auto simp: add_ac)
qed

text \<open>\<open>strcpy\<close> is \<open>memcpy\<close> of the string and its NUL, when the NUL is not overwritten first.\<close>

lemma strcpy_cstr:
  "cstr_at m s bs \<Longrightarrow> Suc (length bs) \<le> 4294967296 \<Longrightarrow> d \<notin> addrs s (Suc (length bs)) \<Longrightarrow>
   strcpy d s m = Some (d + of_nat (Suc (length bs)), memcpy_loop (Suc (length bs)) d s m)"
proof (induction bs arbitrary: d s m)
  case Nil
  then show ?case by (subst strcpy.simps) (simp add: fun_upd_def)
next
  case (Cons b bs)
  let ?m = "m(d := m s)"
  have shift: "d + 1 \<notin> addrs (s + 1) (Suc (length bs))"
    using Cons.prems(3) by (auto simp: addrs_def)
  have "cstr_at ?m (s + 1) bs \<longleftrightarrow> cstr_at m (s + 1) bs"
    using Cons.prems(3) by (intro cstr_at_cong) (auto simp: addrs_Suc)
  with Cons.prems(1) have c: "cstr_at ?m (s + 1) bs" by simp
  have "strcpy (d + 1) (s + 1) ?m =
      Some (d + 1 + of_nat (Suc (length bs)), memcpy_loop (Suc (length bs)) (d + 1) (s + 1) ?m)"
    using Cons.prems(2) by (intro Cons.IH [OF c _ shift]) simp
  then show ?case
    using Cons.prems by (subst strcpy.simps) (auto simp: add_ac)
qed

lemma bytes_at_cstr: "bytes_at m p (Suc (length bs)) = bs @ [0] \<Longrightarrow> 0 \<notin> set bs \<Longrightarrow> cstr_at m p bs"
proof (induction bs arbitrary: p)
  case (Cons b bs)
  then have "bytes_at m (p + 1) (Suc (length bs)) = bs @ [0]" by simp
  with Cons show ?case by simp
qed simp

lemma cstr_bytes_at: "cstr_at m p bs \<Longrightarrow> bytes_at m p (Suc (length bs)) = bs @ [0] \<and> 0 \<notin> set bs"
proof (induction bs arbitrary: p)
  case (Cons b bs)
  then have "bytes_at m (p + 1) (Suc (length bs)) = bs @ [0] \<and> 0 \<notin> set bs"
    by (meson cstr_at.simps(2))
  with Cons.prems show ?case by simp
qed simp

lemma strcmp_cstr:
  "cstr_at m p xs \<Longrightarrow> cstr_at m q ys \<Longrightarrow>
   \<exists>r. strcmp p q m = Some r \<and> (r = 0 \<longleftrightarrow> xs = ys) \<and> (r < 0 \<longleftrightarrow> xs < ys)"
proof (induction xs arbitrary: p q ys)
  case Nil
  then show ?case
    by (cases ys) (auto simp: strcmp.simps word_less_def word_uint_eq_iff order_less_le)
next
  case (Cons x xs)
  show ?case
  proof (cases ys)
    case Nil
    with Cons.prems show ?thesis
      by (auto simp: strcmp.simps word_less_def word_uint_eq_iff)
  next
    case (Cons y ys')
    show ?thesis
    proof (cases "x = y")
      case True
      with Cons.prems Cons Cons.IH [of "p + 1" "q + 1" ys'] show ?thesis
        by (subst strcmp.simps) auto
    next
      case False
      with Cons.prems Cons show ?thesis
        by (subst strcmp.simps) (auto simp: word_less_def word_uint_eq_iff)
    qed
  qed
qed

section \<open>Properties\<close>

text \<open>A small memory for the witnesses: the string \<open>AB\<close> at 16, the string \<open>A\<close> at 32.\<close>

definition sample_mem :: mem where
  "sample_mem = (\<lambda>_. 0)(16 := 65, 17 := 66, 32 := 65)"

text \<open>\<open>strcpy\<close> returns, the destination then holds the source string, and no byte outside
  the destination range changes, provided the destination does not start inside the source
  string; the pointer returned is the one past the copied NUL.\<close>

lemma strcpy_copies:
  assumes "cstr_at m src bs" and "length bs < 4294967295"
    and "dest \<notin> addrs src (Suc (length bs))"
  shows "\<exists>m'. strcpy dest src m = Some (dest + of_nat (length bs) + 1, m') \<and> cstr_at m' dest bs \<and>
    (\<forall>a. a \<notin> addrs dest (Suc (length bs)) \<longrightarrow> m' a = m a)"
proof -
  let ?n = "Suc (length bs)" and ?m = "memcpy_loop (Suc (length bs)) dest src m"
  have "bytes_at ?m dest ?n = bytes_at m src ?n"
    using assms(2,3) by (intro memcpy_loop_bytes) simp_all
  then have "bytes_at ?m dest ?n = bs @ [0]" and "0 \<notin> set bs"
    using cstr_bytes_at [OF assms(1)] by simp_all
  then have "cstr_at ?m dest bs" by (rule bytes_at_cstr)
  moreover have "strcpy dest src m = Some (dest + of_nat (length bs) + 1, ?m)"
    using strcpy_cstr [OF assms(1) _ assms(3)] assms(2) by (simp add: add_ac)
  ultimately show ?thesis using memcpy_loop_frame by blast
qed

text \<open>\<open>strcmp\<close> returns, and its result orders the two strings as unsigned bytes,
  lexicographically: zero for equal strings, negative exactly when the first is smaller.\<close>

lemma strcmp_orders:
  assumes "cstr_at m str1 xs" and "cstr_at m str2 ys"
  shows "\<exists>r. strcmp str1 str2 m = Some r \<and> (r = 0 \<longleftrightarrow> xs = ys) \<and> (r < 0 \<longleftrightarrow> xs < ys)"
  using assms by (rule strcmp_cstr)

text \<open>\<open>memcmp\<close> is zero exactly for equal ranges, but since it swaps its arguments its sign
  is the reverse of the C convention: negative when the second range is the smaller one.\<close>

theorem memcmp_sign_reversed:
  "(memcmp ptr1 ptr2 num m = 0 \<longleftrightarrow> bytes_at m ptr1 (unat num) = bytes_at m ptr2 (unat num)) \<and>
   (memcmp ptr1 ptr2 num m < 0 \<longleftrightarrow> bytes_at m ptr2 (unat num) < bytes_at m ptr1 (unat num))"
  by (auto simp: memcmp_def memcmp_loop_zero memcmp_loop_less)

text \<open>\<open>memmove\<close> copies the source range when the destination lies below it, overlap
  included; when the destination is not below the source it copies nothing at all.\<close>

theorem memmove_upward_only:
  assumes "unat src + unat sz \<le> 4294967296"
  shows "(if dest < src then bytes_at (snd (memmove dest src sz m)) dest (unat sz) = bytes_at m src (unat sz)
          else snd (memmove dest src sz m) = m)"
proof (cases "dest < src")
  case True
  have "unat sz \<le> 4294967296" using unat_lt_2p [of sz] by simp
  then show ?thesis
    using True below_notin_addrs [OF True assms]
    by (simp add: memmove_def memmove_forward_eq_memcpy memcpy_loop_bytes)
next
  case False
  then show ?thesis by (simp add: memmove_def memmove_backward.simps)
qed

theorem memmove_upward_only_witness:
  "bytes_at (snd (memmove 15 16 2 sample_mem)) 15 2 = bytes_at sample_mem 16 2 \<and>
   snd (memmove 17 16 2 sample_mem) = sample_mem"
  using memmove_upward_only [of 16 2 15 sample_mem] memmove_upward_only [of 16 2 17 sample_mem]
  by simp

text \<open>\<open>strcat\<close> does not append: it copies the source string behind the destination's NUL, so
  the destination still reads as the string it held before.\<close>

lemma strcat_keeps_dest:
  assumes "cstr_at m dest xs" and "cstr_at m src ys"
    and "length xs + length ys < 4294967294"
    and "addrs dest (length xs + length ys + 2) \<inter> addrs src (Suc (length ys)) = {}"
  shows "\<exists>p m'. strcat dest src m = Some (p, m') \<and> cstr_at m' dest xs \<and>
    cstr_at m' (dest + of_nat (length xs) + 1) ys"
proof -
  let ?d = "dest + of_nat (length xs) + 1"
  have "?d = dest + of_nat (Suc (length xs))" by (simp add: add_ac)
  then have "?d \<in> addrs dest (length xs + length ys + 2)"
    unfolding addrs_def by (metis add_2_eq_Suc' imageI le_imp_less_Suc le_add1 lessThan_iff Suc_le_mono)
  with assms(4) have d: "?d \<notin> addrs src (Suc (length ys))" by blast
  from assms(3) have "length ys < 4294967295" by simp
  from strcpy_copies [OF assms(2) this d] obtain p m' where
    c: "strcpy ?d src m = Some (p, m')" "cstr_at m' ?d ys"
    and frame: "\<forall>a. a \<notin> addrs ?d (Suc (length ys)) \<longrightarrow> m' a = m a" by blast
  have "a \<notin> addrs ?d (Suc (length ys))" if "a \<in> addrs dest (Suc (length xs))" for a
  proof
    assume "a \<in> addrs ?d (Suc (length ys))"
    with that obtain i j where i: "i \<le> length xs" "a = dest + of_nat i"
      and j: "j \<le> length ys" "a = ?d + of_nat j"
      by (auto simp: addrs_def less_Suc_eq_le)
    then have "(of_nat i :: u32) = of_nat (Suc (length xs) + j)" by (simp add: add_ac)
    then show False
      using i(1) j(1) assms(3) u32_of_nat_inj [of i "Suc (length xs) + j"] by simp
  qed
  then have "cstr_at m' dest xs"
    using assms(1) frame cstr_at_cong [of dest xs m' m] by blast
  with c show ?thesis
    by (auto simp: strcat_def strcat_skip_cstr [OF assms(1)])
qed

end
