(* ===== verification/HeapContent.thy ===== *)
theory HeapContent
  imports HeapClient CString
begin

text \<open>
  \<open>kcalloc\<close> and \<open>krealloc\<close>: what the memory of an allocation holds. The two copy loops of liballoc are compared
  with those of the string library.
\<close>

section \<open>The loops of liballoc\<close>

lemma liballoc_memset_loop: "liballoc_memset n p c m = memset_loop n p c m"
  by (induction n arbitrary: p m) simp_all

text \<open>Copying by words is copying by bytes, when the two areas have no byte in common.\<close>

lemma liballoc_memcpy_loop:
  "addrs d n \<inter> addrs s n = {} \<Longrightarrow> liballoc_memcpy n d s m = memcpy_loop n d s m"
proof (induction n d s m rule: liballoc_memcpy.induct)
  case (1 n d s m)
  let ?n = "Suc (Suc (Suc (Suc n)))"
  have in_s: "s + of_nat i \<in> addrs s ?n" and in_d: "d + of_nat i \<in> addrs d ?n" if "i < ?n" for i
    using that by (auto simp: addrs_def)
  have ne: "d + of_nat i \<noteq> s + of_nat j" if "i < ?n" "j < ?n" for i j
    using in_s [OF that(2)] in_d [OF that(1)] "1.prems" by auto
  have "addrs (d + 4) n \<inter> addrs (s + 4) n = {}"
    using "1.prems" by (simp add: addrs_Suc add.assoc Int_insert_left Int_insert_right split: if_splits)
  note IH = "1.IH" [OF this]
  have "d \<noteq> s + 1" "d \<noteq> s + 2" "d \<noteq> s + 3" "d + 1 \<noteq> s + 2" "d + 1 \<noteq> s + 3" "d + 2 \<noteq> s + 3"
    using ne [of 0 1] ne [of 0 2] ne [of 0 3] ne [of 1 2] ne [of 1 3] ne [of 2 3] by simp_all
  note reads = this [THEN not_sym, THEN fun_upd_other]
  have "memcpy_loop ?n d s m = memcpy_loop n (d + 4) (s + 4)
      (m(d := m s, d + 1 := m (s + 1), d + 2 := m (s + 2), d + 3 := m (s + 3)))"
    by (simp add: reads add.assoc del: fun_upd_apply)
  then show ?case by (simp only: liballoc_memcpy.simps(1) IH)
qed (auto simp: addrs_Suc)

section \<open>Bytes of allocations\<close>

lemma addrs_range:
  assumes "x \<in> addrs p n" "unat p + n \<le> 4294967296"
  shows "unat p \<le> unat x \<and> unat x < unat p + n"
proof -
  obtain i where i: "i < n" "x = p + of_nat i" using assms(1) by (auto simp: addrs_def)
  then have "unat x = unat p + i" using assms(2) by (simp add: u32_add_no_wrap unat_of_nat_u32)
  then show ?thesis using i by simp
qed

lemma addrs_disjoint:
  assumes "before (p, m) (q, k) \<or> before (q, k) (p, m)"
    and "unat p + unat m \<le> 4294967296" "unat q + unat k \<le> 4294967296"
  shows "addrs p (unat m) \<inter> addrs q (unat k) = {}"
  using assms addrs_range [of _ p "unat m"] addrs_range [of _ q "unat k"] by (fastforce simp: before_def)

lemma addrs_mono: "n \<le> l \<Longrightarrow> addrs p n \<subseteq> addrs p l"
  by (auto simp: addrs_def)

lemma bytes_at_keep: "addrs q k \<inter> X = {} \<Longrightarrow> (\<And>a. a \<notin> X \<Longrightarrow> m' a = m a) \<Longrightarrow> bytes_at m' q k = bytes_at m q k"
  by (rule bytes_at_cong) blast

lemma live_bounds:
  assumes "heap_live k U live s" "(p, m) \<in> set live"
  shows "unat p + unat m \<le> 4294967296" "p \<noteq> 0"
proof -
  have "4096 * k \<le> 1048576" using assms(1) heap_state_bounds by (fastforce simp: heap_live_def)
  then show "unat p + unat m \<le> 4294967296" "p \<noteq> 0" using heap_live_layout(2) [OF assms] by auto
qed

lemma live_apart:
  assumes "heap_live k U ((p, m) # live) s" "(q, l) \<in> set live"
  shows "addrs p (unat m) \<inter> addrs q (unat l) = {}"
proof (rule addrs_disjoint)
  show "before (p, m) (q, l) \<or> before (q, l) (p, m)"
    using heap_live_layout(1) [OF assms(1)] assms(2) by (auto simp: apart_def)
qed (use live_bounds(1) [OF assms(1)] assms(2) in auto)

lemma payload_same: "heap_same s (s\<lparr>payload := m\<rparr>)"
  by (simp add: heap_same_def)

text \<open>A change inside of one allocation leaves the contents of the others.\<close>

definition contents_kept :: "allocation list \<Rightarrow> 'a lalloc_scheme \<Rightarrow> 'a lalloc_scheme \<Rightarrow> bool" where
  "contents_kept live s t \<longleftrightarrow> (\<forall>(q, l) \<in> set live. bytes_at (payload t) q (unat l) = bytes_at (payload s) q (unat l))"

lemma contents_keptI:
  assumes "heap_live k U ((p, m) # live) u" and "\<And>a. a \<notin> addrs p (unat m) \<Longrightarrow> payload t a = payload s a"
  shows "contents_kept live s t"
  unfolding contents_kept_def using live_apart [OF assms(1)] assms(2)
  by (auto intro!: bytes_at_keep [where X = "addrs p (unat m)"])

section \<open>A smaller size\<close>

lemma minors_ok_resize:
  "minors_ok (m(a := (m a)\<lparr>min_req_size := v\<rparr>)) maj pv p lo hi xs = minors_ok m maj pv p lo hi xs"
  by (induction xs arbitrary: pv p lo) auto

lemma heap_state_resize:
  "heap_state k U bs (upd_minor a (\<lambda>m. m\<lparr>min_req_size := v\<rparr>) s) = heap_state k U bs s"
proof -
  let ?t = "upd_minor a (\<lambda>m. m\<lparr>min_req_size := v\<rparr>) s"
  have "same_vm s ?t" by (simp add: upd_minor_def)
  note vm = same_vm_facts(1,2) [OF this]
  have "used_bytes (minors ?t) xs = used_bytes (minors s) xs" for xs
    by (rule used_bytes_cong) (simp add: upd_minor_def)
  then have "content ?t b = content s b" for b
    by (cases b) (simp add: content_def block_ok_def upd_minor_def minors_ok_resize)
  then show ?thesis unfolding heap_state_def vm by (simp add: linked_def upd_minor_def)
qed

lemma sorted_wrt_distinct: "sorted_wrt R xs \<Longrightarrow> (\<And>x. \<not> R x x) \<Longrightarrow> distinct xs"
  by (induction xs) auto

lemma minors_distinct: "heap_state k U bs s \<Longrightarrow> distinct (minors_of bs)"
  by (rule sorted_wrt_distinct [OF heap_sorted]) simp_all

lemma heap_live_minor:
  assumes heap: "heap_live k U live s" and mem: "(p, m) \<in> set live"
  shows "\<exists>bs us a vs b1 b2. heap_state k U bs s \<and> full bs \<and> minors_of bs = us @ a # vs \<and> a = unalign p s - sizeof_minor \<and>
    mset (b1 @ (p, m) # b2) = mset live \<and> list_all2 (placed s) b1 us \<and> list_all2 (placed s) b2 vs \<and> placed s (p, m) a \<and>
    min_magic (minor s a) = LIBALLOC_MAGIC \<and> min_req_size (minor s a) = m"
proof -
  obtain bs als where bs: "heap_state k U bs s" "full bs" "mset als = mset live" "list_all2 (placed s) als (minors_of bs)"
    using heap by (auto simp: heap_live_def)
  have "(p, m) \<in> set als" using bs(3) mem by (metis set_mset_mset)
  then obtain b1 b2 where b: "als = b1 @ (p, m) # b2" by (meson split_list)
  then obtain us a vs where x: "minors_of bs = us @ a # vs" "list_all2 (placed s) b1 us" "list_all2 (placed s) b2 vs"
    "placed s (p, m) a" using bs(4) by (auto simp: list_all2_append1 list_all2_Cons1)
  obtain j n ws where j: "(j, n, ws) \<in> set bs" "a \<in> set ws" using x(1) minors_of_mem [of a bs] by auto
  then obtain ys zs where ws: "ws = ys @ a # zs" by (meson split_list)
  have "min_magic (minor s a) = LIBALLOC_MAGIC"
    using block_facts(6) [OF bs(1) j(1)] minors_ok_links(4) unfolding ws block_ok_def by blast
  moreover have "a = unalign p s - sizeof_minor" "min_req_size (minor s a) = m" using x(4) by (simp_all add: placed_def)
  ultimately show ?thesis using bs(1-3) b x by blast
qed

lemma live_touches:
  assumes "heap_live k U live s" "(p, m) \<in> set live"
  shows "touch (p - ALIGN_INFO) 1 s = Inr ()" "touch (unalign p s - sizeof_minor + 12) 4 s = Inr ()"
    "touch (unalign p s - sizeof_minor) 24 s = Inr ()"
proof -
  obtain t where "kfree 0 p s = Inr t" "p \<noteq> 0" using kfree_live [OF assms] by blast
  note kfree_touches [OF this]
  moreover have "min_magic (minor s (unalign p s - sizeof_minor)) = LIBALLOC_MAGIC"
    using heap_live_minor [OF assms] by blast
  ultimately show "touch (p - ALIGN_INFO) 1 s = Inr ()" "touch (unalign p s - sizeof_minor + 12) 4 s = Inr ()"
    "touch (unalign p s - sizeof_minor) 24 s = Inr ()" by blast+
qed

lemma touch_flags [simp]:
  "touch q n (s\<lparr>enable_int := b\<rparr>) = touch q n s" "touch q n (s\<lparr>if_flag := b\<rparr>) = touch q n s"
  by (simp_all add: touch_def translate_def Let_def)

lemma heap_live_resize:
  assumes heap: "heap_live k U live s" and mem: "(p, m) \<in> set live" and sz: "sz \<le> m"
  shows "heap_live k U ((p, sz) # remove1 (p, m) live)
    (upd_minor (unalign p s - sizeof_minor) (\<lambda>m. m\<lparr>min_req_size := sz\<rparr>) s)"
proof -
  from heap_live_minor [OF heap mem] obtain bs us a vs b1 b2 where
    bs: "heap_state k U bs s" "full bs" "minors_of bs = us @ a # vs" "a = unalign p s - sizeof_minor"
    "mset (b1 @ (p, m) # b2) = mset live" "list_all2 (placed s) b1 us" "list_all2 (placed s) b2 vs" "placed s (p, m) a"
    by blast
  let ?t = "upd_minor a (\<lambda>m. m\<lparr>min_req_size := sz\<rparr>) s"
  have new: "a \<notin> set us \<union> set vs" using minors_distinct [OF bs(1)] bs(3) by simp
  have un: "unalign q ?t = unalign q s" for q by (simp add: unalign_def Let_def upd_minor_def)
  have other: "sizes (minor ?t x) = sizes (minor s x)" if "x \<in> set us \<union> set vs" for x
    using that new by (auto simp: upd_minor_def)
  have "list_all2 (placed ?t) b1 us" by (rule placed_cong [OF bs(6)]) (use other un in simp_all)
  moreover have "list_all2 (placed ?t) b2 vs" by (rule placed_cong [OF bs(7)]) (use other un in simp_all)
  moreover have "placed ?t (p, sz) a"
    using bs(8) sz un by (auto simp: placed_def inside_def upd_minor_def word_le_nat_alt)
  ultimately have "list_all2 (placed ?t) (b1 @ (p, sz) # b2) (minors_of bs)"
    by (simp add: bs(3) list_all2_appendI)
  moreover have "mset (b1 @ (p, sz) # b2) = mset ((p, sz) # remove1 (p, m) live)"
    by (simp flip: bs(5))
  ultimately show ?thesis
    using bs(1,2) heap_state_resize [of k U bs a sz s] unfolding heap_live_def bs(4) [symmetric] by blast
qed

section \<open>\<open>kcalloc\<close> and \<open>krealloc\<close>\<close>

text \<open>The heap may serve the request.\<close>

definition can_serve :: "nat \<Rightarrow> nat \<Rightarrow> allocation list \<Rightarrow> 'a lalloc_scheme \<Rightarrow> u32 \<Rightarrow> bool" where
  "can_serve fuel k live s req \<longleftrightarrow> request_allowed req \<and> 2 * length live + 2 < fuel \<and>
     k + request_pages req \<le> 256 \<and> request_pages req \<le> free_count s"

lemma kmalloc_can_serve:
  assumes "heap_live k U live s" "can_serve fuel k live s req"
  obtains p t k' where "kmalloc fuel ra req s = Inr (p, t)" "p \<noteq> 0" "heap_live k' U ((p, req) # live) t" "same_kernel s t"
  using kmalloc_live [OF assms(1), of req fuel ra] assms(2)
  unfolding can_serve_def request_allowed_def request_pages_def same_kernel_def by blast

lemma krealloc_grows:
  assumes heap: "heap_live k U live s" and mem: "(p, m) \<in> set live" and sz: "m < sz"
    and serve: "can_serve fuel k live s sz"
  obtains q t k' where "krealloc fuel ra p sz s = Inr (q, t)" "heap_live k' U ((q, sz) # remove1 (p, m) live) t"
    "bytes_at (payload t) q (unat m) = bytes_at (payload s) p (unat m)" "contents_kept (remove1 (p, m) live) s t"
    "if_flag t = if_flag s" "lalloc.more t = lalloc.more s"
proof -
  have p: "p \<noteq> 0" by (rule live_bounds(2) [OF heap mem])
  have mi: "min_magic (minor s (unalign p s - sizeof_minor)) = LIBALLOC_MAGIC"
    "min_req_size (minor s (unalign p s - sizeof_minor)) = m" using heap_live_minor [OF heap mem] by blast+
  define s1 where "s1 = s\<lparr>enable_int := if_flag s\<rparr>"
  have same1: "heap_same s s1" by (simp add: s1_def heap_same_def)
  have heap1: "heap_live k U live s1" "can_serve fuel k live s1 sz"
    using heap serve heap_same_live [OF same1] by (simp_all add: can_serve_def)
  obtain q u k1 where u: "kmalloc fuel ra sz s1 = Inr (q, u)" "q \<noteq> 0" "heap_live k1 U ((q, sz) # live) u"
    "same_kernel s1 u" by (rule kmalloc_can_serve [OF heap1])
  let ?copy = "liballoc_memcpy (unat m) q p (payload u)"
  let ?v = "u\<lparr>payload := ?copy\<rparr>"
  have v: "heap_live k1 U ((q, sz) # live) ?v" using u(3) heap_same_live(1) [OF payload_same] by blast
  have memv: "(p, m) \<in> set ((q, sz) # live)" using mem by simp
  obtain t where t: "kfree ra p ?v = Inr t" "heap_live k1 U (remove1 (p, m) ((q, sz) # live)) t"
    "if_flag t = if_flag ?v" "payload t = payload ?v" "lalloc.more t = lalloc.more ?v"
    using kfree_live [OF v memv, of ra] by blast
  have le: "unat m \<le> unat sz" using sz by (simp add: word_less_nat_alt)
  have dis: "addrs q (unat sz) \<inter> addrs p (unat m) = {}" by (rule live_apart [OF u(3) mem])
  then have dis': "addrs q (unat m) \<inter> addrs p (unat m) = {}" using addrs_mono [OF le] by blast
  have copy: "?copy = memcpy_loop (unat m) q p (payload s)"
    using liballoc_memcpy_loop [OF dis'] u(4) by (simp add: same_kernel_def s1_def)
  have "bytes_at ?copy q (unat m) = bytes_at (payload s) p (unat m)"
    unfolding copy
  proof (cases "m = 0")
    case False
    then have "0 < unat m" by (simp add: unat_gt_0)
    then have "q \<in> addrs q (unat m)" by (auto simp: addrs_def intro!: image_eqI [where x = 0])
    then have "q \<notin> addrs p (unat m)" using dis' by blast
    then show "bytes_at (memcpy_loop (unat m) q p (payload s)) q (unat m) = bytes_at (payload s) p (unat m)"
      using unat_lt_2p [of m] by (intro memcpy_loop_bytes) simp_all
  qed simp
  moreover have "contents_kept live s t"
  proof (rule contents_keptI [OF u(3)])
    fix a assume "a \<notin> addrs q (unat sz)"
    then have "a \<notin> addrs q (unat m)" using addrs_mono [OF le] by blast
    then show "payload t a = payload s a" using t(4) copy memcpy_loop_frame by simp
  qed
  then have "contents_kept (remove1 (p, m) live) s t"
    using set_remove1_subset [of "(p, m)" live] by (auto simp: contents_kept_def)
  moreover have "krealloc fuel ra p sz s = Inr (q, t)"
  proof -
    have "sz \<noteq> 0" "\<not> sz \<le> m" using sz by auto
    then show ?thesis using p mi u(1,2) t(1) live_touches [OF heap mem]
      by (simp add: nonnull_def krealloc_def Let_def liballoc_lock_eq liballoc_unlock_eq s1_def)
  qed
  moreover have "(q, sz) \<noteq> (p, m)" using sz by auto
  then have "heap_live k1 U ((q, sz) # remove1 (p, m) live) t" using t(2) by (auto split: if_splits)
  ultimately show thesis using that t(3-5) u(4) by (simp add: same_kernel_def s1_def)
qed

lemma krealloc_shrinks:
  assumes heap: "heap_live k U live s" and mem: "(p, m) \<in> set live" and sz: "sz \<noteq> 0" "sz \<le> m"
  obtains t where "krealloc fuel ra p sz s = Inr (p, t)" "heap_live k U ((p, sz) # remove1 (p, m) live) t" "same_kernel s t"
proof -
  have p: "p \<noteq> 0" by (rule live_bounds(2) [OF heap mem])
  let ?a = "unalign p s - sizeof_minor"
  have mi: "min_magic (minor s ?a) = LIBALLOC_MAGIC" "min_req_size (minor s ?a) = m"
    using heap_live_minor [OF heap mem] by blast+
  define u where "u = upd_minor ?a (\<lambda>m. m\<lparr>min_req_size := sz\<rparr>) s"
  define t where "t = u\<lparr>enable_int := if_flag s\<rparr>"
  have "heap_same u t" by (simp add: t_def heap_same_def)
  then have "heap_live k U ((p, sz) # remove1 (p, m) live) t"
    using heap_live_resize [OF heap mem sz(2)] heap_same_live(1) unfolding u_def by blast
  moreover have "krealloc fuel ra p sz s = Inr (p, t)"
    using p mi sz live_touches [OF heap mem] by (simp add: krealloc_def Let_def liballoc_lock_eq liballoc_unlock_eq t_def u_def upd_minor_def)
  moreover have "same_kernel s t" by (simp add: same_kernel_def t_def u_def upd_minor_def)
  ultimately show thesis using that by blast
qed

section \<open>Properties\<close>

text \<open>C19. Memory from \<open>kcalloc\<close> is zero: the call returns an allocation of the size that the product of its arguments has
  in 32 bits, all of whose bytes are zero, and no byte of another allocation changes.\<close>

theorem kcalloc_zeroes:
  assumes "heap_live k U live s" and "can_serve fuel k live s (nobj * sz)"
  shows "\<exists>p t k'. kcalloc fuel ra nobj sz s = Inr (p, t) \<and> heap_live k' U ((p, nobj * sz) # live) t \<and>
    bytes_at (payload t) p (unat (nobj * sz)) = replicate (unat (nobj * sz)) 0 \<and> contents_kept live s t \<and>
    if_flag t = if_flag s \<and> lalloc.more t = lalloc.more s"
proof -
  let ?n = "unat (nobj * sz)"
  obtain p u k' where u: "kmalloc fuel ra (nobj * sz) s = Inr (p, u)" "p \<noteq> 0" "heap_live k' U ((p, nobj * sz) # live) u" "same_kernel s u"
    by (rule kmalloc_can_serve [OF assms])
  let ?t = "u\<lparr>payload := memset_loop ?n p 0 (payload u)\<rparr>"
  have "kcalloc fuel ra nobj sz s = Inr (p, ?t)"
    using u(1,2) by (simp add: nonnull_def kcalloc_def Let_def liballoc_memset_loop)
  moreover have "heap_live k' U ((p, nobj * sz) # live) ?t"
    using u(3) heap_same_live(1) [OF payload_same] by blast
  moreover have "bytes_at (payload ?t) p ?n = replicate ?n 0"
    using memset_loop_bytes [of ?n p 0] unat_lt_2p [of "nobj * sz"] by simp
  moreover have "contents_kept live s ?t"
    by (rule contents_keptI [OF u(3)]) (use u(4) in \<open>simp add: memset_loop_frame same_kernel_def\<close>)
  ultimately show ?thesis using u(4) by (intro exI [of _ p] exI [of _ ?t] exI [of _ k']) (simp add: same_kernel_def)
qed

text \<open>C18. \<open>krealloc\<close> gives an allocation a new size and keeps its content: the result is live with the new size in
  place of the old allocation, its bytes up to the smaller of the two sizes are those of the old allocation, also when they
  had to be moved, and no byte of another allocation changes.\<close>

theorem krealloc_keeps_content:
  assumes "heap_live k U live s" and "(p, m) \<in> set live" and "sz \<noteq> 0"
    and "m < sz \<Longrightarrow> can_serve fuel k live s sz"
  shows "\<exists>q t k'. krealloc fuel ra p sz s = Inr (q, t) \<and> heap_live k' U ((q, sz) # remove1 (p, m) live) t \<and>
    bytes_at (payload t) q (min (unat m) (unat sz)) = bytes_at (payload s) p (min (unat m) (unat sz)) \<and>
    contents_kept (remove1 (p, m) live) s t \<and> if_flag t = if_flag s \<and> lalloc.more t = lalloc.more s"
proof (cases "m < sz")
  case True
  then have "min (unat m) (unat sz) = unat m" by (simp add: word_less_nat_alt)
  then show ?thesis
    by (rule_tac krealloc_grows [OF assms(1,2) True assms(4) [OF True], of ra]) auto
next
  case False
  then have "sz \<le> m" by simp
  from krealloc_shrinks [OF assms(1-3) this, of fuel ra] show ?thesis
    by (fastforce simp: same_kernel_def contents_kept_def)
qed

section \<open>Concrete calls\<close>

lemma lalloc_empty_serves: "request_allowed req \<Longrightarrow> request_pages req \<le> 256 \<Longrightarrow> can_serve 515 0 [] lalloc_empty req"
  using lalloc_empty_free by (simp add: can_serve_def)

lemma lalloc_empty_Nil: "heap_live 0 (in_use lalloc_empty) [] lalloc_empty"
  using lalloc_empty_heap by (simp add: heap_empty_live)

theorem kcalloc_zeroes_witness:
  "\<exists>p t. kcalloc 515 0 10 4 lalloc_empty = Inr (p, t) \<and> bytes_at (payload t) p 40 = replicate 40 0"
proof -
  have "can_serve 515 0 [] lalloc_empty (10 * 4)"
    by (rule lalloc_empty_serves) (simp_all add: request_allowed_def request_pages_eq)
  from kcalloc_zeroes [OF lalloc_empty_Nil this, of 0] show ?thesis by auto
qed

text \<open>An allocation of 100 bytes that becomes one of 70000.\<close>

theorem krealloc_keeps_content_witness:
  "\<exists>p s q t. kmalloc 515 0 100 lalloc_empty = Inr (p, s) \<and> krealloc 515 0 p 70000 s = Inr (q, t) \<and>
    bytes_at (payload t) q 100 = bytes_at (payload s) p 100"
proof -
  have live: "heap_live 0 (in_use lalloc_empty) [] lalloc_empty" by (rule lalloc_empty_Nil)
  have pages: "new_pages (100 + 32) = 16" "request_pages 70000 = 18"
    using request_pages_eq [of 100] request_pages_eq [of 70000] by (simp_all add: request_allowed_def request_pages_def)
  obtain p s k where s: "kmalloc 515 0 100 lalloc_empty = Inr (p, s)" "heap_live k (in_use lalloc_empty) [(p, 100)] s"
    "k \<le> 16" "8192 \<le> free_count s + 16"
    using kmalloc_live [OF live, of 100 515 0] pages(1) lalloc_empty_free by auto
  have "can_serve 515 k [(p, 100)] s 70000" using s(3,4) pages(2) by (simp add: can_serve_def request_allowed_def)
  with krealloc_keeps_content [OF s(2), of p 100 70000 515 0] s(1) show ?thesis by auto
qed

end
