(* ===== verification/PhysInit.thy ===== *)
theory PhysInit
  imports Scheduler
begin

text \<open>
  The structures of the boot loader (\<open>kernel/include/kernel/multiboot.h\<close>) and the initialisation of the
  physical memory manager (\<open>kernel/arch/i386/pmm/pmm.c\<close>). Memory map entries and module descriptors are
  typed stores, indexed by their addresses. The loop over the memory map takes fuel: an entry whose
  size field is \<open>-4\<close> makes it run for ever. The linker's symbols are arguments.
\<close>

definition MULTIBOOT_BOOTLOADER_MAGIC :: u32 where "MULTIBOOT_BOOTLOADER_MAGIC = 0x2BADB002"
definition MULTIBOOT_INFO_MEMORY :: u32 where "MULTIBOOT_INFO_MEMORY = 0x00000001"
definition MULTIBOOT_INFO_MODS :: u32 where "MULTIBOOT_INFO_MODS = 0x00000008"
definition MULTIBOOT_INFO_MEM_MAP :: u32 where "MULTIBOOT_INFO_MEM_MAP = 0x00000040"
definition MULTIBOOT_MEMORY_AVAILABLE :: u32 where "MULTIBOOT_MEMORY_AVAILABLE = 1"

text \<open>The union of symbol tables is kept as its four words, the one of frame buffer data as its bytes.\<close>

record multiboot_info =
  mb_flags :: u32
  mem_lower :: u32
  mem_upper :: u32
  boot_device :: u32
  mb_cmdline :: u32
  mods_count :: u32
  mods_addr :: u32
  symbol_table :: "u32 \<times> u32 \<times> u32 \<times> u32"
  mmap_length :: u32
  mmap_addr :: u32
  drives_length :: u32
  drives_addr :: u32
  config_table :: u32
  boot_loader_name :: u32
  apm_table :: u32
  vbe_control_info :: u32
  vbe_mode_info :: u32
  vbe_mode :: u16
  vbe_interface_seg :: u16
  vbe_interface_off :: u16
  vbe_interface_len :: u16
  framebuffer_addr :: u64
  framebuffer_pitch :: u32
  framebuffer_width :: u32
  framebuffer_height :: u32
  framebuffer_bpp :: u8
  framebuffer_type :: u8
  framebuffer_data :: "u8 list"

record multiboot_mmap_entry =
  mm_size :: u32
  mm_addr :: u64
  mm_len :: u64
  mm_type :: u32

record multiboot_mod_list =
  mod_start :: u32
  mod_end :: u32
  mod_cmdline :: u32
  mod_pad :: u32

record boot = scheduler +
  g_multiboot_info :: multiboot_info
  mmap_entries :: "u32 \<Rightarrow> multiboot_mmap_entry"
  mod_lists :: "u32 \<Rightarrow> multiboot_mod_list"

section \<open>\<open>pmm.c\<close>\<close>

primrec mmap_loop :: "nat \<Rightarrow> multiboot_info \<Rightarrow> u32 \<Rightarrow> 'a boot_scheme \<Rightarrow> ('a boot_scheme) kres" where
  "mmap_loop 0 mbi mmap s = Inl Nesting"
| "mmap_loop (Suc n) mbi mmap s =
     (if mmap < mmap_addr mbi + mmap_length mbi then
        let e = mmap_entries s mmap;
            addr32 = (ucast (mm_addr e AND 0xFFFFFFFF) :: u32);
            len32 = (ucast (mm_addr e AND 0xFFFFFFFF) :: u32)
        in kbind (printf (''memory region from %p to %p is %s'' @ [CHR 0x0A])
             [VInt addr32, VInt (addr32 + len32),
              VStr (if mm_type e = MULTIBOOT_MEMORY_AVAILABLE then ''available'' else ''reserved'')] s) (\<lambda>s1.
           kbind (if mm_type e = MULTIBOOT_MEMORY_AVAILABLE then paging_init_region addr32 len32 s1 else Inr s1) (\<lambda>s2.
           mmap_loop n mbi (mmap + mm_size (mmap_entries s2 mmap) + 4) s2))
      else Inr s)"

definition parse_memory_map :: "nat \<Rightarrow> multiboot_info \<Rightarrow> 'a boot_scheme \<Rightarrow> ('a boot_scheme) kres" where
  "parse_memory_map fuel mbi s = mmap_loop fuel mbi (mmap_addr mbi) s"

primrec mods_loop :: "nat \<Rightarrow> u32 \<Rightarrow> 'a boot_scheme \<Rightarrow> ('a boot_scheme) kres" where
  "mods_loop 0 md s = Inr s"
| "mods_loop (Suc n) md s =
     kbind (kassert (md \<noteq> 0) ''mod'') (\<lambda>_.
     let m = mod_lists s md in
     kbind (printf (''module found in region from %p to %p'' @ [CHR 0x0A]) [VInt (mod_start m), VInt (mod_end m)] s) (\<lambda>s1.
     kbind (paging_deinit_region (mod_start m) (mod_end m - mod_start m - 1) s1) (mods_loop n (md + 16))))"

definition preserve_modules :: "multiboot_info \<Rightarrow> 'a boot_scheme \<Rightarrow> ('a boot_scheme) kres" where
  "preserve_modules mbi s =
     kbind (panic_if (mods_count mbi \<noteq> 0 \<and> mb_flags mbi AND MULTIBOOT_INFO_MODS = 0)
       ''Multiboot header does not include module information'') (\<lambda>_.
     mods_loop (unat (mods_count mbi)) (mods_addr mbi) s)"

text \<open>As built: \<open>USE_BOOTSTRAP_PAGING\<close> is defined, so \<open>reinit_paging\<close> is not compiled.\<close>

definition pmm_init :: "nat \<Rightarrow> u32 \<Rightarrow> u32 \<Rightarrow> u32 \<Rightarrow> 'a boot_scheme \<Rightarrow> ('a boot_scheme) kres" where
  "pmm_init fuel KERN_START KERN_END KERN_HIGH_OFFSET s =
     (let mbi = g_multiboot_info s in
      kbind (panic_if (mb_flags mbi AND MULTIBOOT_INFO_MEMORY = 0)
        ''Multiboot header does not include memory size information'') (\<lambda>_.
      kbind (panic_if (mb_flags mbi AND MULTIBOOT_INFO_MEM_MAP = 0)
        ''Multiboot header does not include memory map information'') (\<lambda>_.
      kbind (printf (''mem_lower = %u KiB'' @ [CHR 0x0A]) [VInt (mem_lower mbi)] s) (\<lambda>s1.
      kbind (printf (''mem_upper = %u KiB'' @ [CHR 0x0A]) [VInt (mem_upper mbi)] s1) (\<lambda>s2.
      kbind (printf (''mem_total = %u KiB'' @ [CHR 0x0A]) [VInt (mem_lower mbi + mem_upper mbi)] s2) (\<lambda>s3.
      kbind (paging_init_bitmap ((mem_lower mbi + mem_upper mbi) * 1024) s3) (\<lambda>(_, s4).
      kbind (parse_memory_map fuel mbi s4) (\<lambda>s5.
      let real_kernel_start = KERN_START - KERN_HIGH_OFFSET;
          real_kernel_end = KERN_END - KERN_HIGH_OFFSET
      in kbind (paging_deinit_region real_kernel_start (real_kernel_end - real_kernel_start) s5) (\<lambda>s6.
         kbind (preserve_modules mbi s6) (\<lambda>s7.
         kbind (int_register_handler 14 (Some Page_Fault_Int) (paging_allocator_init KERN_END s7)) (\<lambda>s8.
         printf (''[mm] paging enabled'' @ [CHR 0x0A]) [] s8)))))))))))"

section \<open>The memory map\<close>

text \<open>\<open>relen len s\<close>: the state with other lengths in the entries of the memory map.\<close>

definition relen :: "(u32 \<Rightarrow> u64) \<Rightarrow> 'a boot_scheme \<Rightarrow> 'a boot_scheme" where
  "relen len s = s\<lparr>mmap_entries := (\<lambda>p. (mmap_entries s p)\<lparr>mm_len := len p\<rparr>)\<rparr>"

fun relen_result :: "(u32 \<Rightarrow> u64) \<Rightarrow> ('a boot_scheme) kres \<Rightarrow> ('a boot_scheme) kres" where
  "relen_result len (Inl e) = Inl e"
| "relen_result len (Inr s) = Inr (relen len s)"

lemma relen_sel [simp]:
  "mm_size (mmap_entries (relen len s) p) = mm_size (mmap_entries s p)"
  "mm_addr (mmap_entries (relen len s) p) = mm_addr (mmap_entries s p)"
  "mm_type (mmap_entries (relen len s) p) = mm_type (mmap_entries s p)"
  by (simp_all add: relen_def)

lemma kbind_relen:
  "(\<And>t. f (relen len t) = relen_result len (f t)) \<Longrightarrow>
    kbind (relen_result len m) f = relen_result len (kbind m f)"
  by (cases m) simp_all

lemma printf_relen: "printf fmt args (relen len s) = relen_result len (printf fmt args s)"
  unfolding printf_def by (cases "vprintf_buf fmt args") (simp_all add: relen_def)

lemma init_region_relen: "paging_init_region b l (relen len s) = relen_result len (paging_init_region b l s)"
proof -
  have b: "page_bitmap (relen len s) = page_bitmap s" by (simp add: relen_def)
  show ?thesis
    unfolding paging_init_region_def b
    by (auto simp: kbind_def relen_def split: sum.splits)
qed

lemma mmap_loop_relen: "mmap_loop n mbi mmap (relen len s) = relen_result len (mmap_loop n mbi mmap s)"
proof (induction n arbitrary: mmap s)
  case (Suc n)
  show ?case
    unfolding mmap_loop.simps Let_def relen_sel printf_relen
    by (auto intro!: kbind_relen simp: init_region_relen Suc.IH)
qed simp

text \<open>The length of a region plays no part in the parsing of the memory map: with any other lengths
  in the entries, the same pages are freed and the same lines printed.\<close>

lemma parse_memory_map_ignores_lengths:
  "parse_memory_map fuel mbi (relen len s) = relen_result len (parse_memory_map fuel mbi s)"
  unfolding parse_memory_map_def by (rule mmap_loop_relen)

section \<open>Modules\<close>

lemma printf_two_pointers:
  "\<exists>msg. printf (''module found in region from %p to %p'' @ [CHR 0x0A]) [VInt a, VInt b] s =
    Inr (s\<lparr>con_log := con_log s @ [Printed msg]\<rparr>)"
  by (rule printf_prints) (simp_all add: conversion_width_def)

text \<open>A descriptor of a module that is not empty and lies in the first 32767 pages.\<close>

definition module_fits :: "'a boot_scheme \<Rightarrow> u32 \<Rightarrow> bool" where
  "module_fits s md \<longleftrightarrow> md \<noteq> 0 \<and> mod_start (mod_lists s md) < mod_end (mod_lists s md) \<and>
     unat (mod_end (mod_lists s md)) \<le> 134213632"

definition descriptor :: "u32 \<Rightarrow> nat \<Rightarrow> u32" where
  "descriptor md i = md + 16 * of_nat i"

lemma descriptor_simps: "descriptor md 0 = md" "descriptor (md + 16) i = descriptor md (Suc i)"
  by (simp_all add: descriptor_def algebra_simps)

lemma module_pages:
  assumes "mod_start m < mod_end m" and "unat (mod_end m) \<le> 134213632"
  shows "unat (mod_start m) div 4096 + unat (pages_for (mod_end m - mod_start m - 1)) < 32768"
    and "touched (mod_start m) (mod_end m - mod_start m) \<subseteq> region_pages (mod_start m) (mod_end m - mod_start m - 1)"
proof -
  let ?a = "unat (mod_start m)" and ?b = "unat (mod_end m)"
  have lt: "?a < ?b" using assms(1) by (simp add: word_less_nat_alt)
  have len: "unat (mod_end m - mod_start m) = ?b - ?a" using lt by (simp add: u32_sub_no_wrap)
  then have len1: "unat (mod_end m - mod_start m - 1) = ?b - ?a - 1"
    using lt by (subst u32_sub_no_wrap) simp_all
  have pf: "unat (pages_for (mod_end m - mod_start m - 1)) =
      (?b - ?a - 1) div 4096 + (if (?b - ?a - 1) mod 4096 = 0 then 0 else 1)"
    unfolding unat_pages_for len1 ..
  have "?a div 4096 + (?b - ?a - 1) div 4096 \<le> (?a + (?b - ?a - 1)) div 4096"
    unfolding div_add1_eq [of ?a] by simp
  also have "\<dots> \<le> 134213631 div 4096" using lt assms(2) by (intro div_le_mono) simp
  finally show "?a div 4096 + unat (pages_for (mod_end m - mod_start m - 1)) < 32768"
    unfolding pf by simp
  show "touched (mod_start m) (mod_end m - mod_start m) \<subseteq> region_pages (mod_start m) (mod_end m - mod_start m - 1)"
  proof
    fix p assume "p \<in> touched (mod_start m) (mod_end m - mod_start m)"
    then obtain a where a: "p = a div 4096" "?a \<le> a" "a < ?b"
      unfolding touched_def len using lt by auto
    have "?b - ?a - 1 \<le> 4096 * unat (pages_for (mod_end m - mod_start m - 1))"
      unfolding pf by auto
    with a(3) have "a \<le> ?a + unat (pages_for (mod_end m - mod_start m - 1)) * 4096" by linarith
    from div_le_mono [OF this, of 4096] div_le_mono [OF a(2), of 4096] a(1)
    show "p \<in> region_pages (mod_start m) (mod_end m - mod_start m - 1)"
      by (simp add: region_pages_def)
  qed
qed

lemma mods_loop_reserves:
  "pages_ok s \<Longrightarrow> (\<And>i. i < n \<Longrightarrow> module_fits s (descriptor md i)) \<Longrightarrow>
    \<exists>t. mods_loop n md s = Inr t \<and> pages_ok t \<and> in_use s \<subseteq> in_use t \<and>
      (\<forall>i < n. let m = mod_lists s (descriptor md i) in touched (mod_start m) (mod_end m - mod_start m) \<subseteq> in_use t)"
proof (induction n arbitrary: md s)
  case (Suc n)
  let ?m = "mod_lists s md"
  have fit: "md \<noteq> 0" "mod_start ?m < mod_end ?m" "unat (mod_end ?m) \<le> 134213632"
    using Suc.prems(2) [of 0] by (simp_all add: descriptor_simps module_fits_def)
  obtain msg where msg: "printf (''module found in region from %p to %p'' @ [CHR 0x0A])
      [VInt (mod_start ?m), VInt (mod_end ?m)] s = Inr (s\<lparr>con_log := con_log s @ [Printed msg]\<rparr>)"
    using printf_two_pointers by blast
  let ?s1 = "s\<lparr>con_log := con_log s @ [Printed msg]\<rparr>"
  have s1: "pages_ok ?s1" "in_use ?s1 = in_use s" using Suc.prems(1) by (simp_all add: pages_ok_def in_use_def)
  note pages = module_pages [OF fit(2,3)]
  obtain t where t: "paging_deinit_region (mod_start ?m) (mod_end ?m - mod_start ?m - 1) ?s1 = Inr t" "pages_ok t"
    "in_use t = in_use s \<union> region_pages (mod_start ?m) (mod_end ?m - mod_start ?m - 1)"
    using deinit_region_spec [OF s1(1) pages(1)] s1(2) by auto
  have lists: "mod_lists t = mod_lists s"
    using t(1) by (auto simp: paging_deinit_region_def kbind_eq_Inr)
  then have "module_fits t (descriptor (md + 16) i)" if "i < n" for i
    using Suc.prems(2) [of "Suc i"] that by (simp add: descriptor_simps module_fits_def)
  from Suc.IH [OF t(2) this] obtain u where u: "mods_loop n (md + 16) t = Inr u" "pages_ok u" "in_use t \<subseteq> in_use u"
    "\<forall>i < n. let m = mod_lists s (descriptor md (Suc i)) in touched (mod_start m) (mod_end m - mod_start m) \<subseteq> in_use u"
    unfolding lists descriptor_simps by blast
  have "touched (mod_start ?m) (mod_end ?m - mod_start ?m) \<subseteq> in_use u"
    using pages(2) t(3) u(3) by blast
  with u(4) have "\<forall>i < Suc n. let m = mod_lists s (descriptor md i) in
      touched (mod_start m) (mod_end m - mod_start m) \<subseteq> in_use u"
    by (auto simp: less_Suc_eq_0_disj descriptor_simps)
  then show ?case using fit(1) msg t u by (auto simp: Let_def)
qed simp

text \<open>C29. After \<open>preserve_modules\<close> every page that holds a byte of a module is in use, the last one too,
  although the length given to \<open>paging_deinit_region\<close> is one less than the module's size, and no page in
  use before is free.\<close>

theorem preserve_modules_reserves:
  assumes "pages_ok s" and "mb_flags mbi AND MULTIBOOT_INFO_MODS \<noteq> 0"
    and "\<And>i. i < unat (mods_count mbi) \<Longrightarrow> module_fits s (descriptor (mods_addr mbi) i)"
  shows "\<exists>t. preserve_modules mbi s = Inr t \<and> pages_ok t \<and> in_use s \<subseteq> in_use t \<and>
    (\<forall>i < unat (mods_count mbi). let m = mod_lists s (descriptor (mods_addr mbi) i)
      in touched (mod_start m) (mod_end m - mod_start m) \<subseteq> in_use t)"
  using mods_loop_reserves [OF assms(1,3)] assms(2) by (simp add: preserve_modules_def)

definition boot_zero :: boot where
  "boot_zero = scheduler.extend sched_zero
     \<lparr>g_multiboot_info = \<lparr>mb_flags = 0x49, mem_lower = 639, mem_upper = 64512, boot_device = 0, mb_cmdline = 0,
        mods_count = 2, mods_addr = 0x9000, symbol_table = (0, 0, 0, 0), mmap_length = 0, mmap_addr = 0,
        drives_length = 0, drives_addr = 0, config_table = 0, boot_loader_name = 0, apm_table = 0,
        vbe_control_info = 0, vbe_mode_info = 0, vbe_mode = 0, vbe_interface_seg = 0, vbe_interface_off = 0,
        vbe_interface_len = 0, framebuffer_addr = 0, framebuffer_pitch = 0, framebuffer_width = 0,
        framebuffer_height = 0, framebuffer_bpp = 0, framebuffer_type = 0, framebuffer_data = []\<rparr>,
      mmap_entries = (\<lambda>_. \<lparr>mm_size = 20, mm_addr = 0, mm_len = 0, mm_type = 2\<rparr>),
      mod_lists = (\<lambda>p. \<lparr>mod_start = 0x2100000 + p, mod_end = 0x2102001 + p, mod_cmdline = 0, mod_pad = 0\<rparr>)\<rparr>"

lemma boot_zero_sel [simp]:
  "mod_lists boot_zero = (\<lambda>p. \<lparr>mod_start = 0x2100000 + p, mod_end = 0x2102001 + p, mod_cmdline = 0, mod_pad = 0\<rparr>)"
  "mods_count (g_multiboot_info boot_zero) = 2" "mods_addr (g_multiboot_info boot_zero) = 0x9000"
  "mb_flags (g_multiboot_info boot_zero) = 0x49" "page_bitmap boot_zero = page_bitmap pages_zero"
  by (simp_all add: boot_zero_def scheduler.defs sched_zero_def timer.defs timer_zero_def serial.defs
      serial_zero_def interrupts.defs irq_zero_def cpu.defs lalloc.defs lalloc_zero_def kernel_heap.defs kheap_zero_def)

theorem preserve_modules_reserves_witness:
  "\<exists>t. preserve_modules (g_multiboot_info boot_zero) boot_zero = Inr t \<and> pages_ok t \<and> in_use boot_zero \<subseteq> in_use t"
proof -
  have ok: "pages_ok boot_zero" using pages_zero_ok by (simp add: pages_ok_def)
  have "module_fits boot_zero (descriptor 0x9000 i)" if "i < 2" for i
    using that by (auto simp: less_2_cases_iff module_fits_def descriptor_def)
  then show ?thesis
    using preserve_modules_reserves [OF ok, of "g_multiboot_info boot_zero"]
    by (auto simp: MULTIBOOT_INFO_MODS_def)
qed

end
