(* ===== verification/AreaMap.thy ===== *)
theory AreaMap
  imports Paging
begin

text \<open>
  Mapping into an area of its own, page after page towards higher addresses, as \<open>module_table_init\<close> does at
  \<open>0xE0000000\<close>: the invariant that keeps every \<open>page_map\<close> there from failing, page tables included. An area page is
  named by its number, its address divided by 4096.
\<close>

definition page_addr :: "nat \<Rightarrow> u32" where
  "page_addr p = of_nat (4096 * p)"

lemma page_addr_parts:
  assumes "p < 1048576"
  shows "unat (page_addr p) = 4096 * p" "IS_PAGE_ALIGNED (page_addr p)"
    "pd_index (page_addr p) = of_nat (p div 1024)" "unat (pd_index (page_addr p)) = p div 1024"
    "pt_index (page_addr p) = of_nat p" "unat (pt_index (page_addr p)) = p mod 1024"
proof -
  show u: "unat (page_addr p) = 4096 * p"
    unfolding page_addr_def using assms by (intro unat_of_nat_u32) simp
  show "IS_PAGE_ALIGNED (page_addr p)" by (simp add: aligned_nat u)
  have "4096 * p div 4194304 = p div 1024" using div_mult2_eq [of "4096 * p" 4096 1024] by simp
  then show pd: "pd_index (page_addr p) = of_nat (p div 1024)" by (simp add: pd_index_nat u)
  have "p div 1024 < 1024" using assms by (simp add: less_mult_imp_div_less)
  then show "unat (pd_index (page_addr p)) = p div 1024" by (simp add: pd unat_of_nat)
  show pt: "pt_index (page_addr p) = of_nat p" by (simp add: pt_index_nat u)
  show "unat (pt_index (page_addr p)) = p mod 1024" by (simp add: pt unat_of_nat)
qed

lemma page_addr_split:
  assumes "IS_PAGE_ALIGNED va"
  obtains p where "p < 1048576" "va = page_addr p"
proof (rule that)
  show p: "unat va div 4096 < 1048576" using unat_lt_2p [of va] by (simp add: less_mult_imp_div_less)
  have "4096 * (unat va div 4096) = unat va" using assms by (auto simp: aligned_nat)
  then show "va = page_addr (unat va div 4096)" by (simp add: word_unat_eq_iff page_addr_parts(1) [OF p])
qed

lemma aligned_page_addr: "IS_PAGE_ALIGNED (page_addr p)"
proof -
  have "unat (page_addr p) mod 4096 = 4096 * p mod 4294967296 mod 4096" by (simp add: page_addr_def unat_of_nat del: of_nat_mult)
  also have "\<dots> = 0" by (subst mod_mod_cancel) simp_all
  finally show ?thesis by (simp add: aligned_nat)
qed

lemma page_addr_push: "push_bit 12 (of_nat k) = page_addr k"
  by (simp add: page_addr_def push_bit_eq_mult)

lemma page_addr_add: "page_addr p + page_addr k = page_addr (p + k)"
  by (simp add: page_addr_def algebra_simps)

lemma page_addr_entry:
  assumes "p < 1048576" "p' < 1048576" "p \<noteq> p'"
  shows "pd_index (page_addr p) \<noteq> pd_index (page_addr p') \<or> pt_index (page_addr p) \<noteq> pt_index (page_addr p')"
proof -
  have "p = 1024 * (p div 1024) + p mod 1024" "p' = 1024 * (p' div 1024) + p' mod 1024" by simp_all
  then have "p div 1024 \<noteq> p' div 1024 \<or> p mod 1024 \<noteq> p' mod 1024" using assms(3) by metis
  then show ?thesis using page_addr_parts(4,6) [OF assms(1)] page_addr_parts(4,6) [OF assms(2)] by metis
qed

section \<open>The invariant\<close>

text \<open>The directory entries of the area, and those below page \<open>L\<close> that have no table yet.\<close>

definition area_entry :: "10 word \<Rightarrow> bool" where
  "area_entry i \<longleftrightarrow> 896 \<le> unat i \<and> unat i < 1023"

definition absent :: "nat \<Rightarrow> 'a paging_scheme \<Rightarrow> 10 word set" where
  "absent L s = {i. area_entry i \<and> 1024 * unat i < L \<and> \<not> bit (pmem s (cr3 s) i) 0}"

text \<open>Room for \<open>n\<close> page tables: the next pages of the placement heap are free and in one table below the area, and
  there are free physical pages.\<close>

definition tables_left :: "nat \<Rightarrow> 'a paging_scheme \<Rightarrow> bool" where
  "tables_left n s \<longleftrightarrow> IS_PAGE_ALIGNED (placement_heap s) \<and> unat (pd_index (placement_heap s)) < 896 \<and>
     unat (pt_index (placement_heap s)) + n < 1024 \<and> (\<forall>k < n. slot_free (placement_heap s + page_addr k) s) \<and>
     n \<le> card ({..<page_limit s} - in_use s)"

definition area_page :: "nat \<Rightarrow> bool" where
  "area_page p \<longleftrightarrow> 917504 \<le> p \<and> p < 1047552"

definition area_inv :: "nat \<Rightarrow> nat \<Rightarrow> 'a paging_scheme \<Rightarrow> bool" where
  "area_inv L q s \<longleftrightarrow> vm_ok s \<and> tables_left (card (absent L s)) s \<and>
     (\<forall>i. area_entry i \<longrightarrow> frame_of (pmem s (cr3 s) i) \<noteq> cr3 s \<and>
        frame_of (pmem s (cr3 s) i) \<noteq> table_of s (placement_heap s)) \<and>
     (\<forall>i j. area_entry i \<and> area_entry j \<and> i \<noteq> j \<and> bit (pmem s (cr3 s) i) 0 \<and> bit (pmem s (cr3 s) j) 0 \<longrightarrow>
        frame_of (pmem s (cr3 s) i) \<noteq> frame_of (pmem s (cr3 s) j)) \<and>
     (\<forall>p. area_page p \<and> q \<le> p \<longrightarrow> (\<exists>e. translate (page_addr p) s = Inl e))"

lemma area_inv_later: "area_inv L q s \<Longrightarrow> q \<le> q' \<Longrightarrow> area_inv L q' s"
  by (auto simp: area_inv_def)

lemma area_page_entry: "area_page p \<Longrightarrow> p < 1048576 \<and> area_entry (pd_index (page_addr p))"
  by (auto simp: area_page_def area_entry_def page_addr_parts(4) div_less_iff_less_mult less_eq_div_iff_mult_less_eq)

text \<open>What the invariant needs of a state that agrees with another on the address space.\<close>

lemma area_inv_cong:
  assumes "pmem t = pmem s" "cr3 t = cr3 s" "page_bitmap t = page_bitmap s"
    "placement_heap t = placement_heap s"
  shows "area_inv L q t = area_inv L q s" "translate va t = translate va s" "in_use t = in_use s"
    "virt_to_phys va t = virt_to_phys va s"
  using assms by (simp_all add: area_inv_def vm_ok_def tables_left_def absent_def slot_free_def page_limit_def
      pages_ok_def in_use_def recursive_def translate_def Let_def virt_to_phys_def read32_def cong: if_cong)

lemma translate_Inl: "translate va s = Inl e \<Longrightarrow> bit (pde_of s va) 0 \<Longrightarrow> \<not> bit (pte_of s va) 0"
  by (auto simp: translate_def Let_def split: if_splits)

lemma translate_Inr: "translate va s = Inr f \<Longrightarrow> bit (pde_of s va) 0 \<and> bit (pte_of s va) 0"
  by (auto simp: translate_def Let_def split: if_splits)

section \<open>One page\<close>

lemma heap_page:
  assumes "tables_left n s" "k \<le> n"
  shows "pd_index (placement_heap s + page_addr k) = pd_index (placement_heap s)"
    "unat (pt_index (placement_heap s + page_addr k)) = unat (pt_index (placement_heap s)) + k"
    "IS_PAGE_ALIGNED (placement_heap s + page_addr k)"
proof -
  obtain m where m: "m < 1048576" "placement_heap s = page_addr m"
    using assms(1) page_addr_split by (auto simp: tables_left_def)
  have low: "m div 1024 < 896" "m mod 1024 + k < 1024"
    using assms page_addr_parts(4,6) [OF m(1)] by (auto simp: tables_left_def m(2))
  have div: "(m + k) div 1024 = m div 1024" "(m + k) mod 1024 = m mod 1024 + k"
    using low(2) div_add1_eq [of m k 1024] mod_add_eq [of m 1024 k] by simp_all
  have mk: "m + k < 1048576" using low mult_div_mod_eq [of 1024 m] by linarith
  show "pd_index (placement_heap s + page_addr k) = pd_index (placement_heap s)"
    "unat (pt_index (placement_heap s + page_addr k)) = unat (pt_index (placement_heap s)) + k"
    "IS_PAGE_ALIGNED (placement_heap s + page_addr k)"
    by (simp_all only: m(2) page_addr_add page_addr_parts(2,3,6) [OF mk] page_addr_parts(3,6) [OF m(1)] div)
qed

text \<open>What a step from \<open>s\<close> to \<open>t\<close> must have left alone.\<close>

definition area_step :: "nat \<Rightarrow> nat \<Rightarrow> 20 word \<Rightarrow> 'a paging_scheme \<Rightarrow> 'a paging_scheme \<Rightarrow> bool" where
  "area_step L p f s t \<longleftrightarrow> translate (page_addr p) t = Inr f \<and> area_inv L (Suc p) t \<and> in_use s \<subseteq> in_use t \<and>
     (\<forall>p'. area_page p' \<and> p' \<noteq> p \<longrightarrow> translate (page_addr p') t = translate (page_addr p') s)"

lemma area_step_present:
  assumes inv: "area_inv L q s" and p: "area_page p" "q \<le> p" and pa: "IS_PAGE_ALIGNED pa" "page_taken pa s"
    and present: "bit (pde_of s (page_addr p)) 0"
  shows "\<exists>t. page_map pa (page_addr p) rw user s = Inr t \<and> area_step L p (frame_of pa) s t"
proof -
  let ?va = "page_addr p"
  have entry: "area_entry (pd_index ?va)" "p < 1048576" using area_page_entry [OF p(1)] by simp_all
  have vm: "vm_ok s" and T: "table_of s ?va \<noteq> cr3 s" "table_of s ?va \<noteq> table_of s (placement_heap s)"
    using inv entry(1) by (auto simp: area_inv_def)
  obtain e where e: "translate ?va s = Inl e" using inv p by (auto simp: area_inv_def)
  have slot: "slot_free ?va s"
    using translate_Inl [OF e present] present T(1) entry(1) by (auto simp: slot_free_def area_entry_def)
  obtain t where t: "page_map pa ?va rw user s = Inr t" "translate ?va t = Inr (frame_of pa)" "vm_ok t" "in_use t = in_use s"
    "t = flush_tlb ?va (poke (table_of s ?va) (pt_index ?va) (new_entry pa rw user (pte_of s ?va)) s)"
    "\<forall>a. other_entry s a ?va \<longrightarrow> translate a t = translate a s"
    using page_map_slot_spec [OF vm pa(1) page_addr_parts(2) [OF entry(2)] pa(2) slot, of 2 rw user]
    unfolding page_map_def by (auto simp: eval_nat_numeral simp del: page_map_nested.simps)
  have dir: "cr3 t = cr3 s" "\<And>j. pmem t (cr3 s) j = pmem s (cr3 s) j" "placement_heap t = placement_heap s"
      "page_limit t = page_limit s" using T(1) by (simp_all add: t(5))
  have others: "translate (page_addr p') t = translate (page_addr p') s" if p': "area_page p'" "p' \<noteq> p" for p'
  proof (cases "bit (pde_of s (page_addr p')) 0")
    case True
    have "area_entry (pd_index (page_addr p'))" "p' < 1048576" using area_page_entry [OF p'(1)] by simp_all
    then have "other_entry s (page_addr p') ?va"
      using page_addr_entry [OF _ entry(2) p'(2)] True present entry(1) inv
      unfolding area_inv_def other_entry_def by metis
    then show ?thesis using t(6) by blast
  next
    case False
    then show ?thesis by (simp add: translate_def dir)
  qed
  have free: "slot_free b t" if b: "slot_free b s" "pd_index b = pd_index (placement_heap s)" for b
    using b T dir(2) by (simp add: slot_free_def dir(1)) (simp add: t(5) T(2) [symmetric])
  have absent: "absent L t = absent L s" by (simp add: absent_def dir)
  have left: "tables_left (card (absent L s)) s" using inv by (simp add: area_inv_def)
  then have "tables_left (card (absent L s)) t"
    using free heap_page(1) [OF left] by (simp add: tables_left_def dir t(4))
  then have "area_inv L (Suc p) t"
    using inv t(3) others p(2) by (simp add: area_inv_def absent dir)
  then show ?thesis using t(1,2,4) others by (auto simp: area_step_def)
qed

lemma area_step_new:
  assumes inv: "area_inv L q s" and p: "area_page p" "q \<le> p" "p < L" and pa: "IS_PAGE_ALIGNED pa" "page_taken pa s"
    and new: "\<not> bit (pde_of s (page_addr p)) 0"
  shows "\<exists>t. page_map pa (page_addr p) rw user s = Inr t \<and> area_step L p (frame_of pa) s t"
proof -
  let ?va = "page_addr p" and ?ph = "placement_heap s" and ?n = "card (absent L s)"
  have entry: "area_entry (pd_index ?va)" "p < 1048576" using area_page_entry [OF p(1)] by simp_all
  have vm: "vm_ok s" and left: "tables_left ?n s"
    and apart: "\<And>i. area_entry i \<Longrightarrow> frame_of (pmem s (cr3 s) i) \<noteq> cr3 s \<and> frame_of (pmem s (cr3 s) i) \<noteq> table_of s ?ph"
    using inv by (auto simp: area_inv_def)
  have in_absent: "pd_index ?va \<in> absent L s"
    using entry(1) new p(3) page_addr_parts(4) [OF entry(2)] by (auto simp: absent_def)
  then have n: "0 < ?n" by (auto simp: card_gt_0_iff)
  have window: "pd_index ?va \<noteq> 1023" and below: "pd_index ?ph \<noteq> pd_index ?va"
    using entry(1) left unfolding area_entry_def tables_left_def by (intro notI; simp)+
  have free: "slot_free (?ph + page_addr k) s" if "k < ?n" for k using left that by (simp add: tables_left_def)
  have "0 < card ({..<page_limit s} - in_use s)" using left n by (simp add: tables_left_def)
  then have "\<not> {..<page_limit s} \<subseteq> in_use s" by (simp add: card_gt_0_iff)
  then have ready: "heap_ready ?va s"
    using free [OF n] left below by (simp add: heap_ready_def tables_left_def page_addr_def)
  obtain t where t: "page_map pa ?va rw user s = Inr t" "translate ?va t = Inr (frame_of pa)" "vm_ok t"
      "placement_heap t = ?ph + PAGE_SIZE" "\<And>a. away s ?va a \<Longrightarrow> translate a t = translate a s" "cr3 t = cr3 s"
      "unat (table_of t ?va) \<notin> in_use s" "in_use t = insert (unat (table_of t ?va)) (in_use s)" "page_limit t = page_limit s"
    and dirs: "\<And>f w. unat f \<in> in_use s \<Longrightarrow> f \<noteq> table_of s ?ph \<Longrightarrow> f \<noteq> cr3 s \<or> w \<noteq> pd_index ?va \<Longrightarrow> pmem t f w = pmem s f w"
    using page_map_new_table [OF vm pa(1) page_addr_parts(2) [OF entry(2)] pa(2) window new ready, of 1 rw user]
    unfolding page_map_def by (auto simp: eval_nat_numeral simp del: page_map_nested.simps)
  have "unat (cr3 s) \<in> in_use s" and "cr3 s \<noteq> table_of s ?ph"
    using vm ready by (auto simp: vm_ok_def heap_ready_def slot_free_def)
  then have dir: "pmem t (cr3 s) w = pmem s (cr3 s) w" if "w \<noteq> pd_index ?va" for w using that by (intro dirs) auto
  have fresh: "table_of t ?va \<noteq> cr3 s" "table_of t ?va \<noteq> frame_of (pmem s (cr3 s) i)" for i
    using t(7) vm by (auto simp: vm_ok_def)
  have present: "bit (pde_of t ?va) 0" using translate_Inr [OF t(2)] by simp
  have others: "translate (page_addr p') t = translate (page_addr p') s" if p': "area_page p'" "p' \<noteq> p" for p'
    using apart [of "pd_index (page_addr p')"] area_page_entry [OF p'(1)] page_addr_entry [OF _ entry(2) p'(2)]
    by (intro t(5)) (auto simp: away_def other_entry_def)
  have next_heap: "placement_heap t = ?ph + page_addr 1" by (simp add: t(4) page_addr_def PAGE_SIZE_eq)
  have absent: "absent L t = absent L s - {pd_index ?va}"
    using present dir by (auto simp: absent_def t(6)) metis+
  have n1: "card (absent L t) = ?n - 1" using in_absent by (simp add: absent)
  have heap_table: "pd_index (placement_heap t) = pd_index ?ph"
    unfolding next_heap using n by (intro heap_page(1) [OF left]) simp
  have "slot_free (placement_heap t + page_addr k) t" if k: "k < ?n - 1" for k
  proof -
    let ?b = "?ph + page_addr (Suc k)"
    have b: "slot_free ?b s" "pd_index ?b = pd_index ?ph" "unat (pt_index ?b) = unat (pt_index ?ph) + Suc k"
      using free [of "Suc k"] heap_page(1,2) [OF left, of "Suc k"] k by simp_all
    have "translate ?b t = translate ?b s"
      using b below by (intro t(5)) (auto simp: away_def other_entry_def slot_free_def)
    then have "translate ?b t = Inl (Page_Fault ?b)" using b(1) by (simp add: translate_def slot_free_def)
    moreover have "pde_of t ?b = pde_of s ?b" using b(2) below by (simp add: t(6) dir)
    ultimately have "slot_free ?b t" using b(1) translate_Inl [of ?b t] by (auto simp: slot_free_def t(6))
    then show ?thesis by (simp add: next_heap add.assoc page_addr_add)
  qed
  moreover have "?n - 1 \<le> card ({..<page_limit t} - in_use t)"
  proof -
    have "{..<page_limit t} - in_use t = ({..<page_limit s} - in_use s) - {unat (table_of t ?va)}"
      using t(8,9) by auto
    then have "card ({..<page_limit s} - in_use s) - 1 \<le> card ({..<page_limit t} - in_use t)"
      by (simp add: card_Diff_singleton_if)
    moreover have "?n \<le> card ({..<page_limit s} - in_use s)" using left by (simp add: tables_left_def)
    ultimately show ?thesis by linarith
  qed
  ultimately have "tables_left (card (absent L t)) t"
    using left n heap_page [OF left, of 1] unfolding n1 by (simp add: tables_left_def next_heap)
  moreover have "frame_of (pmem t (cr3 t) i) \<noteq> cr3 t \<and> frame_of (pmem t (cr3 t) i) \<noteq> table_of t (placement_heap t)"
    if "area_entry i" for i
    using apart [OF that] fresh dir [of i] dir [of "pd_index ?ph"] below
    by (cases "i = pd_index ?va") (auto simp: t(6) heap_table)
  moreover have "frame_of (pmem t (cr3 t) i) \<noteq> frame_of (pmem t (cr3 t) j)"
    if ij: "area_entry i" "area_entry j" "i \<noteq> j" "bit (pmem t (cr3 t) i) 0" "bit (pmem t (cr3 t) j) 0" for i j
  proof -
    consider "i = pd_index ?va" | "j = pd_index ?va" | "i \<noteq> pd_index ?va" "j \<noteq> pd_index ?va" by blast
    then show ?thesis
    proof cases
      case 3
      then show ?thesis using ij dir inv by (simp add: t(6) area_inv_def)
    qed (use ij(3) fresh fresh(2) [symmetric] dir in \<open>simp_all add: t(6)\<close>)
  qed
  moreover have "\<exists>e. translate (page_addr p') t = Inl e" if "area_page p'" "Suc p \<le> p'" for p'
    using others [OF that(1)] that inv p(2) by (auto simp: area_inv_def)
  ultimately have "area_inv L (Suc p) t" using t(3) by (simp add: area_inv_def)
  then show ?thesis using t(1,2,8) others by (auto simp: area_step_def)
qed

lemma page_map_area:
  assumes "area_inv L q s" "area_page p" "q \<le> p" "p < L" "IS_PAGE_ALIGNED pa" "page_taken pa s"
  shows "\<exists>t. page_map pa (page_addr p) rw user s = Inr t \<and> area_step L p (frame_of pa) s t"
  using area_step_present [OF assms(1-3,5,6)] area_step_new [OF assms] by blast

text \<open>The start: the area has no tables at all.\<close>

definition area_empty :: "'a paging_scheme \<Rightarrow> bool" where
  "area_empty s \<longleftrightarrow> vm_ok s \<and> (\<forall>i. area_entry i \<longrightarrow> pmem s (cr3 s) i = 0) \<and> cr3 s \<noteq> 0 \<and>
     table_of s (placement_heap s) \<noteq> 0"

lemma absent_bound: "L \<le> 917504 + 4194304 div 4096 * n \<Longrightarrow> card (absent L s) \<le> n"
proof -
  assume "L \<le> 917504 + 4194304 div 4096 * n"
  then have "unat ` absent L s \<subseteq> {896..<896 + n}" by (auto simp: absent_def area_entry_def)
  then have "card (unat ` absent L s) \<le> n" using card_mono [of "{896..<896 + n}"] by fastforce
  moreover have "card (unat ` absent L s) = card (absent L s)" by (rule card_image) (auto intro!: inj_onI simp: word_unat_eq_iff)
  ultimately show ?thesis by simp
qed

lemma tables_left_less: "tables_left n s \<Longrightarrow> m \<le> n \<Longrightarrow> tables_left m s"
  by (auto simp: tables_left_def)

lemma area_inv_start:
  assumes "area_empty s" "tables_left n s" "L \<le> 917504 + 1024 * n"
  shows "area_inv L q s"
proof -
  have "tables_left (card (absent L s)) s"
    using tables_left_less [OF assms(2)] absent_bound [of L n s] assms(3) by simp
  moreover have "translate (page_addr p) s = Inl (Page_Fault (page_addr p))" if "area_page p" for p
    using assms(1) area_page_entry [OF that] by (simp add: translate_def area_empty_def)
  ultimately show ?thesis using assms(1) by (auto simp: area_inv_def area_empty_def frame_of_def)
qed

end
