(* ===== verification/Modules.thy ===== *)
theory Modules
  imports PhysInit CString AreaMap
begin

text \<open>
  The table of boot modules (\<open>kernel/kernel/module.c\<close>). The entries lie in the memory \<open>kcalloc\<close> gives:
  their names are bytes of it, their other two fields typed stores indexed by the entry's address. The pages of a
  module are mapped one after the other into an area of their own (theory \<open>AreaMap\<close>).
\<close>

record modules = boot +
  module_table :: u32
  module_table_size :: u32
  module_addr :: "u32 \<Rightarrow> u32"
  module_size :: "u32 \<Rightarrow> u32"

definition MODULES_START_ADDR :: u32 where "MODULES_START_ADDR = 0xE0000000"
definition sizeof_module :: u32 where "sizeof_module = 16"

text \<open>The C string at an address, as \<open>%s\<close> reads it.\<close>

definition text_at :: "mem \<Rightarrow> u32 \<Rightarrow> string kres" where
  "text_at m p = (case strlen p m of
     None \<Rightarrow> Inl (Undefined ''unterminated string'')
   | Some n \<Rightarrow> Inr (map (\<lambda>b. char_of (unat b)) (bytes_at m p (unat n))))"

definition entry_at :: "u32 \<Rightarrow> nat \<Rightarrow> u32" where
  "entry_at table i = table + sizeof_module * of_nat i"

text \<open>The loop that maps the pages of one module.\<close>

primrec map_module_pages :: "nat \<Rightarrow> u32 \<Rightarrow> u32 \<Rightarrow> u32 \<Rightarrow> 'a modules_scheme \<Rightarrow> ('a modules_scheme) kres" where
  "map_module_pages 0 k phys virt s = Inr s"
| "map_module_pages (Suc n) k phys virt s =
     kbind (page_map (phys + push_bit PAGE_SIZE_SHIFT k) (virt + push_bit PAGE_SIZE_SHIFT k) False False s)
       (map_module_pages n (k + 1) phys virt)"

definition aligned_size :: "multiboot_mod_list \<Rightarrow> u32" where
  "aligned_size m = PAGE_ALIGN_UP (mod_end m) - PAGE_ALIGN_DOWN (mod_start m)"

definition add_module :: "u32 \<Rightarrow> u32 \<Rightarrow> u32 \<Rightarrow> 'a modules_scheme \<Rightarrow> ('a modules_scheme) kres" where
  "add_module i md offset s =
     (let m = mod_lists s md; e = module_table s + sizeof_module * i;
          start = PAGE_ALIGN_DOWN (mod_start m);
          pages = drop_bit PAGE_SIZE_SHIFT (aligned_size m)
      in kbind (map_module_pages (unat pages) 0 start (MODULES_START_ADDR + offset) s) (\<lambda>s1.
         let s2 = s1\<lparr>module_addr := (module_addr s1)(e := (MODULES_START_ADDR + offset) + (mod_start m mod PAGE_SIZE)),
                    module_size := (module_size s1)(e := mod_end m - mod_start m)\<rparr>
         in Inr (if mod_cmdline m \<noteq> 0
                 then s2\<lparr>payload := snd (strncpy e (mod_cmdline m + 2) 7 (payload s2))\<rparr> else s2)))"

definition print_module :: "u32 \<Rightarrow> u32 \<Rightarrow> 'a modules_scheme \<Rightarrow> ('a modules_scheme) kres" where
  "print_module i md s =
     (let m = mod_lists s md in
      kbind (printf (''   module %u (%p):'' @ [CHR 0x0A]) [VInt i, VInt md] s) (\<lambda>s1.
      kbind (printf (''      mod_start = %p'' @ [CHR 0x0A]) [VInt (mod_start m)] s1) (\<lambda>s2.
      kbind (printf (''      mod_end   = %p'' @ [CHR 0x0A]) [VInt (mod_end m)] s2) (\<lambda>s3.
      kbind (if mod_cmdline m \<noteq> 0 then text_at (payload s3) (mod_cmdline m) else Inr ''<null>'') (\<lambda>cmdline.
      printf (''      cmdline   = %p ('' @ [CHR 0x22] @ ''%s'' @ [CHR 0x22] @ '')'' @ [CHR 0x0A])
        [VInt (mod_cmdline m), VStr cmdline] s3)))))"

primrec modules_loop :: "nat \<Rightarrow> u32 \<Rightarrow> u32 \<Rightarrow> u32 \<Rightarrow> 'a modules_scheme \<Rightarrow> ('a modules_scheme) kres" where
  "modules_loop 0 i md offset s = Inr s"
| "modules_loop (Suc n) i md offset s =
     kbind (kassert (md \<noteq> 0) ''mod'') (\<lambda>_.
     kbind (print_module i md s) (\<lambda>s1.
     kbind (add_module i md offset s1) (\<lambda>s2.
     modules_loop n (i + 1) (md + 16) (offset + (aligned_size (mod_lists s md) + PAGE_SIZE)) s2)))"

definition module_table_init :: "nat \<Rightarrow> u32 \<Rightarrow> 'a modules_scheme \<Rightarrow> ('a modules_scheme) kres" where
  "module_table_init fuel ra s =
     (let mbi = g_multiboot_info s in
      kbind (printf (''%u Multiboot module%s found'' @ [CHR 0x0A])
        [VInt (mods_count mbi), VStr (if mods_count mbi = 1 then '''' else ''s'')] s) (\<lambda>s1.
      let s2 = s1\<lparr>module_table_size := mods_count mbi\<rparr> in
      if module_table_size s2 = 0 then Inr s2
      else
        kbind (kcalloc fuel ra (module_table_size s2) sizeof_module s2) (\<lambda>(table, s3).
        modules_loop (unat (module_table_size s3)) 0 (mods_addr mbi) 0 (s3\<lparr>module_table := table\<rparr>))))"

text \<open>The loop over the table, from entry \<open>i\<close> on; \<open>strcmp\<close> without a result reads for ever.\<close>

primrec find_module :: "nat \<Rightarrow> u32 \<Rightarrow> u32 \<Rightarrow> 'a modules_scheme \<Rightarrow> u32 kres" where
  "find_module 0 i name s = Inr 0"
| "find_module (Suc n) i name s =
     (let e = module_table s + sizeof_module * i in
      case strcmp name e (payload s) of
        None \<Rightarrow> Inl (Undefined ''unterminated string'')
      | Some r \<Rightarrow> if r = 0 then Inr (module_addr s e) else find_module n (i + 1) name s)"

definition get_module_by_name :: "u32 \<Rightarrow> 'a modules_scheme \<Rightarrow> u32 kres" where
  "get_module_by_name name s = find_module (unat (module_table_size s)) 0 name s"

section \<open>Looking up a module\<close>

definition names_ok :: "'a modules_scheme \<Rightarrow> u32 \<Rightarrow> u8 list list \<Rightarrow> bool" where
  "names_ok s i names \<longleftrightarrow> (\<forall>j < length names. cstr_at (payload s) (entry_at (module_table s) (unat i + j)) (names ! j))"

text \<open>The address of the first of the entries, from number \<open>i\<close> on, whose name is \<open>w\<close>; null if there is none.\<close>

primrec first_named :: "'a modules_scheme \<Rightarrow> nat \<Rightarrow> u8 list list \<Rightarrow> u8 list \<Rightarrow> u32" where
  "first_named s i [] w = 0"
| "first_named s i (n # names) w =
     (if n = w then module_addr s (entry_at (module_table s) i) else first_named s (Suc i) names w)"

lemma find_module_first:
  "cstr_at (payload s) name w \<Longrightarrow>
    (\<And>j. j < length names \<Longrightarrow> cstr_at (payload s) (entry_at (module_table s) (k + j)) (names ! j)) \<Longrightarrow>
    find_module (length names) (of_nat k) name s = Inr (first_named s k names w)"
proof (induction names arbitrary: k)
  case (Cons n names)
  have e: "module_table s + sizeof_module * of_nat k = entry_at (module_table s) k" by (simp add: entry_at_def)
  have "cstr_at (payload s) (entry_at (module_table s) k) n" using Cons.prems(2) [of 0] by simp
  from strcmp_cstr [OF Cons.prems(1) this] obtain r where
    r: "strcmp name (entry_at (module_table s) k) (payload s) = Some r" "r = 0 \<longleftrightarrow> w = n" by blast
  have "find_module (length names) (of_nat (Suc k)) name s = Inr (first_named s (Suc k) names w)"
    using Cons.prems(2) [of "Suc j" for j] by (intro Cons.IH [OF Cons.prems(1)]) simp
  then show ?case using r by (auto simp: Let_def e add.commute)
qed simp

text \<open>\<open>get_module_by_name\<close> returns the address of the first module of the table whose name is the
  string it is given, and NULL if no module has that name; it ends whenever the names end.\<close>

theorem get_module_by_name_first:
  assumes "cstr_at (payload s) name w" and "length names = unat (module_table_size s)" and "names_ok s 0 names"
  shows "get_module_by_name name s = Inr (first_named s 0 names w)"
  using find_module_first [OF assms(1), of names 0] assms(2,3)
  by (simp add: get_module_by_name_def names_ok_def)

section \<open>The layout of the modules\<close>

lemma write32_more: "write32 va v s = Inr t \<Longrightarrow> paging.more t = paging.more s"
  by (auto simp: write32_def kbind_eq_Inr poke_def)

lemma update32_more: "update32 va f s = Inr t \<Longrightarrow> paging.more t = paging.more s"
  by (auto simp: update32_def kbind_eq_Inr dest: write32_more)

lemma zero_words_more: "zero_words n va s = Inr t \<Longrightarrow> paging.more t = paging.more s"
  by (induction n arbitrary: va s) (auto simp: kbind_eq_Inr dest: write32_more)

lemma page_alloc_more: "page_alloc p s = Inr (r, t) \<Longrightarrow> paging.more t = paging.more s"
  by (auto simp: page_alloc_def kbind_eq_Inr split: if_splits)

lemma structure_alloc_more:
  assumes "\<And>pa va rw us s t. mapper pa va rw us s = Inr t \<Longrightarrow> paging.more t = paging.more s"
  shows "structure_alloc_with mapper s = Inr (r, t) \<Longrightarrow> paging.more t = paging.more s"
  by (auto simp: structure_alloc_with_def kbind_eq_Inr split: option.splits
      dest!: page_alloc_more zero_words_more assms)

lemma page_map_with_more:
  assumes alloc: "\<And>s t r. alloc s = Inr (r, t) \<Longrightarrow> paging.more t = paging.more s"
  shows "page_map_with alloc pa va rw us s = Inr t \<Longrightarrow> paging.more t = paging.more s"
  unfolding page_map_with_def kbind_eq_Inr
  by (auto simp: kbind_eq_Inr flush_tlb_def split: if_splits dest!: update32_more alloc)

lemma page_map_more: "page_map pa va rw us s = Inr t \<Longrightarrow> paging.more t = paging.more s"
proof -
  have "page_map_nested n pa va rw us s = Inr t \<Longrightarrow> paging.more t = paging.more s" for n pa va rw us s t
  proof (induction n arbitrary: pa va rw us s t)
    case (Suc n)
    then show ?case using page_map_with_more structure_alloc_more by (metis page_map_nested.simps(2))
  qed simp
  then show "page_map pa va rw us s = Inr t \<Longrightarrow> paging.more t = paging.more s"
    by (simp add: page_map_def)
qed

lemma module_fields_in_more:
  "paging.more t = paging.more s \<Longrightarrow>
    module_addr t = module_addr s \<and> module_size t = module_size s \<and> module_table t = module_table s \<and> mod_lists t = mod_lists s"
  by (cases s rule: modules.cases_scheme, cases t rule: modules.cases_scheme) simp

lemma map_module_pages_more: "map_module_pages n k phys virt s = Inr t \<Longrightarrow> paging.more t = paging.more s"
  by (induction n arbitrary: k s) (auto simp: kbind_eq_Inr dest: page_map_more)

lemma printf_fields:
  "printf fmt args s = Inr t \<Longrightarrow> module_addr t = module_addr s \<and> module_size t = module_size s \<and>
    module_table t = module_table s \<and> mod_lists t = mod_lists s"
  by (auto simp: printf_def kbind_eq_Inr)

lemma print_module_fields:
  "print_module i md s = Inr t \<Longrightarrow> module_addr t = module_addr s \<and> module_size t = module_size s \<and>
    module_table t = module_table s \<and> mod_lists t = mod_lists s"
  by (auto simp: print_module_def kbind_eq_Inr Let_def split: if_splits dest!: printf_fields)

lemma add_module_fields:
  assumes "add_module i md offset s = Inr t"
  defines "e \<equiv> module_table s + sizeof_module * i" and "m \<equiv> mod_lists s md"
  shows "module_addr t = (module_addr s)(e := (MODULES_START_ADDR + offset) + (mod_start m mod PAGE_SIZE)) \<and>
    module_size t = (module_size s)(e := mod_end m - mod_start m) \<and>
    module_table t = module_table s \<and> mod_lists t = mod_lists s"
  using assms(1) unfolding add_module_def Let_def e_def m_def
  by (auto simp: kbind_eq_Inr dest!: map_module_pages_more module_fields_in_more)

text \<open>The offset of module \<open>j\<close> behind that of the first.\<close>

primrec module_offset :: "'a modules_scheme \<Rightarrow> u32 \<Rightarrow> nat \<Rightarrow> u32" where
  "module_offset s md 0 = 0"
| "module_offset s md (Suc j) =
     (aligned_size (mod_lists s md) + PAGE_SIZE) + module_offset s (md + 16) j"

lemma module_offset_cong: "mod_lists s = mod_lists t \<Longrightarrow> module_offset s md j = module_offset t md j"
  by (induction j arbitrary: md) simp_all

definition slot :: "'a modules_scheme \<Rightarrow> u32 \<Rightarrow> nat \<Rightarrow> u32" where
  "slot s i j = module_table s + sizeof_module * (i + of_nat j)"

lemma slot_Suc: "slot s (i + 1) j = slot s i (Suc j)" and slot_0: "slot s i 0 = module_table s + sizeof_module * i"
  by (simp_all add: slot_def algebra_simps)

lemma slot_inj: "j < 268435456 \<Longrightarrow> k < 268435456 \<Longrightarrow> slot s i j = slot s i k \<longleftrightarrow> j = k"
proof
  assume jk: "j < 268435456" "k < 268435456" and "slot s i j = slot s i k"
  then have "(of_nat (16 * j) :: u32) = of_nat (16 * k)"
    by (simp add: slot_def sizeof_module_def algebra_simps)
  then show "j = k" using jk u32_of_nat_inj [of "16 * j" "16 * k"] by simp
qed simp

lemma modules_loop_spec:
  "modules_loop n i md offset s = Inr t \<Longrightarrow> n \<le> 268435456 \<Longrightarrow>
    (\<forall>j < n. module_addr t (slot s i j) =
        MODULES_START_ADDR + (offset + module_offset s md j) + mod_start (mod_lists s (descriptor md j)) mod PAGE_SIZE \<and>
      module_size t (slot s i j) =
        mod_end (mod_lists s (descriptor md j)) - mod_start (mod_lists s (descriptor md j))) \<and>
    (\<forall>e. (\<forall>j < n. e \<noteq> slot s i j) \<longrightarrow> module_addr t e = module_addr s e \<and> module_size t e = module_size s e)"
proof (induction n arbitrary: i md offset s)
  case (Suc n)
  then obtain s1 s2 where s1: "print_module i md s = Inr s1" and s2: "add_module i md offset s1 = Inr s2"
    and loop: "modules_loop n (i + 1) (md + 16) (offset + (aligned_size (mod_lists s md) + PAGE_SIZE)) s2 = Inr t"
    by (auto simp: kbind_eq_Inr)
  note f1 = print_module_fields [OF s1] and f2 = add_module_fields [OF s2]
  have lists: "mod_lists s2 = mod_lists s" and table: "module_table s2 = module_table s" using f1 f2 by simp_all
  have slots: "slot s2 (i + 1) j = slot s i (Suc j)" for j
    unfolding slot_Suc by (simp add: slot_def table)
  have off: "module_offset s2 (md + 16) j = module_offset s (md + 16) j" for j
    using lists by (rule module_offset_cong)
  note IH = Suc.IH [OF loop, unfolded lists off slots descriptor_simps]
  have rest: "\<forall>j < n. module_addr t (slot s i (Suc j)) = MODULES_START_ADDR +
        (offset + (aligned_size (mod_lists s md) + PAGE_SIZE) + module_offset s (md + 16) j) +
        mod_start (mod_lists s (descriptor md (Suc j))) mod PAGE_SIZE \<and>
      module_size t (slot s i (Suc j)) =
        mod_end (mod_lists s (descriptor md (Suc j))) - mod_start (mod_lists s (descriptor md (Suc j)))"
    and frame: "\<forall>e. (\<forall>j < n. e \<noteq> slot s i (Suc j)) \<longrightarrow>
      module_addr t e = module_addr s2 e \<and> module_size t e = module_size s2 e"
    using IH Suc.prems(2) by simp_all
  have "slot s i 0 \<noteq> slot s i (Suc j)" if "j < n" for j
    using slot_inj [of 0 "Suc j" s i] that Suc.prems(2) by simp
  then have "module_addr t (slot s i 0) = module_addr s2 (slot s i 0)"
    "module_size t (slot s i 0) = module_size s2 (slot s i 0)" using frame by blast+
  then have first: "module_addr t (slot s i 0) = MODULES_START_ADDR + offset + mod_start (mod_lists s md) mod PAGE_SIZE"
    "module_size t (slot s i 0) = mod_end (mod_lists s md) - mod_start (mod_lists s md)"
    using f1 f2 by (simp_all add: slot_0)
  have "module_addr t e = module_addr s e \<and> module_size t e = module_size s e"
    if e: "\<forall>j < Suc n. e \<noteq> slot s i j" for e
  proof -
    have "e \<noteq> slot s i 0" "\<forall>j < n. e \<noteq> slot s i (Suc j)" using e by auto
    then show ?thesis using frame f1 f2 by (simp add: slot_0)
  qed
  moreover have "module_addr t (slot s i j) =
        MODULES_START_ADDR + (offset + module_offset s md j) + mod_start (mod_lists s (descriptor md j)) mod PAGE_SIZE \<and>
      module_size t (slot s i j) =
        mod_end (mod_lists s (descriptor md j)) - mod_start (mod_lists s (descriptor md j))" if "j < Suc n" for j
    using that first rest by (cases j) (simp_all add: descriptor_simps add.assoc)
  ultimately show ?case by blast
qed simp

section \<open>The modules do not overlap\<close>

lemma unat_PAGE_ALIGN_UP:
  "unat a + 4095 < 4294967296 \<Longrightarrow> unat (PAGE_ALIGN_UP a) = 4096 * ((unat a + 4095) div 4096)"
  using unat_page_base [of "a + 4095"] by (simp add: PAGE_ALIGN_UP_def PAGE_SIZE_eq u32_add_no_wrap)

text \<open>A module with a proper range that does not reach into the last page of the address space.\<close>

definition proper_range :: "multiboot_mod_list \<Rightarrow> bool" where
  "proper_range m \<longleftrightarrow> mod_start m \<le> mod_end m \<and> unat (mod_end m) + 4095 < 4294967296"

lemma module_in_pages:
  assumes "proper_range m"
  shows "unat (mod_start m mod PAGE_SIZE) + unat (mod_end m - mod_start m) \<le> unat (aligned_size m)"
proof -
  let ?a = "unat (mod_start m)" and ?b = "unat (mod_end m)"
  have ab: "?a \<le> ?b" "?b + 4095 < 4294967296" using assms by (simp_all add: proper_range_def word_le_nat_alt)
  have up: "?b \<le> 4096 * ((?b + 4095) div 4096)"
    using div_mult_mod_eq [of "?b + 4095" 4096] mod_less_divisor [of 4096 "?b + 4095"] by linarith
  have down: "4096 * (?a div 4096) + ?a mod 4096 = ?a" by simp
  have "unat (aligned_size m) = 4096 * ((?b + 4095) div 4096) - 4096 * (?a div 4096)"
    unfolding aligned_size_def using ab up down
    by (subst u32_sub_no_wrap) (simp_all add: unat_PAGE_ALIGN_DOWN unat_PAGE_ALIGN_UP)
  moreover have "unat (mod_end m - mod_start m) = ?b - ?a" using ab by (simp add: u32_sub_no_wrap)
  moreover have "unat (mod_start m mod PAGE_SIZE) = ?a mod 4096" by (simp add: PAGE_SIZE_eq unat_mod)
  ultimately show ?thesis using ab(1) up down by linarith
qed

text \<open>The bytes of address space that module \<open>j\<close> and its blank page take, and those of the first \<open>j\<close>.\<close>

definition span :: "'a modules_scheme \<Rightarrow> u32 \<Rightarrow> nat \<Rightarrow> nat" where
  "span s md j = unat (aligned_size (mod_lists s (descriptor md j))) + 4096"

definition spans :: "'a modules_scheme \<Rightarrow> u32 \<Rightarrow> nat \<Rightarrow> nat" where
  "spans s md j = sum_list (map (span s md) [0..<j])"

lemma spans_Suc: "spans s md (Suc j) = spans s md j + span s md j"
  by (simp add: spans_def)

lemma spans_mono: "j \<le> k \<Longrightarrow> spans s md j \<le> spans s md k"
  by (induction k) (auto simp: spans_Suc le_Suc_eq)

lemma span_shift: "span s (md + 16) j = span s md (Suc j)"
  by (simp add: span_def descriptor_simps)

lemma spans_shift: "spans s md (Suc j) = span s md 0 + spans s (md + 16) j"
  by (induction j) (simp_all add: spans_Suc span_shift spans_def)

lemma unat_module_offset: "spans s md j < 4294967296 \<Longrightarrow> unat (module_offset s md j) = spans s md j"
proof (induction j arbitrary: md)
  case (Suc j)
  have s: "spans s md (Suc j) = unat (aligned_size (mod_lists s md)) + 4096 + spans s (md + 16) j"
    by (simp add: spans_shift span_def descriptor_simps)
  then have o: "unat (module_offset s (md + 16) j) = spans s (md + 16) j"
    using Suc.IH [of "md + 16"] Suc.prems by simp
  have "unat (aligned_size (mod_lists s md) + PAGE_SIZE) = unat (aligned_size (mod_lists s md)) + 4096"
    using s Suc.prems by (simp add: u32_add_no_wrap PAGE_SIZE_eq)
  then show ?case using o s Suc.prems by (simp add: u32_add_no_wrap)
qed (simp add: spans_def)

section \<open>The pages of the modules\<close>

definition pages_of :: "multiboot_mod_list \<Rightarrow> nat" where
  "pages_of m = (unat (mod_end m) + 4095) div 4096 - unat (mod_start m) div 4096"

lemma aligned_size_pages:
  assumes "proper_range m"
  shows "aligned_size m = page_addr (pages_of m)" "unat (aligned_size m) = 4096 * pages_of m"
    "unat (drop_bit PAGE_SIZE_SHIFT (aligned_size m)) = pages_of m"
proof -
  let ?a = "unat (mod_start m)" and ?b = "unat (mod_end m)"
  have ab: "?a \<le> ?b" "?b + 4095 < 4294967296" using assms by (simp_all add: proper_range_def word_le_nat_alt)
  then have le: "?a div 4096 \<le> (?b + 4095) div 4096" by (intro div_le_mono) simp
  have "unat (aligned_size m) = 4096 * ((?b + 4095) div 4096) - 4096 * (?a div 4096)"
    unfolding aligned_size_def using ab le
    by (subst u32_sub_no_wrap) (simp_all add: unat_PAGE_ALIGN_DOWN unat_PAGE_ALIGN_UP)
  then show u: "unat (aligned_size m) = 4096 * pages_of m" by (simp add: pages_of_def diff_mult_distrib2)
  then have "pages_of m < 1048576" using unat_lt_2p [of "aligned_size m"] by simp
  then show "aligned_size m = page_addr (pages_of m)" using u by (simp add: word_unat_eq_iff page_addr_parts(1))
  show "unat (drop_bit PAGE_SIZE_SHIFT (aligned_size m)) = pages_of m"
    by (simp add: PAGE_SIZE_SHIFT_def unat_drop_bit_u32 u)
qed

lemma page_of_start: "PAGE_ALIGN_DOWN a = page_addr (unat a div 4096)"
proof -
  have "unat a div 4096 < 1048576" using unat_lt_2p [of a] by (simp add: less_mult_imp_div_less)
  then show ?thesis by (simp add: word_unat_eq_iff unat_PAGE_ALIGN_DOWN page_addr_parts(1))
qed

lemma map_module_pages_runs:
  assumes "917504 \<le> P" "L \<le> 1047552"
  shows "area_inv L (P + k) s \<Longrightarrow> P + k + n \<le> L \<Longrightarrow> (\<And>j. j < n \<Longrightarrow> page_taken (page_addr (Q + k + j)) s) \<Longrightarrow>
    \<exists>t. map_module_pages n (of_nat k) (page_addr Q) (page_addr P) s = Inr t \<and> area_inv L (P + k + n) t \<and>
      in_use s \<subseteq> in_use t \<and>
      (\<forall>j < n. translate (page_addr (P + k + j)) t = Inr (frame_of (page_addr (Q + k + j)))) \<and>
      (\<forall>p. area_page p \<and> (p < P + k \<or> P + k + n \<le> p) \<longrightarrow> translate (page_addr p) t = translate (page_addr p) s)"
proof (induction n arbitrary: k s)
  case (Suc n)
  have area: "area_page (P + k)" using assms Suc.prems(2) by (simp add: area_page_def)
  obtain u where u: "page_map (page_addr (Q + k)) (page_addr (P + k)) False False s = Inr u"
    "area_step L (P + k) (frame_of (page_addr (Q + k))) s u"
    using page_map_area [OF Suc.prems(1) area le_refl _ aligned_page_addr, of "Q + k" False False] Suc.prems(2)
      Suc.prems(3) [of 0] by auto
  have u': "area_inv L (P + Suc k) u" "in_use s \<subseteq> in_use u" "translate (page_addr (P + k)) u = Inr (frame_of (page_addr (Q + k)))"
      "\<And>p. area_page p \<Longrightarrow> p \<noteq> P + k \<Longrightarrow> translate (page_addr p) u = translate (page_addr p) s"
    using u(2) by (auto simp: area_step_def)
  have "page_taken (page_addr (Q + Suc k + j)) u" if "j < n" for j
    using Suc.prems(3) [of "Suc j"] that u'(2) by (auto simp: page_taken_def)
  then obtain t where t: "map_module_pages n (of_nat (Suc k)) (page_addr Q) (page_addr P) u = Inr t"
      "area_inv L (P + Suc k + n) t" "in_use u \<subseteq> in_use t"
      "\<forall>j < n. translate (page_addr (P + Suc k + j)) t = Inr (frame_of (page_addr (Q + Suc k + j)))"
      "\<forall>p. area_page p \<and> (p < P + Suc k \<or> P + Suc k + n \<le> p) \<longrightarrow> translate (page_addr p) t = translate (page_addr p) u"
    using Suc.IH [OF u'(1)] Suc.prems(2) by auto
  have "translate (page_addr (P + k)) t = Inr (frame_of (page_addr (Q + k)))" using t(5) u'(3) area by simp
  then have "\<forall>j < Suc n. translate (page_addr (P + k + j)) t = Inr (frame_of (page_addr (Q + k + j)))"
    using t(4) by (auto simp: less_Suc_eq_0_disj)
  moreover have "map_module_pages (Suc n) (of_nat k) (page_addr Q) (page_addr P) s = Inr t"
    using u(1) t(1) by (simp add: PAGE_SIZE_SHIFT_def page_addr_push page_addr_add add.commute)
  ultimately show ?case using t(2,3,5) u'(2,4) by (intro exI [of _ t]) (auto simp del: map_module_pages.simps)
qed auto

section \<open>Printing and adding a module\<close>

text \<open>The command line is a string that fits the buffer of \<open>printf\<close>, apart from the bytes \<open>T\<close>.\<close>

definition cmdline_ok :: "u32 set \<Rightarrow> mem \<Rightarrow> multiboot_mod_list \<Rightarrow> bool" where
  "cmdline_ok T m md \<longleftrightarrow> mod_cmdline md = 0 \<or>
     (\<exists>bs. cstr_at m (mod_cmdline md) bs \<and> length bs \<le> 400 \<and> addrs (mod_cmdline md) (Suc (length bs)) \<inter> T = {})"

lemma cmdline_ok_cong: "(\<And>a. a \<notin> T \<Longrightarrow> m' a = m a) \<Longrightarrow> cmdline_ok T m md \<Longrightarrow> cmdline_ok T m' md"
  unfolding cmdline_ok_def using cstr_at_cong by (metis disjoint_iff)

lemma bytes_at_length [simp]: "length (bytes_at m p n) = n"
  by (induction n arbitrary: p) simp_all

lemma text_at_cstr:
  assumes "cstr_at m p bs" "length bs \<le> 400"
  shows "\<exists>text. text_at m p = Inr text \<and> length text \<le> 400"
proof -
  have "strlen p m = Some (of_nat (length bs))" using strlen_scan_cstr [OF assms(1)] by (simp add: strlen_def)
  then show ?thesis using assms(2) by (simp add: text_at_def unat_of_nat_u32)
qed

lemma length_cstring_of: "length (cstring_of t) \<le> length t"
  by (simp add: cstring_of_def length_takeWhile_le)

lemma print_module_ends:
  assumes "cmdline_ok T (payload s) (mod_lists s md)"
  shows "\<exists>msgs. print_module i md s = Inr (s\<lparr>con_log := con_log s @ msgs\<rparr>)"
proof -
  let ?m = "mod_lists s md"
  have p: "\<exists>msg. printf (''   module %u (%p):'' @ [CHR 0x0A]) [VInt i, VInt md] s = Inr (s\<lparr>con_log := con_log s @ [Printed msg]\<rparr>)"
    "\<exists>msg. printf (''      mod_start = %p'' @ [CHR 0x0A]) [VInt a] s = Inr (s\<lparr>con_log := con_log s @ [Printed msg]\<rparr>)"
    "\<exists>msg. printf (''      mod_end   = %p'' @ [CHR 0x0A]) [VInt a] s = Inr (s\<lparr>con_log := con_log s @ [Printed msg]\<rparr>)"
    for s :: "'a modules_scheme" and a
    by (rule printf_prints; simp add: conversion_width_def)+
  obtain x where x: "(if mod_cmdline ?m \<noteq> 0 then text_at (payload s) (mod_cmdline ?m) else Inr ''<null>'') = Inr x"
      "length x \<le> 400"
    using assms text_at_cstr [of "payload s" "mod_cmdline ?m"] unfolding cmdline_ok_def
    by (cases "mod_cmdline ?m = 0") (fastforce, fastforce)
  have q: "\<exists>msg. printf (''      cmdline   = %p ('' @ [CHR 0x22] @ ''%s'' @ [CHR 0x22] @ '')'' @ [CHR 0x0A])
      [VInt a, VStr x] s = Inr (s\<lparr>con_log := con_log s @ [Printed msg]\<rparr>)" for s :: "'a modules_scheme" and a
    using x(2) length_cstring_of [of x] by (intro printf_prints) (auto simp: conversion_width_def)
  obtain m1 where "printf (''   module %u (%p):'' @ [CHR 0x0A]) [VInt i, VInt md] s = Inr (s\<lparr>con_log := con_log s @ [Printed m1]\<rparr>)"
    using p(1) by blast
  moreover let ?s1 = "s\<lparr>con_log := con_log s @ [Printed m1]\<rparr>"
  obtain m2 where "printf (''      mod_start = %p'' @ [CHR 0x0A]) [VInt (mod_start ?m)] ?s1 = Inr (?s1\<lparr>con_log := con_log ?s1 @ [Printed m2]\<rparr>)"
    using p(2) by blast
  moreover let ?s2 = "?s1\<lparr>con_log := con_log ?s1 @ [Printed m2]\<rparr>"
  obtain m3 where "printf (''      mod_end   = %p'' @ [CHR 0x0A]) [VInt (mod_end ?m)] ?s2 = Inr (?s2\<lparr>con_log := con_log ?s2 @ [Printed m3]\<rparr>)"
    using p(3) by blast
  moreover let ?s3 = "?s2\<lparr>con_log := con_log ?s2 @ [Printed m3]\<rparr>"
  obtain m4 where "printf (''      cmdline   = %p ('' @ [CHR 0x22] @ ''%s'' @ [CHR 0x22] @ '')'' @ [CHR 0x0A])
      [VInt (mod_cmdline ?m), VStr x] ?s3 = Inr (?s3\<lparr>con_log := con_log ?s3 @ [Printed m4]\<rparr>)"
    using q by blast
  ultimately have "print_module i md s = Inr (?s3\<lparr>con_log := con_log ?s3 @ [Printed m4]\<rparr>)"
    using x(1) by (cases "mod_cmdline ?m = 0") (auto simp: print_module_def Let_def)
  then show ?thesis by (intro exI [of _ "[Printed m1, Printed m2, Printed m3, Printed m4]"]) simp
qed

text \<open>One module of the loop: the pages from \<open>P\<close> on are mapped, and only names of the table change in the payload.\<close>

lemma add_module_runs:
  fixes s :: "'a modules_scheme" and md :: u32
  defines "m \<equiv> mod_lists s md"
  assumes "area_inv L P s" "917504 \<le> P" "L \<le> 1047552" "P + pages_of m \<le> L" "proper_range m"
    and "\<And>p. unat (mod_start m) div 4096 \<le> p \<Longrightarrow> 4096 * p < unat (mod_end m) \<Longrightarrow> p \<in> in_use s"
    and "MODULES_START_ADDR + offset = page_addr P"
  shows "\<exists>t. add_module i md offset s = Inr t \<and> area_inv L (P + pages_of m) t \<and> in_use s \<subseteq> in_use t \<and>
    (\<forall>k < pages_of m. translate (page_addr (P + k)) t = Inr (frame_of (page_addr (unat (mod_start m) div 4096 + k)))) \<and>
    (\<forall>p. area_page p \<and> (p < P \<or> P + pages_of m \<le> p) \<longrightarrow> translate (page_addr p) t = translate (page_addr p) s) \<and>
    (\<forall>a. a \<notin> addrs (module_table s + sizeof_module * i) 7 \<longrightarrow> payload t a = payload s a)"
proof -
  let ?Q = "unat (mod_start m) div 4096" and ?e = "module_table s + sizeof_module * i"
  have taken: "page_taken (page_addr (?Q + j)) s" if j: "j < pages_of m" for j
  proof -
    have "4096 * (?Q + j) < unat (mod_end m)"
    proof -
      have "?Q + j < (unat (mod_end m) + 4095) div 4096" using j by (simp add: pages_of_def)
      then have "(?Q + j + 1) * 4096 \<le> unat (mod_end m) + 4095" by (simp add: less_eq_div_iff_mult_less_eq Suc_le_eq [symmetric])
      then show ?thesis by simp
    qed
    moreover from this have "?Q + j < 1048576" using unat_lt_2p [of "mod_end m"] by simp
    ultimately show ?thesis using assms(7) by (simp add: page_taken_def page_addr_parts(1))
  qed
  obtain u where u: "map_module_pages (pages_of m) 0 (page_addr ?Q) (page_addr P) s = Inr u" "area_inv L (P + pages_of m) u"
      "in_use s \<subseteq> in_use u"
      "\<forall>j < pages_of m. translate (page_addr (P + j)) u = Inr (frame_of (page_addr (?Q + j)))"
      "\<forall>p. area_page p \<and> (p < P \<or> P + pages_of m \<le> p) \<longrightarrow> translate (page_addr p) u = translate (page_addr p) s"
    using map_module_pages_runs [OF assms(3,4), of 0 s "pages_of m" ?Q] assms(2,5) taken by auto
  have more: "payload u = payload s" "module_table u = module_table s"
    using map_module_pages_more [OF u(1)] by (cases s rule: modules.cases_scheme, cases u rule: modules.cases_scheme, simp)+
  let ?u = "u\<lparr>module_addr := (module_addr u)(?e := (MODULES_START_ADDR + offset) + (mod_start m mod PAGE_SIZE)),
    module_size := (module_size u)(?e := mod_end m - mod_start m)\<rparr>"
  define t where "t = (if mod_cmdline m \<noteq> 0 then ?u\<lparr>payload := snd (strncpy ?e (mod_cmdline m + 2) 7 (payload u))\<rparr> else ?u)"
  have "add_module i md offset s = Inr t"
    unfolding t_def using u(1) aligned_size_pages(3) [OF assms(6)]
    by (simp add: add_module_def Let_def m_def [symmetric] page_of_start assms(8) more)
  moreover have "payload t a = payload s a" if "a \<notin> addrs ?e 7" for a
    using strncpy_loop_frame [OF that] more by (simp add: strncpy_def t_def del: addrs_numeral)
  moreover have vm: "area_inv L q t = area_inv L q u" "translate va t = translate va u" "in_use t = in_use u" for q va
    by (rule area_inv_cong; simp add: t_def)+
  ultimately show ?thesis using u(2-5) by (intro exI [of _ t]) (simp add: vm del: addrs_numeral)
qed

text \<open>The page at which module \<open>j\<close> begins, when the first one begins at page \<open>P\<close>.\<close>

primrec module_page :: "'a modules_scheme \<Rightarrow> nat \<Rightarrow> u32 \<Rightarrow> nat \<Rightarrow> nat" where
  "module_page s P md 0 = P"
| "module_page s P md (Suc j) = module_page s (P + pages_of (mod_lists s md) + 1) (md + 16) j"

lemma module_page_cong: "mod_lists s = mod_lists t \<Longrightarrow> module_page s P md j = module_page t P md j"
  by (induction j arbitrary: P md) simp_all

lemma module_page_mono: "P \<le> module_page s P md j"
proof (induction j arbitrary: P md)
  case (Suc j)
  from Suc.IH [of "P + pages_of (mod_lists s md) + 1" "md + 16"] show ?case by simp
qed simp

text \<open>What a module needs of the state in front of the loop.\<close>

definition module_mappable :: "u32 set \<Rightarrow> 'a modules_scheme \<Rightarrow> u32 \<Rightarrow> bool" where
  "module_mappable T s md \<longleftrightarrow> md \<noteq> 0 \<and> proper_range (mod_lists s md) \<and> cmdline_ok T (payload s) (mod_lists s md) \<and>
     (\<forall>p. unat (mod_start (mod_lists s md)) div 4096 \<le> p \<and> 4096 * p < unat (mod_end (mod_lists s md)) \<longrightarrow> p \<in> in_use s)"

lemma modules_loop_runs:
  assumes "L \<le> 1047552"
  shows "area_inv L P s \<Longrightarrow> 917504 \<le> P \<Longrightarrow> module_page s P md n \<le> L \<Longrightarrow> MODULES_START_ADDR + offset = page_addr P \<Longrightarrow>
    (\<And>j. j < n \<Longrightarrow> module_mappable T s (descriptor md j) \<and> addrs (slot s i j) 7 \<subseteq> T) \<Longrightarrow>
    \<exists>t. modules_loop n i md offset s = Inr t \<and> vm_ok t \<and>
      (\<forall>p. area_page p \<and> p < P \<longrightarrow> translate (page_addr p) t = translate (page_addr p) s) \<and>
      (\<forall>j < n. (\<forall>k < pages_of (mod_lists s (descriptor md j)). translate (page_addr (module_page s P md j + k)) t =
          Inr (frame_of (page_addr (unat (mod_start (mod_lists s (descriptor md j))) div 4096 + k)))) \<and>
        (\<exists>e. translate (page_addr (module_page s P md j + pages_of (mod_lists s (descriptor md j)))) t = Inl e))"
proof (induction n arbitrary: i md offset s P)
  case 0
  then show ?case by (auto simp: area_inv_def)
next
  case (Suc n)
  let ?m = "mod_lists s md" and ?P = "P + pages_of (mod_lists s md) + 1"
  have first: "module_mappable T s md" "addrs (module_table s + sizeof_module * i) 7 \<subseteq> T"
    using Suc.prems(5) [of 0] by (simp_all add: descriptor_simps slot_0)
  have upto: "?P \<le> L"
    using module_page_mono [where P = ?P and s = s and md = "md + 16" and j = n] Suc.prems(3) by simp
  obtain msgs where s1: "print_module i md s = Inr (s\<lparr>con_log := con_log s @ msgs\<rparr>)" (is "_ = Inr ?s1")
    using print_module_ends first(1) unfolding module_mappable_def by blast
  have vm1: "area_inv L q ?s1 = area_inv L q s" "translate va ?s1 = translate va s" "in_use ?s1 = in_use s" for q va
    by (rule area_inv_cong; simp)+
  obtain s2 where s2: "add_module i md offset ?s1 = Inr s2" "area_inv L (P + pages_of ?m) s2" "in_use s \<subseteq> in_use s2"
      "\<forall>k < pages_of ?m. translate (page_addr (P + k)) s2 = Inr (frame_of (page_addr (unat (mod_start ?m) div 4096 + k)))"
      "\<forall>p. area_page p \<and> (p < P \<or> P + pages_of ?m \<le> p) \<longrightarrow> translate (page_addr p) s2 = translate (page_addr p) s"
      "\<forall>a. a \<notin> addrs (module_table s + sizeof_module * i) 7 \<longrightarrow> payload s2 a = payload s a"
    using add_module_runs [of L P ?s1 md offset i] Suc.prems(1,2,4) assms upto first unfolding vm1 module_mappable_def
    by (auto simp del: addrs_numeral)
  have names: "payload s2 a = payload s a" if "a \<notin> T" for a using that s2(6) first(2) by blast
  have f2: "mod_lists s2 = mod_lists s" "module_table s2 = module_table s" using add_module_fields [OF s2(1)] by simp_all
  have canary: "area_page (P + pages_of ?m)" using upto assms Suc.prems(2) by (simp add: area_page_def)
  have offset: "MODULES_START_ADDR + (offset + (aligned_size ?m + PAGE_SIZE)) = page_addr ?P"
    using first(1) Suc.prems(4) aligned_size_pages(1) [of ?m]
    by (simp add: module_mappable_def page_addr_def PAGE_SIZE_eq algebra_simps)
  have mappable: "module_mappable T s2 (descriptor (md + 16) j) \<and> addrs (slot s2 (i + 1) j) 7 \<subseteq> T" if "j < n" for j
    using Suc.prems(5) [of "Suc j"] that s2(3) cmdline_ok_cong [of T "payload s2" "payload s"] names
    unfolding slot_Suc by (auto simp: module_mappable_def f2 descriptor_simps slot_def)
  have pages: "module_page s2 ?P md' k = module_page s ?P md' k" for md' k by (rule module_page_cong [OF f2(1)])
  have inv: "area_inv L ?P s2" by (rule area_inv_later [OF s2(2)]) simp
  obtain t where t: "modules_loop n (i + 1) (md + 16) (offset + (aligned_size ?m + PAGE_SIZE)) s2 = Inr t" "vm_ok t"
      "\<forall>p. area_page p \<and> p < ?P \<longrightarrow> translate (page_addr p) t = translate (page_addr p) s2"
      "\<forall>j < n. (\<forall>k < pages_of (mod_lists s (descriptor md (Suc j))). translate (page_addr (module_page s P md (Suc j) + k)) t =
          Inr (frame_of (page_addr (unat (mod_start (mod_lists s (descriptor md (Suc j)))) div 4096 + k)))) \<and>
        (\<exists>e. translate (page_addr (module_page s P md (Suc j) + pages_of (mod_lists s (descriptor md (Suc j))))) t = Inl e)"
    using Suc.IH [OF inv _ _ offset mappable] Suc.prems(2,3) unfolding f2 descriptor_simps pages module_page.simps by auto
  have "translate (page_addr (P + k)) t = translate (page_addr (P + k)) s2" if "k \<le> pages_of ?m" for k
    using t(3) that upto assms Suc.prems(2) by (simp add: area_page_def)
  moreover have "\<exists>e. translate (page_addr (P + pages_of ?m)) s2 = Inl e" using s2(2) canary by (simp add: area_inv_def)
  ultimately have "(\<forall>k < pages_of ?m. translate (page_addr (P + k)) t =
        Inr (frame_of (page_addr (unat (mod_start ?m) div 4096 + k)))) \<and>
      (\<exists>e. translate (page_addr (P + pages_of ?m)) t = Inl e)" using s2(4) by simp
  moreover have "modules_loop (Suc n) i md offset s = Inr t"
    using s1 s2(1) t(1) first(1) by (simp add: module_mappable_def)
  moreover have "\<forall>p. area_page p \<and> p < P \<longrightarrow> translate (page_addr p) t = translate (page_addr p) s" using t(3) s2(5) by simp
  ultimately show ?case
    using t(2,4) by (intro exI [of _ t]) (auto simp: All_less_Suc2 descriptor_simps simp del: modules_loop.simps module_page.simps(2))
qed

section \<open>The property\<close>

lemma module_page_spans:
  "(\<And>i. i < j \<Longrightarrow> proper_range (mod_lists s (descriptor md i))) \<Longrightarrow> 4096 * module_page s P md j = 4096 * P + spans s md j"
proof (induction j arbitrary: P md)
  case (Suc j)
  have "unat (aligned_size (mod_lists s md)) = 4096 * pages_of (mod_lists s md)"
    using Suc.prems [of 0] by (intro aligned_size_pages(2)) (simp add: descriptor_simps)
  moreover have "4096 * module_page s (P + pages_of (mod_lists s md) + 1) (md + 16) j =
      4096 * (P + pages_of (mod_lists s md) + 1) + spans s (md + 16) j"
    using Suc.prems [of "Suc i" for i] by (intro Suc.IH) (simp add: descriptor_simps)
  ultimately show ?case by (simp add: spans_shift span_def descriptor_simps)
qed (simp add: spans_def)

lemma module_byte:
  assumes "vm_ok t" "proper_range m" "P + pages_of m \<le> 1048576"
    and mapped: "\<forall>k < pages_of m. translate (page_addr (P + k)) t = Inr (frame_of (page_addr (unat (mod_start m) div 4096 + k)))"
    and addr: "unat addr = 4096 * P + unat (mod_start m) mod 4096" and b: "b < unat (mod_end m - mod_start m)"
  shows "virt_to_phys (addr + of_nat b) t = Inr (mod_start m + of_nat b)"
proof -
  let ?a = "unat (mod_start m)"
  define q where "q = (?a mod 4096 + b) div 4096"
  define r where "r = (?a mod 4096 + b) mod 4096"
  have qr: "?a mod 4096 + b = 4096 * q + r" "r < 4096" by (simp_all add: q_def r_def)
  have "unat (mod_start m mod PAGE_SIZE) = ?a mod 4096" by (simp add: PAGE_SIZE_eq unat_mod)
  then have q: "q < pages_of m"
    using module_in_pages [OF assms(2)] aligned_size_pages(2) [OF assms(2)] b qr by simp
  have le: "?a \<le> unat (mod_end m)" using assms(2) by (simp add: proper_range_def word_le_nat_alt)
  then have end_a: "?a + b < unat (mod_end m)" using b by (simp add: u32_sub_no_wrap)
  have pq: "P + q < 1048576" using q assms(3) by simp
  have va: "unat (addr + of_nat b) = 4096 * (P + q) + r"
    using addr qr pq by (subst u32_add_of_nat) simp_all
  have "?a + b = 4096 * (?a div 4096) + (?a mod 4096 + b)" by simp
  then have start: "?a + b = 4096 * (?a div 4096 + q) + r" by (simp add: qr(1))
  have Q: "?a div 4096 + q < 1048576" using start end_a unat_lt_2p [of "mod_end m"] by simp
  have "unat (addr + of_nat b) div 4096 = unat (page_addr (P + q)) div 4096"
    using va qr(2) page_addr_parts(1) [OF pq] by simp
  then have "translate (addr + of_nat b) t = Inr (frame_of (page_addr (?a div 4096 + q)))"
    using translate_same_page [of "addr + of_nat b" "page_addr (P + q)" t] mapped q by simp
  then have "virt_to_phys (addr + of_nat b) t =
      Inr ((page_addr (?a div 4096 + q) AND - 4096) + (addr + of_nat b AND 0xFFF))"
    using virt_to_phys_translate [of t "addr + of_nat b"] assms(1) by (simp add: vm_ok_def page_base_neg)
  moreover have "unat (page_addr (?a div 4096 + q) AND - 4096 :: u32) = 4096 * (?a div 4096 + q)"
    using page_addr_parts(1) [OF Q] by (simp add: unat_page_base)
  moreover have "(4096 * (P + q) + r) mod 4096 = r" using qr(2) by (simp only: mod_mult_self4 mod_less)
  then have "unat (addr + of_nat b AND 0xFFF) = r" by (simp only: unat_and_0xFFF va)
  moreover have "unat (mod_start m + of_nat b) = ?a + b"
    using end_a unat_lt_2p [of "mod_end m"] by (intro u32_add_of_nat) simp
  ultimately show ?thesis using start end_a unat_lt_2p [of "mod_end m"] by (simp add: word_unat_eq_iff u32_add_no_wrap)
qed

text \<open>C28. \<open>module_table_init\<close> maps the modules: with nothing at \<open>0xE0000000\<close> before, enough space for the page tables and
  for the modules below the window, and all pages of the modules taken from the bitmap, the loop ends, and every
  entry of the table has the size of its module and an address behind which the MMU finds each byte of the module
  at its physical address. The modules lie in the order of the list; between the end of one and the start of a later
  one there is at least a page, and the page behind the last one of a module is not mapped.\<close>

theorem modules_do_not_overlap:
  assumes "area_empty s" and "tables_left ((spans s md n + 4194303) div 4194304) s" and "spans s md n \<le> 532676608"
    and mods: "\<And>j. j < n \<Longrightarrow> module_mappable (addrs (module_table s) (16 * n)) s (descriptor md j)"
  shows "\<exists>t. modules_loop n 0 md 0 s = Inr t \<and>
    (\<forall>j < n. let m = mod_lists s (descriptor md j); addr = module_addr t (slot s 0 j) in
      module_size t (slot s 0 j) = mod_end m - mod_start m \<and> 3758096384 \<le> unat addr \<and>
      (\<forall>b < unat (mod_end m - mod_start m). virt_to_phys (addr + of_nat b) t = Inr (mod_start m + of_nat b)) \<and>
      (\<exists>va e. unat addr + unat (mod_end m - mod_start m) \<le> unat va \<and> IS_PAGE_ALIGNED va \<and> translate va t = Inl e \<and>
        (\<forall>k. j < k \<and> k < n \<longrightarrow> unat va + 4096 \<le> unat (module_addr t (slot s 0 k)))))"
proof -
  let ?T = "addrs (module_table s) (16 * n)" and ?P = "module_page s 917504 md"
  have proper: "proper_range (mod_lists s (descriptor md j))" if "j < n" for j
    using mods [OF that] by (simp add: module_mappable_def)
  have spans: "4096 * ?P j = 3758096384 + spans s md j" if "j \<le> n" for j
    using module_page_spans [of j s md 917504] proper that by simp
  define L where "L = ?P n"
  have L: "L \<le> 1047552" "L \<le> 917504 + 1024 * ((spans s md n + 4194303) div 4194304)"
    using spans [of n] assms(3) by (simp_all add: L_def)
  have "4096 * j \<le> spans s md j" for j by (induction j) (simp_all add: spans_Suc span_def)
  from this [of n] have n: "n \<le> 130048" using assms(3) by simp
  have inv: "area_inv L 917504 s" by (rule area_inv_start [OF assms(1,2) L(2)])
  have "addrs (slot s 0 j) 7 \<subseteq> ?T" if "j < n" for j
  proof
    fix a assume "a \<in> addrs (slot s 0 j) 7"
    then obtain i where "i < 7" "a = slot s 0 j + of_nat i" unfolding addrs_def by blast
    then show "a \<in> ?T" using that unfolding addrs_def
      by (intro image_eqI [of _ _ "16 * j + i"]) (simp_all add: slot_def sizeof_module_def algebra_simps)
  qed
  then obtain t where t: "modules_loop n 0 md 0 s = Inr t" "vm_ok t"
      "\<forall>j < n. (\<forall>k < pages_of (mod_lists s (descriptor md j)). translate (page_addr (?P j + k)) t =
          Inr (frame_of (page_addr (unat (mod_start (mod_lists s (descriptor md j))) div 4096 + k)))) \<and>
        (\<exists>e. translate (page_addr (?P j + pages_of (mod_lists s (descriptor md j)))) t = Inl e)"
    using modules_loop_runs [OF L(1) inv le_refl, of md n 0 ?T 0] mods
    by (auto simp: L_def MODULES_START_ADDR_def page_addr_def simp del: addrs_numeral)
  have entry: "module_size t (slot s 0 j) = mod_end (mod_lists s (descriptor md j)) - mod_start (mod_lists s (descriptor md j))"
      "unat (module_addr t (slot s 0 j)) = 4096 * ?P j + unat (mod_start (mod_lists s (descriptor md j))) mod 4096"
      "?P j + pages_of (mod_lists s (descriptor md j)) + 1 = ?P (Suc j)" if j: "j < n" for j
  proof -
    let ?m = "mod_lists s (descriptor md j)"
    have loop: "module_addr t (slot s 0 j) = MODULES_START_ADDR + module_offset s md j + mod_start ?m mod PAGE_SIZE"
      "module_size t (slot s 0 j) = mod_end ?m - mod_start ?m"
      using modules_loop_spec [OF t(1)] n j by simp_all
    then show "module_size t (slot s 0 j) = mod_end ?m - mod_start ?m" by simp
    have "spans s md (Suc j) \<le> spans s md n" using j by (intro spans_mono) simp
    then have small: "spans s md j + span s md j \<le> 532676608" using assms(3) by (simp add: spans_Suc)
    have off: "unat (mod_start ?m mod PAGE_SIZE) = unat (mod_start ?m) mod 4096" by (simp add: PAGE_SIZE_eq unat_mod)
    have "unat (mod_start ?m) mod 4096 < 4096" by simp
    moreover have "unat (module_offset s md j) = spans s md j" using small by (intro unat_module_offset) simp
    ultimately have "unat (module_addr t (slot s 0 j)) = 3758096384 + spans s md j + unat (mod_start ?m) mod 4096"
      unfolding loop(1) using small by (simp add: u32_add_no_wrap MODULES_START_ADDR_def off)
    then show "unat (module_addr t (slot s 0 j)) = 4096 * ?P j + unat (mod_start ?m) mod 4096"
      using spans [of j] j by simp
    have "4096 * (?P j + pages_of ?m + 1) = 4096 * ?P (Suc j)"
      using spans [of j] spans [of "Suc j"] j aligned_size_pages(2) [OF proper [OF j]] by (simp add: spans_Suc span_def)
    then show "?P j + pages_of ?m + 1 = ?P (Suc j)" by simp
  qed
  show ?thesis
  proof (intro exI [of _ t] conjI allI impI t(1))
    fix j assume j: "j < n"
    let ?m = "mod_lists s (descriptor md j)" and ?va = "page_addr (?P j + pages_of (mod_lists s (descriptor md j)))"
    have mono: "?P (Suc j) \<le> ?P k" if "Suc j \<le> k" "k \<le> n" for k
      using spans [of "Suc j"] spans [of k] spans_mono [OF that(1), of s md] that j by simp
    have room: "?P j + pages_of ?m < 1048576" using entry(3) [OF j] mono [of n] j L(1) by (simp add: L_def)
    have "917504 \<le> ?P j" by (rule module_page_mono)
    moreover have "unat (mod_start ?m) mod 4096 + unat (mod_end ?m - mod_start ?m) \<le> 4096 * pages_of ?m"
      using module_in_pages [OF proper [OF j]] aligned_size_pages(2) [OF proper [OF j]]
      by (simp add: PAGE_SIZE_eq unat_mod)
    moreover have "virt_to_phys (module_addr t (slot s 0 j) + of_nat b) t = Inr (mod_start ?m + of_nat b)"
      if "b < unat (mod_end ?m - mod_start ?m)" for b
      using t(3) j room by (intro module_byte [OF t(2) proper [OF j] _ _ entry(2) [OF j] that]) auto
    moreover have "4096 * (?P j + pages_of ?m) + 4096 \<le> unat (module_addr t (slot s 0 k))" if "j < k" "k < n" for k
      using entry(2) [OF that(2)] mono [of k] entry(3) [OF j] that by simp
    ultimately show "let m = ?m; addr = module_addr t (slot s 0 j) in
      module_size t (slot s 0 j) = mod_end m - mod_start m \<and> 3758096384 \<le> unat addr \<and>
      (\<forall>b < unat (mod_end m - mod_start m). virt_to_phys (addr + of_nat b) t = Inr (mod_start m + of_nat b)) \<and>
      (\<exists>va e. unat addr + unat (mod_end m - mod_start m) \<le> unat va \<and> IS_PAGE_ALIGNED va \<and> translate va t = Inl e \<and>
        (\<forall>k. j < k \<and> k < n \<longrightarrow> unat va + 4096 \<le> unat (module_addr t (slot s 0 k))))"
      using t(3) j entry(1,2) [OF j] aligned_page_addr page_addr_parts(1) [OF room]
      unfolding Let_def by (intro conjI exI [of _ ?va]; auto)
  qed
qed

section \<open>Examples\<close>

text \<open>Two entries with the names a and b.\<close>

definition modules_zero :: modules where
  "modules_zero = boot.extend (boot_zero\<lparr>payload := (\<lambda>_. 0)(0x2000 := 97, 0x2010 := 98, 0x3000 := 98)\<rparr>)
     \<lparr>module_table = 0x2000, module_table_size = 2, module_addr = (\<lambda>p. p + 0xDE000000), module_size = (\<lambda>_. 0)\<rparr>"

lemma modules_zero_sel [simp]:
  "payload modules_zero = (\<lambda>_. 0)(0x2000 := 97, 0x2010 := 98, 0x3000 := 98)" "module_table modules_zero = 0x2000"
  "module_table_size modules_zero = 2" "module_addr modules_zero = (\<lambda>p. p + 0xDE000000)"
  by (simp_all add: modules_zero_def boot.defs)

theorem get_module_by_name_first_witness:
  "get_module_by_name 0x3000 modules_zero = Inr 0xDE002010 \<and> get_module_by_name 0x4001 modules_zero = Inr 0"
proof -
  have names: "names_ok modules_zero 0 [[97], [98]]"
    by (simp add: names_ok_def entry_at_def sizeof_module_def All_less_Suc)
  from get_module_by_name_first [OF _ _ names, of "0x3000" "[98]"] get_module_by_name_first [OF _ _ names, of "0x4001" "[]"]
  show ?thesis by (simp add: entry_at_def sizeof_module_def)
qed

text \<open>A module of 8176 bytes in three pages, with a command line, and one of 2048 bytes in one page.\<close>

definition modules_two :: modules where
  "modules_two = modules_zero\<lparr>payload := (\<lambda>_. 0)(0x8000 := 97), mod_lists := (\<lambda>_. \<lparr>mod_start = 0x1800000, mod_end = 0x1800800, mod_cmdline = 0, mod_pad = 0\<rparr>)
     (0x9000 := \<lparr>mod_start = 0x180010, mod_end = 0x182001, mod_cmdline = 0x8000, mod_pad = 0\<rparr>)\<rparr>"

lemma modules_two_sel:
  "mod_lists modules_two 0x9000 = \<lparr>mod_start = 0x180010, mod_end = 0x182001, mod_cmdline = 0x8000, mod_pad = 0\<rparr>"
  "mod_lists modules_two 0x9010 = \<lparr>mod_start = 0x1800000, mod_end = 0x1800800, mod_cmdline = 0, mod_pad = 0\<rparr>"
  "payload modules_two = (\<lambda>_. 0)(0x8000 := 97)" "module_table modules_two = 0x2000"
  "pmem modules_two = pmem vm_zero" "cr3 modules_two = cr3 vm_zero" "placement_heap modules_two = placement_heap vm_zero"
  "page_bitmap modules_two = page_bitmap vm_zero"
  by (simp_all add: modules_two_def modules_zero_def boot.defs boot_zero_def scheduler.defs sched_zero_def timer.defs
      timer_zero_def serial.defs serial_zero_def interrupts.defs irq_zero_def cpu.defs lalloc.defs lalloc_zero_def kernel_heap.defs
      kheap_zero_def vm_zero_def)

lemma modules_two_area: "area_empty modules_two" "tables_left 1 modules_two" "in_use modules_two = {..<8192}"
proof -
  have eq: "vm_ok modules_two = vm_ok vm_zero" "in_use modules_two = in_use vm_zero" "page_limit modules_two = page_limit vm_zero"
      "slot_free a modules_two = slot_free a vm_zero" for a
    by (simp_all add: modules_two_sel(5-8) vm_ok_def pages_ok_def recursive_def in_use_def page_limit_def slot_free_def)
  show u: "in_use modules_two = {..<8192}" by (simp add: eq vm_zero_pages)
  have ph: "placement_heap vm_zero = 0xC0200000" by (simp add: vm_zero_def)
  have "pmem vm_zero 256 i = 0" if "area_entry i" for i
    using that by (auto simp: vm_zero_def area_entry_def)
  moreover have heap: "table_of vm_zero 0xC0200000 = 0x102" "bit (pde_of vm_zero 0xC0200000) 0"
    unfolding heap_index vm_zero_entries by (simp_all add: frame_of_def drop_bit_eq_div bit_numeral_rec)
  ultimately show "area_empty modules_two"
    using vm_zero_ok by (simp add: area_empty_def eq modules_two_sel(5-7) ph vm_zero_entries(1) heap(1))
  have "slot_free 0xC0200000 vm_zero"
    using heap unfolding slot_free_def by (simp add: heap_index vm_zero_entries)
  moreover have "card ({..<16384} - {..<8192 :: nat}) = 8192" by (subst card_Diff_subset) simp_all
  moreover have "IS_PAGE_ALIGNED 0xC0200000" by (simp add: aligned_nat)
  ultimately show "tables_left 1 modules_two"
    by (simp add: tables_left_def eq vm_zero_pages modules_two_sel(7) ph heap_index page_addr_def)
qed

theorem modules_do_not_overlap_witness:
  "\<exists>t. modules_loop 2 0 0x9000 0 modules_two = Inr t \<and>
    virt_to_phys (module_addr t (slot modules_two 0 0)) t = Inr 0x180010 \<and>
    virt_to_phys (module_addr t (slot modules_two 0 0) + 0x1FF0) t = Inr 0x182000 \<and>
    virt_to_phys (module_addr t (slot modules_two 0 1) + 0x7FF) t = Inr 0x18007FF"
proof -
  have d: "descriptor 0x9000 0 = 0x9000" "descriptor 0x9000 1 = 0x9010" by (simp_all add: descriptor_def)
  have "spans modules_two 0x9000 2 = span modules_two 0x9000 0 + span modules_two 0x9000 1"
    by (simp add: spans_def numeral_2_eq_2)
  then have span: "spans modules_two 0x9000 2 = 24576"
    by (simp add: span_def d [unfolded One_nat_def] modules_two_sel aligned_size_def PAGE_ALIGN_UP_def
        PAGE_ALIGN_DOWN_def PAGE_SIZE_eq)
  define T where "T = addrs (module_table modules_two) (16 * 2)"
  have "cmdline_ok T (payload modules_two) (mod_lists modules_two 0x9000)"
    unfolding cmdline_ok_def T_def by (intro disjI2 exI [of _ "[97]"]) (auto simp: modules_two_sel addrs_iff)
  then have "module_mappable T modules_two 0x9000"
    unfolding module_mappable_def modules_two_area(3) by (simp add: modules_two_sel proper_range_def)
  moreover have "module_mappable T modules_two 0x9010"
    unfolding module_mappable_def modules_two_area(3) by (simp add: modules_two_sel proper_range_def cmdline_ok_def)
  ultimately have "module_mappable T modules_two (descriptor 0x9000 j)" if "j < 2" for j
    using less_2_cases [OF that] d by auto
  from modules_do_not_overlap [OF modules_two_area(1) _ _ this [unfolded T_def]] modules_two_area(2) span
  obtain t where t: "modules_loop 2 0 0x9000 0 modules_two = Inr t"
    "\<And>j b. j < 2 \<Longrightarrow> b < unat (mod_end (mod_lists modules_two (descriptor 0x9000 j)) - mod_start (mod_lists modules_two (descriptor 0x9000 j))) \<Longrightarrow>
      virt_to_phys (module_addr t (slot modules_two 0 j) + of_nat b) t = Inr (mod_start (mod_lists modules_two (descriptor 0x9000 j)) + of_nat b)"
    by (auto simp: Let_def)
  show ?thesis
    using t(1) t(2) [of 0 0] t(2) [of 0 "0x1FF0"] t(2) [of 1 "0x7FF"] unfolding d modules_two_sel by auto
qed

end
