(* ===== verification/Elf.thy ===== *)
theory Elf
  imports Modules
begin

text \<open>
  The ELF loader (\<open>kernel/arch/i386/elf/elf32.c\<close> with \<open>kernel/include/kernel/elf\<close>). The bytes of
  \<open>e_ident\<close> are read from memory at the header's address; the other fields of the file header and the
  program headers are typed stores. \<open>elf_magic\<close> is the address of the static array with the magic bytes.
\<close>

record Elf32_Ehdr =
  e_type :: u16
  e_machine :: u16
  e_version :: u32
  e_entry :: u32
  e_phoff :: u32
  e_shoff :: u32
  e_flags :: u32
  e_ehsize :: u16
  e_phentsize :: u16
  e_phnum :: u16
  e_shentsize :: u16
  e_shnum :: u16
  e_shstrndx :: u16

record Elf32_Phdr =
  p_type :: u32
  p_offset :: u32
  p_vaddr :: u32
  p_paddr :: u32
  p_filesz :: u32
  p_memsz :: u32
  ph_flags :: u32
  p_align :: u32

record elf = modules +
  elf_headers :: "u32 \<Rightarrow> Elf32_Ehdr"
  program_headers :: "u32 \<Rightarrow> Elf32_Phdr"

definition EI_NMAGIC :: u32 where "EI_NMAGIC = 4"
definition EI_CLASS :: u32 where "EI_CLASS = 4"
definition EI_DATA :: u32 where "EI_DATA = 5"
definition EI_VERSION :: u32 where "EI_VERSION = 6"
definition ELF_MAGIC :: "u8 list" where "ELF_MAGIC = [0x7F, 69, 76, 70]"
definition ELFCLASS32 :: u8 where "ELFCLASS32 = 1"
definition ELFDATA2LSB :: u8 where "ELFDATA2LSB = 1"
definition EV_CURRENT :: u8 where "EV_CURRENT = 1"
definition ET_EXEC :: u16 where "ET_EXEC = 2"
definition EM_386 :: u16 where "EM_386 = 3"
definition PT_LOAD :: u32 where "PT_LOAD = 1"

section \<open>Operations\<close>

definition validate_magic :: "u32 \<Rightarrow> u32 \<Rightarrow> 'a elf_scheme \<Rightarrow> (bool \<times> 'a elf_scheme) kres" where
  "validate_magic elf_magic hdr s =
     kbind (kassert (hdr \<noteq> 0) ''hdr'') (\<lambda>_.
     Inr (if memcmp hdr elf_magic EI_NMAGIC (payload s) \<noteq> 0
          then (False, worry ''invalid ELF magic for file'' s) else (True, s)))"

definition elf32_validate :: "u32 \<Rightarrow> u32 \<Rightarrow> 'a elf_scheme \<Rightarrow> (bool \<times> 'a elf_scheme) kres" where
  "elf32_validate elf_magic hdr s =
     kbind (kassert (hdr \<noteq> 0) ''hdr'') (\<lambda>_.
     kbind (validate_magic elf_magic hdr s) (\<lambda>(valid, s1).
     let e_ident = (\<lambda>i. payload s1 (hdr + i)); h = elf_headers s1 hdr in
     Inr (if \<not> valid then (False, worry ''invalid ELF32 file'' s1)
          else if e_ident EI_CLASS \<noteq> ELFCLASS32 then (False, worry ''unsupported ELF file class'' s1)
          else if e_ident EI_DATA \<noteq> ELFDATA2LSB then (False, worry ''unsupported ELF file byte order'' s1)
          else if e_machine h \<noteq> EM_386 then (False, worry ''unsupported ELF file target'' s1)
          else if e_ident EI_VERSION \<noteq> EV_CURRENT then (False, worry ''unsupported ELF file version'' s1)
          else if e_type h \<noteq> ET_EXEC then (False, worry ''unsupported ELF file type'' s1)
          else (True, s1))))"

definition prog_hdr :: "u32 \<Rightarrow> nat \<Rightarrow> 'a elf_scheme \<Rightarrow> Elf32_Phdr" where
  "prog_hdr hdr i s =
     program_headers s (hdr + e_phoff (elf_headers s hdr) + of_nat i * ucast (e_phentsize (elf_headers s hdr)))"

text \<open>The two loops of \<open>elf32_load\<close>, from program header \<open>i\<close> on, \<open>n\<close> of them.\<close>

primrec load_base :: "nat \<Rightarrow> nat \<Rightarrow> u32 \<Rightarrow> u32 \<Rightarrow> 'a elf_scheme \<Rightarrow> u32" where
  "load_base 0 i base hdr s = base"
| "load_base (Suc n) i base hdr s =
     (let h = prog_hdr hdr i s in
      load_base n (Suc i) (if p_type h \<noteq> PT_LOAD then base else if p_vaddr h < base then p_vaddr h else base) hdr s)"

primrec load_size :: "nat \<Rightarrow> nat \<Rightarrow> u32 \<Rightarrow> u32 \<Rightarrow> u32 \<Rightarrow> 'a elf_scheme \<Rightarrow> u32" where
  "load_size 0 i base sz hdr s = sz"
| "load_size (Suc n) i base sz hdr s =
     (let h = prog_hdr hdr i s; sz' = p_paddr h - base + p_memsz h in
      load_size n (Suc i) base (if p_type h \<noteq> PT_LOAD then sz else if sz' > sz then sz' else sz) hdr s)"

text \<open>The base address and the size are computed and not used.\<close>

definition elf32_load :: "u32 \<Rightarrow> u32 \<Rightarrow> 'a elf_scheme \<Rightarrow> (bool \<times> 'a elf_scheme) kres" where
  "elf32_load hdr proc s =
     kbind (kassert (hdr \<noteq> 0) ''hdr'') (\<lambda>_.
     kbind (kassert (proc \<noteq> 0) ''proc'') (\<lambda>_.
     kbind (kassert (p_pgdir (processes s proc) \<noteq> 0) ''proc->pgdir'') (\<lambda>_.
     let n = unat (e_phnum (elf_headers s hdr));
         base = load_base n 0 (- 1) hdr s;
         sz = load_size n 0 base 0 hdr s
     in Inr (True, s))))"

section \<open>Properties\<close>

text \<open>An executable the loader accepts.\<close>

definition elf_supported :: "u32 \<Rightarrow> 'a elf_scheme \<Rightarrow> bool" where
  "elf_supported hdr s \<longleftrightarrow> bytes_at (payload s) hdr 4 = ELF_MAGIC \<and> payload s (hdr + 4) = 1 \<and>
     payload s (hdr + 5) = 1 \<and> payload s (hdr + 6) = 1 \<and> e_machine (elf_headers s hdr) = 3 \<and>
     e_type (elf_headers s hdr) = 2"

lemma memcmp_magic:
  "bytes_at m q 4 = ELF_MAGIC \<Longrightarrow> memcmp p q EI_NMAGIC m = 0 \<longleftrightarrow> bytes_at m p 4 = ELF_MAGIC"
  using memcmp_loop_zero [of 4 q p m] by (auto simp: memcmp_def EI_NMAGIC_def)

text \<open>C39. \<open>elf32_validate\<close> returns true exactly for a 32-bit, little-endian, version 1 executable for the
  386, and then changes nothing; for every other file it returns false with a message, and in no case
  does it panic or touch anything else.\<close>

theorem elf32_validate_exact:
  assumes "hdr \<noteq> 0" and "bytes_at (payload s) elf_magic 4 = ELF_MAGIC"
  shows "\<exists>msgs. elf32_validate elf_magic hdr s =
      Inr (elf_supported hdr s, s\<lparr>con_log := con_log s @ map Worried msgs\<rparr>) \<and>
    (elf_supported hdr s \<longleftrightarrow> msgs = [])"
proof (cases "bytes_at (payload s) hdr 4 = ELF_MAGIC")
  case False
  then have "elf32_validate elf_magic hdr s =
      Inr (False, worry ''invalid ELF32 file'' (worry ''invalid ELF magic for file'' s))"
    using assms memcmp_magic [OF assms(2), of hdr] by (simp add: elf32_validate_def validate_magic_def)
  then show ?thesis
    using False by (intro exI [of _ "[''invalid ELF magic for file'', ''invalid ELF32 file'']"])
      (simp add: elf_supported_def worry_def)
next
  case True
  then have v: "validate_magic elf_magic hdr s = Inr (True, s)"
    using assms memcmp_magic [OF assms(2), of hdr] by (simp add: validate_magic_def)
  have sup: "elf_supported hdr s \<longleftrightarrow> payload s (hdr + EI_CLASS) = ELFCLASS32 \<and> payload s (hdr + EI_DATA) = ELFDATA2LSB \<and>
      e_machine (elf_headers s hdr) = EM_386 \<and> payload s (hdr + EI_VERSION) = EV_CURRENT \<and> e_type (elf_headers s hdr) = ET_EXEC"
    using True by (auto simp: elf_supported_def EI_CLASS_def ELFCLASS32_def EI_DATA_def ELFDATA2LSB_def EM_386_def
        EI_VERSION_def EV_CURRENT_def ET_EXEC_def)
  have "\<exists>msg. elf32_validate elf_magic hdr s = Inr (elf_supported hdr s, if elf_supported hdr s then s else worry msg s)"
    unfolding elf32_validate_def v sup using assms(1) by (auto simp: Let_def)
  then obtain msg where
    "elf32_validate elf_magic hdr s = Inr (elf_supported hdr s, if elf_supported hdr s then s else worry msg s)" ..
  then show ?thesis
    by (intro exI [of _ "if elf_supported hdr s then [] else [msg]"]) (simp add: worry_def)
qed

lemma load_base_least:
  "load_base n i base hdr s = Min (insert base {p_vaddr (prog_hdr hdr j s) | j. i \<le> j \<and> j < i + n \<and> p_type (prog_hdr hdr j s) = PT_LOAD})"
proof (induction n arbitrary: i base)
  case 0
  have "{p_vaddr (prog_hdr hdr j s) | j. i \<le> j \<and> j < i \<and> p_type (prog_hdr hdr j s) = PT_LOAD} = {}" by auto
  then show ?case by (simp only: load_base.simps add_0_right) simp
next
  case (Suc n)
  let ?S = "\<lambda>i n. {p_vaddr (prog_hdr hdr j s) | j. i \<le> j \<and> j < i + n \<and> p_type (prog_hdr hdr j s) = PT_LOAD}"
  have fin: "finite (?S i n)" for i n
    by (rule finite_subset [of _ "(\<lambda>j. p_vaddr (prog_hdr hdr j s)) ` {..<i + n}"]) auto
  have split: "?S i (Suc n) = (if p_type (prog_hdr hdr i s) = PT_LOAD then insert (p_vaddr (prog_hdr hdr i s)) (?S (Suc i) n)
      else ?S (Suc i) n)"
    by (auto simp: Suc_le_eq) (metis le_neq_implies_less)+
  have "Min (insert b (insert v S)) = Min (insert (if v < b then v else b) S)" if "finite S" for b v :: u32 and S
    using that by (cases "S = {}") (auto simp: min_def)
  then show ?case
    unfolding load_base.simps Let_def Suc.IH split using fin [of "Suc i" n] by simp
qed

text \<open>The base address \<open>elf32_load\<close> computes is the least \<open>p_vaddr\<close> of the loadable segments, or
  \<open>0xFFFFFFFF\<close> if there is none; but the function is not finished: for a process with a page directory
  it returns true for any header and changes nothing.\<close>

theorem elf32_load_unfinished:
  assumes "hdr \<noteq> 0" "proc \<noteq> 0" "p_pgdir (processes s proc) \<noteq> 0"
  shows "elf32_load hdr proc s = Inr (True, s) \<and>
    load_base (unat (e_phnum (elf_headers s hdr))) 0 (- 1) hdr s =
      Min (insert (- 1) {p_vaddr (prog_hdr hdr j s) | j. j < unat (e_phnum (elf_headers s hdr)) \<and> p_type (prog_hdr hdr j s) = PT_LOAD})"
  using assms load_base_least [of "unat (e_phnum (elf_headers s hdr))" 0 "- 1" hdr s] by (simp add: elf32_load_def)

lemma bytes_at_4: "bytes_at m p 4 = [m p, m (p + 1), m (p + 1 + 1), m (p + 1 + 1 + 1)]"
  by (simp add: eval_nat_numeral)

definition elf_zero :: elf where
  "elf_zero = modules.extend (modules_zero\<lparr>payload := (\<lambda>_. 0)(0x100 := 0x7F, 0x101 := 69, 0x102 := 76, 0x103 := 70,
       0x200 := 0x7F, 0x201 := 69, 0x202 := 76, 0x203 := 70, 0x204 := 1, 0x205 := 1, 0x206 := 1),
       processes := (\<lambda>_. zero_process\<lparr>p_pgdir := 0xFFFFF000\<rparr>)\<rparr>)
     \<lparr>elf_headers = (\<lambda>_. \<lparr>e_type = 2, e_machine = 3, e_version = 1, e_entry = 0, e_phoff = 52, e_shoff = 0, e_flags = 0,
        e_ehsize = 52, e_phentsize = 32, e_phnum = 1, e_shentsize = 0, e_shnum = 0, e_shstrndx = 0\<rparr>),
      program_headers = (\<lambda>_. \<lparr>p_type = 1, p_offset = 0, p_vaddr = 0x8048000, p_paddr = 0, p_filesz = 0, p_memsz = 0,
        ph_flags = 0, p_align = 0\<rparr>)\<rparr>"

lemma elf_zero_sel [simp]:
  "payload elf_zero = (\<lambda>_. 0)(0x100 := 0x7F, 0x101 := 69, 0x102 := 76, 0x103 := 70,
       0x200 := 0x7F, 0x201 := 69, 0x202 := 76, 0x203 := 70, 0x204 := 1, 0x205 := 1, 0x206 := 1)"
  "e_machine (elf_headers elf_zero p) = 3" "e_type (elf_headers elf_zero p) = 2" "e_phnum (elf_headers elf_zero p) = 1"
  "p_type (prog_hdr hdr i elf_zero) = 1" "p_vaddr (prog_hdr hdr i elf_zero) = 0x8048000"
  "p_pgdir (processes elf_zero p) = 0xFFFFF000"
  by (simp_all add: elf_zero_def modules.defs prog_hdr_def)

theorem elf32_validate_exact_witness:
  "elf32_validate 0x100 0x200 elf_zero = Inr (True, elf_zero) \<and>
   (\<exists>msgs. elf32_validate 0x100 0x100 elf_zero =
     Inr (False, elf_zero\<lparr>con_log := con_log elf_zero @ map Worried msgs\<rparr>) \<and> msgs \<noteq> [])"
proof -
  have magic: "bytes_at (payload elf_zero) 0x100 4 = ELF_MAGIC"
    unfolding bytes_at_4 by (simp add: ELF_MAGIC_def)
  have "elf_supported 0x200 elf_zero" "\<not> elf_supported 0x100 elf_zero"
    unfolding elf_supported_def bytes_at_4 by (simp_all add: ELF_MAGIC_def)
  with elf32_validate_exact [OF _ magic, of "0x200"] elf32_validate_exact [OF _ magic, of "0x100"]
  show ?thesis by auto
qed

theorem elf32_load_unfinished_witness:
  "elf32_load 0x200 0x10 elf_zero = Inr (True, elf_zero) \<and> load_base 1 0 (- 1) 0x200 elf_zero = 0x8048000"
  using elf32_load_unfinished [of "0x200" "0x10" elf_zero] by (simp add: Let_def PT_LOAD_def min_def word_le_nat_alt)

end
