(* ===== verification/KernelMain.thy ===== *)
theory KernelMain
  imports Elf
begin

text \<open>
  \<open>kernel/kernel/kernel.c\<close>: the two entry points \<open>kinit\<close> and \<open>kmain\<close>, the start of the system task, the
  creation of the init task and the bodies of the tasks; with \<open>scheduler_bootstrap_thread\<close> of
  \<open>scheduler_asm.S\<close>. What the linker decides (addresses of objects and functions, the bounds of the
  image) is a parameter, the record \<open>image\<close>. Thread contexts that are built here are written word by
  word through the MMU, like all other accesses to mapped memory.
\<close>

record image =
  kernel_tasks :: u32
  kernel_threads :: u32
  g_kernel_stack_bottom :: u32
  g_kernel_stack_top :: u32
  g_kernel_page_dir :: u32
  kernel_start :: u32
  kernel_end :: u32
  high_offset :: u32
  gdt_addr :: u32
  idt_addr :: u32
  tss_addr :: u32
  heap_addr :: u32
  isr_addrs :: "nat \<Rightarrow> u32"
  kernel_system_task_entry :: u32
  kernel_idle_task_entry :: u32
  local_context :: u32
  caller :: u32

record kernel = elf +
  multiboot_infos :: "u32 \<Rightarrow> multiboot_info"

definition SYSTEM :: nat where "SYSTEM = 0"
definition INIT :: nat where "INIT = 1"
definition NUM_TASKS :: nat where "NUM_TASKS = 2"
definition THREAD_CONTEXT_OFFSET :: u32 where "THREAD_CONTEXT_OFFSET = 28"

definition task_addr :: "image \<Rightarrow> nat \<Rightarrow> u32" where
  "task_addr img i = kernel_tasks img + 20 * of_nat i"

definition thread_addr :: "image \<Rightarrow> nat \<Rightarrow> u32" where
  "thread_addr img i = kernel_threads img + 12 * of_nat i"

section \<open>Mapped memory\<close>

primrec write_words :: "u32 \<Rightarrow> u32 list \<Rightarrow> 'a paging_scheme \<Rightarrow> ('a paging_scheme) kres" where
  "write_words va [] s = Inr s"
| "write_words va (w # ws) s = kbind (write32 va w s) (write_words (va + 4) ws)"

text \<open>\<open>memcpy\<close> between two aligned areas that do not overlap: whole words, then the bytes left over.\<close>

primrec copy_words :: "nat \<Rightarrow> u32 \<Rightarrow> u32 \<Rightarrow> 'a paging_scheme \<Rightarrow> ('a paging_scheme) kres" where
  "copy_words 0 dst src s = Inr s"
| "copy_words (Suc n) dst src s =
     kbind (read32 src s) (\<lambda>w. kbind (write32 dst w s) (copy_words n (dst + 4) (src + 4)))"

definition copy_bytes :: "u32 \<Rightarrow> u32 \<Rightarrow> nat \<Rightarrow> 'a paging_scheme \<Rightarrow> ('a paging_scheme) kres" where
  "copy_bytes dst src n s =
     (let off = of_nat (4 * (n div 4)); low = mask (8 * (n mod 4)) in
      kbind (copy_words (n div 4) dst src s) (\<lambda>s1.
      if n mod 4 = 0 then Inr s1
      else kbind (read32 (src + off) s1) (\<lambda>w.
        update32 (dst + off) (\<lambda>old. (old AND NOT low) OR (w AND low)) s1)))"

section \<open>Page directories\<close>

text \<open>The part of the kernel's directory that a new one gets, and its entry for itself.\<close>

definition copy_kernel_entries :: "image \<Rightarrow> u32 \<Rightarrow> 'a paging_scheme \<Rightarrow> ('a paging_scheme) kres" where
  "copy_kernel_entries img dir s =
     kbind (copy_bytes (dir + 4 * 768) (g_kernel_page_dir img + 4 * 768) 255 s) (\<lambda>s1.
     kbind (update32 (dir + 4 * 1023) (set_flag 0 True) s1) (\<lambda>s2.
     kbind (update32 (dir + 4 * 1023) (set_flag 1 True) s2) (\<lambda>s3.
     kbind (virt_to_phys dir s3) (\<lambda>phys.
     update32 (dir + 4 * 1023) (set_address (drop_bit 12 phys)) s3))))"

definition clone_page_dir :: "image \<Rightarrow> u32 \<Rightarrow> 'a paging_scheme \<Rightarrow> (u32 \<times> 'a paging_scheme) kres" where
  "clone_page_dir img pde s =
     kbind (if pde = 0 then
              kbind (paging_structure_alloc s) (\<lambda>(dir, s1).
              kbind (copy_kernel_entries img dir s1) (\<lambda>s2. Inr (dir, s2)))
            else Inr (pde, s)) (\<lambda>(dir, s2).
     kbind (kassert (IS_PAGE_ALIGNED dir) ''IS_PAGE_ALIGNED(pde)'') (\<lambda>_. Inr (dir, s2)))"

section \<open>Starting the system task\<close>

text \<open>\<open>scheduler_bootstrap_thread\<close>: the result has the address the \<open>iret\<close> jumps to and the stack pointer.\<close>

definition scheduler_bootstrap_thread ::
    "u32 \<Rightarrow> u32 \<Rightarrow> 'a scheduler_scheme \<Rightarrow> (u32 \<times> u32 \<times> 'a scheduler_scheme) kres" where
  "scheduler_bootstrap_thread flags p s =
     (let s1 = s\<lparr>if_flag := False, g_current_process := p\<rparr>;
          ebp = th_context (threads s1 (p_thread (processes s1 p)))
      in kbind (read32 (ebp + 28) s1) (\<lambda>sp.
         kbind (write32 (sp - 4) (flags OR 0x200) s1) (\<lambda>s2.
         kbind (read32 (ebp + 60) s2) (\<lambda>sel.
         kbind (write32 (sp - 8) sel s2) (\<lambda>s3.
         kbind (read32 (ebp + 56) s3) (\<lambda>entry.
         kbind (write32 (sp - 12) entry s3) (\<lambda>s4.
         kbind (read32 (sp - 12) s4) (\<lambda>target.
         kbind (read32 (sp - 4) s4) (\<lambda>fl.
         Inr (target, sp, s4\<lparr>if_flag := bit fl 9\<rparr>))))))))))"

text \<open>The fields of the context that \<open>init_system_task\<close> sets, in the order of the assignments.\<close>

definition fill_context :: "image \<Rightarrow> u32 \<Rightarrow> 'a paging_scheme \<Rightarrow> ('a paging_scheme) kres" where
  "fill_context img flags s =
     (let c = local_context img in
      kbind (write32 (c + 28) (g_kernel_stack_bottom img) s) (\<lambda>s1.
      kbind (write32 (c + 56) (kernel_system_task_entry img) s1) (\<lambda>s2.
      kbind (write32 (c + 60) 0x8 s2) (\<lambda>s3.
      kbind (write_words c [0x10, 0x10, 0x10, 0x10] s3) (\<lambda>s4.
      write32 (c + 64) (flags OR 0x200) s4)))))"

definition init_system_task ::
    "image \<Rightarrow> u32 \<Rightarrow> nat \<Rightarrow> 'a scheduler_scheme \<Rightarrow> (u32 \<times> u32 \<times> 'a scheduler_scheme) kres" where
  "init_system_task img flags fuel s =
     (let task = task_addr img SYSTEM; th = thread_addr img SYSTEM;
          s1 = fold (\<lambda>i. upd_process (task_addr img i) (\<lambda>_. zero_process)) [0..<NUM_TASKS] s;
          s2 = upd_process task (\<lambda>p. p\<lparr>p_pgdir := 0xFFFFF000, p_quantum := DEFAULT_QUANTUM\<rparr>) s1;
          s3 = fold (\<lambda>i. upd_thread (thread_addr img i) (\<lambda>_. \<lparr>th_context = 0, th_owner = 0, th_next = 0\<rparr>))
            [0..<NUM_TASKS] s2;
          s4 = upd_process task (\<lambda>p. p\<lparr>p_thread := th\<rparr>) s3;
          s5 = upd_thread th (\<lambda>t. t\<lparr>th_owner := task, th_context := local_context img\<rparr>) s4
      in kbind (fill_context img flags s5) (\<lambda>s6.
         kbind (scheduler_add_process fuel task s6) (\<lambda>(_, s7).
         scheduler_bootstrap_thread flags task s7)))"

section \<open>Entry points\<close>

definition kinit :: "image \<Rightarrow> nat \<Rightarrow> u32 \<Rightarrow> u32 \<Rightarrow> 'a kernel_scheme \<Rightarrow> ('a kernel_scheme) kres" where
  "kinit img fuel boot_magic mbi s =
     kbind (panic_if (boot_magic \<noteq> MULTIBOOT_BOOTLOADER_MAGIC)
       ''kinit not called with correct multiboot magic'') (\<lambda>_.
     kbind (panic_if (mbi = 0) ''NULL multiboot info record passed to kinit'') (\<lambda>_.
     kbind (serio_init fuel SERIO_COM1 (s\<lparr>g_multiboot_info := multiboot_infos s mbi\<rparr>)) (\<lambda>s1.
     kbind (tty_init s1) (\<lambda>s2.
     kernel_heap_init (heap_addr img) s2))))"

definition kmain :: "image \<Rightarrow> u32 \<Rightarrow> nat \<Rightarrow> 'a kernel_scheme \<Rightarrow> (u32 \<times> u32 \<times> 'a kernel_scheme) kres" where
  "kmain img flags fuel s =
     kbind (gdt_init (gdt_addr img) (tss_addr img) s) (\<lambda>s1.
     kbind (int_init (idt_addr img) (isr_addrs img) s1) (\<lambda>s2.
     kbind (tss_init (g_kernel_stack_top img) s2) (\<lambda>s3.
     kbind (pmm_init fuel (kernel_start img) (kernel_end img) (high_offset img) s3) (\<lambda>s4.
     kbind (tty_remap s4) (\<lambda>s5.
     kbind (module_table_init fuel (caller img) s5) (\<lambda>s6.
     kbind (timer_init fuel (caller img) DEFAULT_SYSTEM_TIMER_FREQ s6) (\<lambda>s7.
     kbind (scheduler_init fuel (caller img) s7) (\<lambda>s8.
     init_system_task img flags fuel s8))))))))"

section \<open>The tasks\<close>

text \<open>The words of the new context: \<open>struct thread_context\<close> without its last two members.\<close>

definition init_context :: "image \<Rightarrow> u32 \<Rightarrow> u32 \<Rightarrow> u32 list" where
  "init_context img flags sp =
     [0x10, 0x10, 0x10, 0x10, 0, 0, 0, sp + THREAD_CONTEXT_OFFSET, 0, 0, 0, 0, 0, 0,
      kernel_idle_task_entry img, 0x8, flags OR 0x200]"

definition spawn_init :: "image \<Rightarrow> u32 \<Rightarrow> nat \<Rightarrow> 'a scheduler_scheme \<Rightarrow> (bool \<times> 'a scheduler_scheme) kres" where
  "spawn_init img flags fuel s =
     (let task = task_addr img INIT; th = thread_addr img INIT; top = KHEAP_START - PAGE_SIZE in
      kbind (int_lock_region s) (\<lambda>(lock, s1).
      kbind (paging_structure_alloc s1) (\<lambda>(dir, s2).
      kbind (copy_kernel_entries img dir (upd_process task (\<lambda>p. p\<lparr>p_pgdir := dir\<rparr>) s2)) (\<lambda>s3.
      let s4 = upd_thread th (\<lambda>t. t\<lparr>th_owner := task\<rparr>)
                 (upd_process task (\<lambda>p. p\<lparr>p_quantum := DEFAULT_QUANTUM, p_thread := th\<rparr>) s3)
      in kbind (page_alloc pte_zero s4) (\<lambda>(pte, s5).
         case pte of
           None \<Rightarrow> Inl (Panic ''out of memory'')
         | Some pte \<Rightarrow>
             kbind (page_map (push_bit 12 (ucast (pte_address pte))) (top - PAGE_SIZE) True False s5) (\<lambda>s6.
             let sp = top - (76 - 8) in
             kbind (write_words sp (init_context img flags sp) s6) (\<lambda>s7.
             kbind (int_unlock_region lock (upd_thread th (\<lambda>t. t\<lparr>th_context := sp\<rparr>) s7)) (\<lambda>s8.
             scheduler_add_process fuel task s8))))))))"

text \<open>One round of the loop of a task, up to its inner loop, which halts while the flag is set.\<close>

definition task_round :: "string \<Rightarrow> u32 \<Rightarrow> 'a scheduler_scheme \<Rightarrow> ('a scheduler_scheme) kres" where
  "task_round text sp s =
     kbind (printf text [] s) (\<lambda>s1.
     kbind (printf (''esp = %p'' @ [CHR 0x0A]) [VInt sp] s1) (\<lambda>s2.
     process_yield s2))"

definition halts :: "u32 \<Rightarrow> 'a scheduler_scheme \<Rightarrow> bool" where
  "halts task s \<longleftrightarrow> p_flags (processes s task) AND PROC_DEBUG_YIELD \<noteq> 0"

definition kernel_system_task :: "image \<Rightarrow> u32 \<Rightarrow> u32 \<Rightarrow> nat \<Rightarrow> 'a scheduler_scheme \<Rightarrow> ('a scheduler_scheme) kres" where
  "kernel_system_task img flags sp fuel s =
     kbind (spawn_init img flags fuel s) (\<lambda>(_, s1). task_round ''system task: '' sp s1)"

definition kernel_idle_task :: "u32 \<Rightarrow> 'a scheduler_scheme \<Rightarrow> ('a scheduler_scheme) kres" where
  "kernel_idle_task sp s = task_round ''idle task: '' sp s"

section \<open>Accesses within a page\<close>

lemma page_access:
  assumes "IS_PAGE_ALIGNED b" "i < 1024" "translate b s = Inr f"
  shows "translate (b + of_nat (4 * i)) s = Inr f"
    and "read32 (b + of_nat (4 * i)) s = Inr (pmem s f (of_nat i))"
    and "write32 (b + of_nat (4 * i)) v s = Inr (poke f (of_nat i) v s)"
    and "update32 (b + of_nat (4 * i)) g s = Inr (poke f (of_nat i) (g (pmem s f (of_nat i))) s)"
proof -
  note w = page_word [OF assms(1,2)]
  show tr: "translate (b + of_nat (4 * i)) s = Inr f"
    using assms(3) w by (auto simp: translate_def Let_def split: if_splits)
  show "read32 (b + of_nat (4 * i)) s = Inr (pmem s f (of_nat i))"
    "write32 (b + of_nat (4 * i)) v s = Inr (poke f (of_nat i) v s)"
    "update32 (b + of_nat (4 * i)) g s = Inr (poke f (of_nat i) (g (pmem s f (of_nat i))) s)"
    unfolding update32_def read32_def write32_def tr w(3) by simp_all
qed

text \<open>Words \<open>i\<close> to \<open>j\<close> of frame \<open>f\<close> replaced by those of frame \<open>k\<close>.\<close>

definition copied :: "20 word \<Rightarrow> 20 word \<Rightarrow> nat \<Rightarrow> nat \<Rightarrow> 'a paging_scheme \<Rightarrow> 'a paging_scheme" where
  "copied f k i j s =
     s\<lparr>pmem := (pmem s)(f := \<lambda>w. if i \<le> unat w \<and> unat w < j then pmem s k w else pmem s f w)\<rparr>"

lemma copied_step:
  assumes "i < j" "i < 1024" "f \<noteq> k"
  shows "copied f k (Suc i) j (poke f (of_nat i) (pmem s k (of_nat i)) s) = copied f k i j s"
proof -
  have "w = of_nat i \<longleftrightarrow> unat w = i" for w :: "10 word"
    using assms(2) by (auto simp: word_unat_eq_iff unat_of_nat)
  then have "(\<lambda>w. if Suc i \<le> unat w \<and> unat w < j then pmem s k w else
        if w = of_nat i then pmem s k (of_nat i) else pmem s f w) =
      (\<lambda>w. if i \<le> unat w \<and> unat w < j then pmem s k w else pmem s f w)"
    using assms(1) by (intro ext) auto
  then show ?thesis using assms(3) by (simp add: copied_def poke_def fun_upd_def cong: if_cong)
qed

lemma copy_words_spec:
  assumes "IS_PAGE_ALIGNED d" "IS_PAGE_ALIGNED c"
  shows "translate d s = Inr f \<Longrightarrow> translate c s = Inr k \<Longrightarrow> f \<notin> {k, cr3 s, table_of s d, table_of s c} \<Longrightarrow>
    i + n \<le> 1024 \<Longrightarrow>
    copy_words n (d + of_nat (4 * i)) (c + of_nat (4 * i)) s = Inr (copied f k i (i + n) s)"
proof (induction n arbitrary: i s)
  case 0
  have "(\<lambda>w. if i \<le> unat w \<and> unat w < i then pmem s k w else pmem s f w) = pmem s f"
    by (intro ext) auto
  then show ?case by (simp add: copied_def)
next
  case (Suc n)
  then have i: "i < 1024" by simp
  let ?s = "poke f (of_nat i) (pmem s k (of_nat i)) s"
  have "copy_words n (d + of_nat (4 * Suc i)) (c + of_nat (4 * Suc i)) ?s = Inr (copied f k (Suc i) (Suc i + n) ?s)"
    using Suc.prems by (intro Suc.IH) (auto simp: translate_poke_table)
  moreover have "d + of_nat (4 * i) + 4 = d + of_nat (4 * Suc i)" "c + of_nat (4 * i) + 4 = c + of_nat (4 * Suc i)"
    by simp_all
  ultimately show ?case
    using page_access(2) [OF assms(2) i Suc.prems(2)] page_access(3) [OF assms(1) i Suc.prems(1)]
      copied_step [of i "i + Suc n" f k s] Suc.prems(3) i by (simp add: add_ac)
qed

section \<open>A new page directory\<close>

lemma unat10_cases:
  "unat (w :: 10 word) = 831 \<longleftrightarrow> w = 831" "unat w = 1023 \<longleftrightarrow> w = 1023"
  by (auto simp: word_unat_eq_iff)

lemma translate_copied:
  "f \<noteq> cr3 s \<Longrightarrow> f \<noteq> table_of s va \<Longrightarrow> translate va (copied f k i j s) = translate va s"
  by (simp add: translate_def copied_def Let_def)

lemma translate_poke_other:
  "f \<noteq> cr3 s \<Longrightarrow> f \<noteq> table_of s va \<Longrightarrow> translate va (poke f i v s) = translate va s"
  by (auto simp: translate_poke_table)

lemma copied_simps [simp]:
  "cr3 (copied f k i j s) = cr3 s" "page_bitmap (copied f k i j s) = page_bitmap s"
  "placement_heap (copied f k i j s) = placement_heap s"
  "pmem (copied f k i j s) g w = (if g = f \<and> i \<le> unat w \<and> unat w < j then pmem s k w else pmem s g w)"
  by (simp_all add: copied_def)

text \<open>The entries of the directory at \<open>dir\<close>, in frame \<open>f\<close>, once the kernel's have been copied from
  frame \<open>k\<close>.\<close>

definition cloned_entry :: "'a paging_scheme \<Rightarrow> 20 word \<Rightarrow> 20 word \<Rightarrow> 10 word \<Rightarrow> u32" where
  "cloned_entry s f k w =
     (if w = 1023 then set_address (ucast f) (set_flag 1 True (set_flag 0 True (pmem s f w)))
      else if 768 \<le> unat w \<and> unat w < 831 then pmem s k w
      else if w = 831 then (pmem s f w AND NOT 0xFFFFFF) OR (pmem s k w AND 0xFFFFFF)
      else pmem s f w)"

lemma copy_kernel_entries_spec:
  assumes "recursive s" "IS_PAGE_ALIGNED d" "IS_PAGE_ALIGNED (g_kernel_page_dir img)"
    and "translate d s = Inr f" "translate (g_kernel_page_dir img) s = Inr k"
    and f: "f \<notin> {k, cr3 s, table_of s d, table_of s (g_kernel_page_dir img)}"
  shows "\<exists>t. copy_kernel_entries img d s = Inr t \<and> translate d t = Inr f \<and>
    (\<forall>g w. pmem t g w = (if g = f then cloned_entry s f k w else pmem s g w)) \<and>
    cr3 t = cr3 s \<and> page_bitmap t = page_bitmap s \<and> placement_heap t = placement_heap s"
proof -
  let ?c = "g_kernel_page_dir img"
  have ne: "f \<noteq> k" "f \<noteq> cr3 s" "cr3 s \<noteq> f" "f \<noteq> table_of s d" "table_of s d \<noteq> f" "f \<noteq> table_of s ?c" using f by auto
  let ?s1 = "copied f k 768 831 s"
  let ?v = "(pmem s f 831 AND NOT 0xFFFFFF) OR (pmem s k 831 AND 0xFFFFFF)"
  let ?s2 = "poke f 831 ?v ?s1"
  have tr1: "translate d ?s1 = Inr f" "translate ?c ?s1 = Inr k"
    using assms(4,5) ne by (simp_all add: translate_copied)
  have m: "mask (8 * (255 mod 4)) = (0xFFFFFF :: u32)" by (simp add: mask_eq_exp_minus_1)
  have "copy_words 63 (d + 3072) (?c + 3072) s = Inr ?s1"
    using copy_words_spec [OF assms(2-6), of 768 63] by simp
  moreover have "read32 (?c + 3072 + 252) ?s1 = Inr (pmem s k 831)"
    using page_access(2) [OF assms(3) _ tr1(2), of 831] f by (simp add: add.assoc)
  moreover have "update32 (d + 3072 + 252) (\<lambda>old. (old AND NOT 0xFFFFFF) OR (pmem s k 831 AND 0xFFFFFF)) ?s1 = Inr ?s2"
    using page_access(4) [OF assms(2) _ tr1(1), of 831] by (simp add: add.assoc)
  ultimately have copy: "copy_bytes (d + 4 * 768) (?c + 4 * 768) 255 s = Inr ?s2"
    unfolding copy_bytes_def m Let_def by simp
  let ?s3 = "poke f 1023 (set_flag 0 True (pmem ?s2 f 1023)) ?s2"
  let ?s4 = "poke f 1023 (set_flag 1 True (pmem ?s3 f 1023)) ?s3"
  have tr: "translate d ?s2 = Inr f" "translate d ?s3 = Inr f" "translate d ?s4 = Inr f"
    using tr1 ne by (simp_all add: translate_poke_other)
  have rec: "recursive ?s4" using assms(1) ne by (simp add: recursive_def)
  have low: "d AND 0xFFF = 0" using assms(2) by (simp add: IS_PAGE_ALIGNED_def)
  have phys: "virt_to_phys d ?s4 = Inr (push_bit 12 (ucast f))"
    using virt_to_phys_translate [OF rec tr(3)] low by simp
  have shift: "drop_bit 12 (push_bit 12 (ucast f) :: u32) = ucast f"
    by (rule bit_word_eqI) (auto simp: bit_simps dest: bit_imp_le_length)
  have "copy_kernel_entries img d s =
      Inr (poke f 1023 (set_address (ucast f) (pmem ?s4 f 1023)) ?s4)" (is "_ = Inr ?t")
    unfolding copy_kernel_entries_def copy
    using page_access(4) [OF assms(2) _ tr(1), of 1023] page_access(4) [OF assms(2) _ tr(2), of 1023]
      page_access(4) [OF assms(2) _ tr(3), of 1023] phys shift by simp
  moreover have "pmem ?t g w = (if g = f then cloned_entry s f k w else pmem s g w)" for g w
    by (auto simp: cloned_entry_def)
  moreover have "translate d ?t = Inr f" using tr(3) ne by (simp add: translate_poke_other)
  ultimately show ?thesis by auto
qed

text \<open>States with the same memory, bitmap and placement heap.\<close>

definition same_memory :: "'a paging_scheme \<Rightarrow> 'a paging_scheme \<Rightarrow> bool" where
  "same_memory s t \<longleftrightarrow> pmem t = pmem s \<and> cr3 t = cr3 s \<and> page_bitmap t = page_bitmap s \<and>
     placement_heap t = placement_heap s"

lemma same_memory_vm:
  assumes "same_memory s t"
  shows "vm_ok t = vm_ok s" "in_use t = in_use s" "page_limit t = page_limit s" "translate va t = translate va s"
    "pmem t = pmem s" "cr3 t = cr3 s" "placement_heap t = placement_heap s"
  using assms
  by (simp_all add: same_memory_def vm_ok_def pages_ok_def recursive_def in_use_def page_limit_def translate_def Let_def)

text \<open>The directory that is made at the placement heap of \<open>s\<close>, in the fresh frame \<open>F\<close>.\<close>

definition directory_made :: "'a paging_scheme \<Rightarrow> 20 word \<Rightarrow> 'a paging_scheme \<Rightarrow> bool" where
  "directory_made s F t \<longleftrightarrow> unat F \<notin> in_use s \<and> in_use t = insert (unat F) (in_use s) \<and> vm_ok t \<and> cr3 t = cr3 s \<and>
     translate (placement_heap s) t = Inr F \<and> placement_heap t = placement_heap s + PAGE_SIZE \<and>
     page_limit t = page_limit s \<and>
     (\<forall>w. pmem t F w = (if w = 1023 then set_address (ucast F) 3 else if 768 \<le> w \<and> w < 831 then pmem s (cr3 s) w
        else if w = 831 then pmem s (cr3 s) 831 AND 0xFFFFFF else 0)) \<and>
     (\<forall>f w. f \<noteq> F \<and> (f \<noteq> table_of s (placement_heap s) \<or> w \<noteq> pt_index (placement_heap s)) \<longrightarrow> pmem t f w = pmem s f w)"

lemma new_directory:
  assumes "vm_ok s" "IS_PAGE_ALIGNED (placement_heap s)" "slot_free (placement_heap s) s"
    "\<not> {..<page_limit s} \<subseteq> in_use s" "IS_PAGE_ALIGNED (g_kernel_page_dir img)"
    "translate (g_kernel_page_dir img) s = Inr (cr3 s)" "other_entry s (g_kernel_page_dir img) (placement_heap s)"
  shows "\<exists>F s1. paging_structure_alloc s = Inr (placement_heap s, s1) \<and>
    (\<forall>u. same_memory s1 u \<longrightarrow> (\<exists>t. copy_kernel_entries img (placement_heap s) u = Inr t \<and> directory_made s F t))"
proof -
  let ?ph = "placement_heap s" and ?c = "g_kernel_page_dir img"
  obtain F s1 where a: "paging_structure_alloc s = Inr (?ph, s1)" "unat F \<notin> in_use s"
    "in_use s1 = insert (unat F) (in_use s)" "vm_ok s1" "cr3 s1 = cr3 s" "translate ?ph s1 = Inr F"
    "placement_heap s1 = ?ph + PAGE_SIZE" "page_limit s1 = page_limit s"
    and mem: "\<And>f i. pmem s1 f i = (if f = F then 0 else if f = table_of s ?ph \<and> i = pt_index ?ph
       then new_entry (push_bit 12 (ucast F)) True False (pte_of s ?ph) else pmem s f i)"
    using structure_alloc_spec [OF assms(1-4), of 2]
    unfolding paging_structure_alloc_def page_map_def by (auto simp: numeral_3_eq_3)
  have ne: "F \<noteq> cr3 s" "cr3 s \<noteq> F" "\<And>v. F \<noteq> table_of s v" "table_of s ?ph \<noteq> cr3 s"
    using a(2) assms(1,3) by (auto simp: vm_ok_def slot_free_def)
  have c: "translate ?c s1 = Inr (cr3 s)"
    using assms(6,7) ne by (auto simp: translate_def Let_def a(5) mem other_entry_def split: if_splits)
  have "\<exists>t. copy_kernel_entries img ?ph u = Inr t \<and> directory_made s F t" if u: "same_memory s1 u" for u
  proof -
    note eq = same_memory_vm [OF u]
    have "F \<notin> {cr3 s, cr3 u, table_of u ?ph, table_of u ?c}" using ne by (simp add: eq a(5) mem)
    moreover have "recursive u" using a(4) eq(1) by (simp add: vm_ok_def)
    ultimately obtain t where t: "copy_kernel_entries img ?ph u = Inr t" "translate ?ph t = Inr F"
      "\<And>g w. pmem t g w = (if g = F then cloned_entry u F (cr3 s) w else pmem s1 g w)"
      "cr3 t = cr3 s" "page_bitmap t = page_bitmap s1" "placement_heap t = ?ph + PAGE_SIZE"
      using copy_kernel_entries_spec [OF _ assms(2,5), of u F "cr3 s"] a(5-7) c u
      by (auto simp: eq same_memory_def)
    have entry: "cloned_entry u F (cr3 s) w = (if w = 1023 then set_address (ucast F) 3
        else if 768 \<le> w \<and> w < 831 then pmem s (cr3 s) w
        else if w = 831 then pmem s (cr3 s) 831 AND 0xFFFFFF else 0)" for w
      using ne by (auto simp: cloned_entry_def eq(5) mem set_flag_def word_less_nat_alt word_le_nat_alt)
    have same: "pmem t (cr3 s) = pmem s1 (cr3 s)" using t(3) ne by (intro ext) simp
    have "vm_ok t" using a(4) same t(4,5) by (simp add: vm_ok_def pages_ok_def recursive_def in_use_def a(5))
    moreover have "in_use t = insert (unat F) (in_use s)" using a(3) t(5) by (simp add: in_use_def)
    moreover have "page_limit t = page_limit s" using a(8) t(5) by (simp add: page_limit_def)
    ultimately have "directory_made s F t"
      using a(2) t(2,4,6) by (auto simp: directory_made_def t(3) entry mem)
    then show ?thesis using t(1) by blast
  qed
  then show ?thesis using a(1) by blast
qed

text \<open>\<open>clone_page_dir\<close> allocates a fresh page for the new directory and maps the directory to
  itself, but the length it gives to \<open>memcpy\<close> counts bytes and not entries: of the kernel's entries from
  768 on the new directory has the first 63 and the low three bytes of the next. The entries from 832 on,
  those of the kernel heap at 0xD0000000 and of everything above it, stay empty.\<close>

lemma clone_page_dir_loses_heap:
  assumes "vm_ok s" "IS_PAGE_ALIGNED (placement_heap s)" "slot_free (placement_heap s) s"
    "\<not> {..<page_limit s} \<subseteq> in_use s" "IS_PAGE_ALIGNED (g_kernel_page_dir img)"
    "translate (g_kernel_page_dir img) s = Inr (cr3 s)" "other_entry s (g_kernel_page_dir img) (placement_heap s)"
  shows "\<exists>F t. clone_page_dir img 0 s = Inr (placement_heap s, t) \<and> unat F \<notin> in_use s \<and>
    in_use t = insert (unat F) (in_use s) \<and> translate (placement_heap s) t = Inr F \<and>
    pmem t F 1023 = set_address (ucast F) 3 \<and>
    (\<forall>w. w < 768 \<longrightarrow> pmem t F w = 0) \<and> (\<forall>w. 768 \<le> w \<and> w < 831 \<longrightarrow> pmem t F w = pmem s (cr3 s) w) \<and>
    pmem t F 831 = pmem s (cr3 s) 831 AND 0xFFFFFF \<and> (\<forall>w. 832 \<le> w \<and> w < 1023 \<longrightarrow> pmem t F w = 0) \<and>
    cr3 t = cr3 s \<and> (\<forall>f w. f \<noteq> F \<and> (f \<noteq> table_of s (placement_heap s) \<or> w \<noteq> pt_index (placement_heap s)) \<longrightarrow>
      pmem t f w = pmem s f w)"
proof -
  obtain F s1 t where t: "paging_structure_alloc s = Inr (placement_heap s, s1)"
    "copy_kernel_entries img (placement_heap s) s1 = Inr t" "directory_made s F t"
    using new_directory [OF assms] same_memory_def [of _ "_ :: 'a paging_scheme"] by blast
  have "clone_page_dir img 0 s = Inr (placement_heap s, t)"
    using t(1,2) assms(2) by (simp add: clone_page_dir_def)
  moreover have "\<not> 768 \<le> w \<and> w \<noteq> 1023 \<and> w \<noteq> 831" if "w < 768" for w :: "10 word" using that by auto
  ultimately show ?thesis
    using t(3) by (intro exI [of _ F] exI [of _ t]) (auto simp: directory_made_def word_less_nat_alt word_le_nat_alt)
qed

section \<open>The stack of the system task\<close>

lemma page_store:
  assumes "IS_PAGE_ALIGNED b" "i < 1024" "translate b s = Inr f" "f \<noteq> cr3 s" "f \<noteq> table_of s b"
  shows "write32 (b + of_nat (4 * i)) v (s\<lparr>pmem := (pmem s)(f := m)\<rparr>) =
    Inr (s\<lparr>pmem := (pmem s)(f := m(of_nat i := v))\<rparr>)"
proof -
  have "translate b (s\<lparr>pmem := (pmem s)(f := m)\<rparr>) = Inr f"
    using assms(3-5) by (auto simp: translate_def Let_def split: if_splits)
  from page_access(3) [OF assms(1,2) this, of v] show ?thesis by (simp add: poke_def)
qed

lemma fill_context_spec:
  assumes c: "local_context img = b + of_nat (4 * k)" "k + 17 \<le> 1024" and b: "IS_PAGE_ALIGNED b"
    "translate b s = Inr f" "f \<noteq> cr3 s" "f \<noteq> table_of s b"
  shows "\<exists>m. fill_context img flags s = Inr (s\<lparr>pmem := (pmem s)(f := m)\<rparr>) \<and>
    m (of_nat (k + 7)) = g_kernel_stack_bottom img \<and> m (of_nat (k + 14)) = kernel_system_task_entry img \<and>
    m (of_nat (k + 15)) = 8"
proof -
  define a where "a = (\<lambda>j. of_nat (k + j) :: 10 word)"
  have a: "a i = a j \<longleftrightarrow> i = j" if "i < 17" "j < 17" for i j
    using that c(2) by (simp add: a_def of_nat_10 del: of_nat_add)
  have store: "write32 (local_context img + of_nat (4 * j)) v (s\<lparr>pmem := (pmem s)(f := m)\<rparr>) =
      Inr (s\<lparr>pmem := (pmem s)(f := m(a j := v))\<rparr>)" if "j < 17" for j v m
    using page_store [OF b(1) _ b(2-4), of "k + j" v m] that c by (simp add: algebra_simps a_def)
  have first: "write32 (local_context img + 28) v s = Inr (s\<lparr>pmem := (pmem s)(f := (pmem s f)(a 7 := v))\<rparr>)" for v
    using store [of 7 v "pmem s f"] by simp
  note w = store [of 0, simplified] store [of 1, simplified] store [of 2, simplified] store [of 3, simplified]
    store [of 14, simplified] store [of 15, simplified] store [of 16, simplified]
  have "\<exists>m. fill_context img flags s = Inr (s\<lparr>pmem := (pmem s)(f := m)\<rparr>) \<and>
    m (a 7) = g_kernel_stack_bottom img \<and> m (a 14) = kernel_system_task_entry img \<and> m (a 15) = 8"
    unfolding fill_context_def Let_def first
    by (simp add: w add.assoc) (intro exI conjI, rule refl, simp_all add: a)
  then show ?thesis unfolding a_def .
qed

text \<open>The address is not translated through the last three entries of frame \<open>f\<close>.\<close>

definition clear_of :: "'a paging_scheme \<Rightarrow> 20 word \<Rightarrow> u32 \<Rightarrow> bool" where
  "clear_of s f va \<longleftrightarrow> f \<noteq> cr3 s \<and> (table_of s va \<noteq> f \<or> pt_index va < 1021)"

lemma translate_clear:
  "clear_of s f va \<Longrightarrow> 1021 \<le> i \<Longrightarrow> translate va (poke f i v s) = translate va s"
  by (auto simp: clear_of_def translate_poke_table)

lemma clear_of_poke: "clear_of s f va \<Longrightarrow> clear_of (poke f i v s) f va"
  by (auto simp: clear_of_def)

lemma bootstrap_spec:
  fixes s :: "'a scheduler_scheme"
  assumes "th_context (threads s (p_thread (processes s p))) = b + of_nat (4 * k)" "k + 17 \<le> 1024"
    and b: "IS_PAGE_ALIGNED b" "translate b s = Inr g" "clear_of s f b"
    and ctx: "pmem s g (of_nat (k + 7)) = tbl + 0x1000" "pmem s g (of_nat (k + 14)) = entry"
      "pmem s g (of_nat (k + 15)) = sel"
    and tbl: "IS_PAGE_ALIGNED tbl" "translate tbl s = Inr f" "clear_of s f tbl" "f \<noteq> g"
  shows "scheduler_bootstrap_thread flags p s = Inr (entry, tbl + 0x1000,
    s\<lparr>if_flag := True, g_current_process := p,
      pmem := (pmem s)(f := (pmem s f)(1023 := flags OR 0x200, 1022 := sel, 1021 := entry))\<rparr>)"
proof -
  define s1 where "s1 = s\<lparr>if_flag := False, g_current_process := p\<rparr>"
  define s2 where "s2 = poke f 1023 (flags OR 0x200) s1"
  define s3 where "s3 = poke f 1022 sel s2"
  define s4 where "s4 = poke f 1021 entry s3"
  have s1: "pmem s1 = pmem s" "cr3 s1 = cr3 s" "\<And>va. translate va s1 = translate va s" "\<And>va. clear_of s1 f va = clear_of s f va"
    by (simp_all add: s1_def translate_def Let_def clear_of_def)
  have tr: "translate va s1 = translate va s" "translate va s2 = translate va s" "translate va s3 = translate va s"
    "translate va s4 = translate va s" if "clear_of s f va" for va
    using that by (simp_all add: s1 s2_def s3_def s4_def translate_clear clear_of_poke)
  have off: "b + of_nat (4 * k) + of_nat (4 * j) = b + of_nat (4 * (k + j))" for j by (simp add: algebra_simps)
  have read: "read32 (b + of_nat (4 * k) + of_nat (4 * j)) t = Inr (pmem t g (of_nat (k + j)))"
    if "j < 17" "translate b t = Inr g" for j and t :: "'a scheduler_scheme"
    unfolding off using that assms(2) by (intro page_access(2) [OF b(1)]) simp_all
  have regs: "read32 (b + of_nat (4 * k) + 28) s1 = Inr (tbl + 0x1000)"
    "read32 (b + of_nat (4 * k) + 60) s2 = Inr sel" "read32 (b + of_nat (4 * k) + 56) s3 = Inr entry"
    using read [of 7 s1] read [of 15 s2] read [of 14 s3] tr [OF b(3)] b(2) ctx tbl(4)
    by (simp_all add: s1 s2_def s3_def)
  have wr: "write32 (tbl + 0x1000 - 4) (flags OR 0x200) s1 = Inr s2" "write32 (tbl + 0x1000 - 8) sel s2 = Inr s3"
    "write32 (tbl + 0x1000 - 12) entry s3 = Inr s4"
    using page_access(3) [OF tbl(1), of 1023 s1 f] page_access(3) [OF tbl(1), of 1022 s2 f]
      page_access(3) [OF tbl(1), of 1021 s3 f] tr [OF tbl(3)] tbl(2)
    by (simp_all add: s2_def s3_def s4_def add.commute [of tbl])
  have pop: "read32 (tbl + 0x1000 - 12) s4 = Inr entry" "read32 (tbl + 0x1000 - 4) s4 = Inr (flags OR 0x200)"
    using page_access(2) [OF tbl(1), of 1021 s4 f] page_access(2) [OF tbl(1), of 1023 s4 f] tr [OF tbl(3)] tbl(2)
    by (simp_all add: s2_def s3_def s4_def add.commute [of tbl])
  have ifl: "bit (flags OR 0x200) 9" by (simp add: bit_or_iff bit_numeral_rec)
  have "th_context (threads s1 (p_thread (processes s1 p))) = b + of_nat (4 * k)"
    using assms(1) by (simp add: s1_def)
  then have "scheduler_bootstrap_thread flags p s = Inr (entry, tbl + 0x1000, s4\<lparr>if_flag := True\<rparr>)"
    unfolding scheduler_bootstrap_thread_def Let_def s1_def [symmetric] using regs wr pop ifl by simp
  then show ?thesis by (simp add: s4_def s3_def s2_def s1_def poke_def)
qed

lemma vm_locked [simp]:
  "pmem (locked s) = pmem s" "cr3 (locked s) = cr3 s" "page_bitmap (locked s) = page_bitmap s"
  "placement_heap (locked s) = placement_heap s" "pmem (unlocked l s) = pmem s" "cr3 (unlocked l s) = cr3 s"
  "page_bitmap (unlocked l s) = page_bitmap s" "placement_heap (unlocked l s) = placement_heap s"
  by (simp_all add: locked_def unlocked_def set_raw_mask_def ioport_outb_def Let_def)

lemma vm_upd [simp]:
  "pmem (upd_process p f s) = pmem s" "cr3 (upd_process p f s) = cr3 s" "page_bitmap (upd_process p f s) = page_bitmap s"
  "placement_heap (upd_process p f s) = placement_heap s"
  "pmem (upd_thread p g s) = pmem s" "cr3 (upd_thread p g s) = cr3 s" "page_bitmap (upd_thread p g s) = page_bitmap s"
  "placement_heap (upd_thread p g s) = placement_heap s"
  by (simp_all add: upd_process_def upd_thread_def)

lemma add_first_process:
  assumes "process_queue s = 0" "p \<noteq> 0" "queue_next s p = 0"
  shows "\<exists>t. scheduler_add_process n p s = Inr (True, t) \<and> process_queue t = p \<and> processes t = processes s \<and>
    threads t = threads s \<and> pmem t = pmem s \<and> cr3 t = cr3 s \<and> page_bitmap t = page_bitmap s \<and>
    placement_heap t = placement_heap s \<and> g_preemption_enabled t = g_preemption_enabled s"
  using assms unlock_same_mask [of "(locked s)\<lparr>process_queue := p\<rparr>" s]
  by (simp add: scheduler_add_process_def worry_if_def int_lock_region_eq)

text \<open>The placement of the stack in \<open>boot.S\<close>: the page in front of its bottom is the page table \<open>tbl\<close>, in
  frame \<open>f\<close>. The context is a local variable in another page, \<open>b\<close>.\<close>

definition boot_layout :: "image \<Rightarrow> u32 \<Rightarrow> 20 word \<Rightarrow> u32 \<Rightarrow> nat \<Rightarrow> 'a paging_scheme \<Rightarrow> bool" where
  "boot_layout img tbl f b k s \<longleftrightarrow>
     g_kernel_stack_bottom img = tbl + 0x1000 \<and> IS_PAGE_ALIGNED tbl \<and> translate tbl s = Inr f \<and> clear_of s f tbl \<and>
     local_context img = b + of_nat (4 * k) \<and> k + 17 \<le> 1024 \<and> IS_PAGE_ALIGNED b \<and> clear_of s f b \<and>
     (case translate b s of Inl e \<Rightarrow> False | Inr g \<Rightarrow> g \<notin> {f, cr3 s, table_of s b, table_of s tbl})"

lemma translate_cong: "pmem t = pmem s \<Longrightarrow> cr3 t = cr3 s \<Longrightarrow> translate va t = translate va s"
  by (simp add: translate_def Let_def)

lemma init_system_task_spec:
  fixes s :: "'a scheduler_scheme"
  assumes "boot_layout img tbl f b k s" and "process_queue s = 0" and "kernel_tasks img \<noteq> 0"
  shows "\<exists>t g. init_system_task img flags fuel s = Inr (kernel_system_task_entry img, g_kernel_stack_bottom img, t) \<and>
    translate b s = Inr g \<and>
    g_current_process t = task_addr img SYSTEM \<and> queued t [task_addr img SYSTEM] \<and> if_flag t \<and>
    p_quantum (processes t (task_addr img SYSTEM)) = DEFAULT_QUANTUM \<and>
    p_thread (processes t (task_addr img SYSTEM)) = thread_addr img SYSTEM \<and>
    p_flags (processes t (task_addr img SYSTEM)) = 0 \<and> processes t (task_addr img INIT) = zero_process \<and>
    g_preemption_enabled t = g_preemption_enabled s \<and> cr3 t = cr3 s \<and> page_bitmap t = page_bitmap s \<and>
    placement_heap t = placement_heap s \<and>
    pmem t f 1023 = flags OR 0x200 \<and> pmem t f 1022 = 8 \<and> pmem t f 1021 = kernel_system_task_entry img \<and>
    (\<forall>h w. h \<noteq> g \<longrightarrow> h \<noteq> f \<or> w < 1021 \<longrightarrow> pmem t h w = pmem s h w)"
proof -
  let ?task = "task_addr img SYSTEM" and ?th = "thread_addr img SYSTEM"
  obtain g where lay: "g_kernel_stack_bottom img = tbl + 0x1000" "IS_PAGE_ALIGNED tbl" "translate tbl s = Inr f"
    "clear_of s f tbl" "local_context img = b + of_nat (4 * k)" "k + 17 \<le> 1024" "IS_PAGE_ALIGNED b" "clear_of s f b"
    "translate b s = Inr g" "g \<noteq> f" "g \<noteq> cr3 s" "g \<noteq> table_of s b" "g \<noteq> table_of s tbl"
    using assms(1) by (auto simp: boot_layout_def split: sum.splits)
  have task: "?task = kernel_tasks img" by (simp add: task_addr_def SYSTEM_def)
  define s5 where "s5 = (let
          s1 = fold (\<lambda>i. upd_process (task_addr img i) (\<lambda>_. zero_process)) [0..<NUM_TASKS] s;
          s2 = upd_process ?task (\<lambda>p. p\<lparr>p_pgdir := 0xFFFFF000, p_quantum := DEFAULT_QUANTUM\<rparr>) s1;
          s3 = fold (\<lambda>i. upd_thread (thread_addr img i) (\<lambda>_. \<lparr>th_context = 0, th_owner = 0, th_next = 0\<rparr>))
            [0..<NUM_TASKS] s2;
          s4 = upd_process ?task (\<lambda>p. p\<lparr>p_thread := ?th\<rparr>) s3
      in upd_thread ?th (\<lambda>t. t\<lparr>th_owner := ?task, th_context := local_context img\<rparr>) s4)"
  have s5: "pmem s5 = pmem s" "cr3 s5 = cr3 s" "process_queue s5 = 0" "queue_next s5 ?task = 0"
    "p_thread (processes s5 ?task) = ?th" "th_context (threads s5 ?th) = local_context img"
    "p_quantum (processes s5 ?task) = DEFAULT_QUANTUM" "p_flags (processes s5 ?task) = 0"
    "processes s5 (task_addr img INIT) = zero_process" "page_bitmap s5 = page_bitmap s"
    "placement_heap s5 = placement_heap s" "g_preemption_enabled s5 = g_preemption_enabled s"
    using assms(2)
    by (simp_all add: s5_def Let_def NUM_TASKS_def upt_rec SYSTEM_def INIT_def task_addr_def zero_process_def)
  note tr5 = translate_cong [OF s5(1,2)]
  obtain m where m: "fill_context img flags s5 = Inr (s5\<lparr>pmem := (pmem s5)(g := m)\<rparr>)"
    "m (of_nat (k + 7)) = tbl + 0x1000" "m (of_nat (k + 14)) = kernel_system_task_entry img" "m (of_nat (k + 15)) = 8"
    using fill_context_spec [OF lay(5-7), of s5 g flags] lay(1,9,11,12) by (auto simp: tr5 s5)
  let ?s6 = "s5\<lparr>pmem := (pmem s5)(g := m)\<rparr>"
  from add_first_process [of ?s6 ?task fuel] assms(3) s5 obtain s7 where
    s7: "scheduler_add_process fuel ?task ?s6 = Inr (True, s7)" "process_queue s7 = ?task"
      "processes s7 = processes s5" "threads s7 = threads s5" "pmem s7 = (pmem s)(g := m)" "cr3 s7 = cr3 s"
      "page_bitmap s7 = page_bitmap s" "placement_heap s7 = placement_heap s"
      "g_preemption_enabled s7 = g_preemption_enabled s"
    by (auto simp: task)
  have tr7: "translate va s7 = translate va s" if "g \<noteq> table_of s va" for va
    using that lay(11) by (simp add: translate_def Let_def s7)
  have clear7: "clear_of s7 f va" if "clear_of s f va" for va
    using that lay(11) by (auto simp: clear_of_def s7)
  have "scheduler_bootstrap_thread flags ?task s7 = Inr (kernel_system_task_entry img, tbl + 0x1000,
      s7\<lparr>if_flag := True, g_current_process := ?task,
        pmem := (pmem s7)(f := (pmem s7 f)(1023 := flags OR 0x200, 1022 := 8, 1021 := kernel_system_task_entry img))\<rparr>)"
    (is "_ = Inr (_, _, ?t)")
    by (rule bootstrap_spec [of s7 ?task b k g f])
      (use lay m s5 s7 tr7 clear7 in \<open>simp_all add: translate_def\<close>)
  moreover have "init_system_task img flags fuel s =
      kbind (fill_context img flags s5) (\<lambda>s6. kbind (scheduler_add_process fuel ?task s6) (\<lambda>(_, s7).
        scheduler_bootstrap_thread flags ?task s7))"
    by (simp add: init_system_task_def s5_def Let_def)
  moreover have "queued ?t [?task]"
    using s5(4) s7(2,3) assms(3) by (simp add: queued_def task)
  moreover have "pmem ?t h w = pmem s h w" if "h \<noteq> g" "h \<noteq> f \<or> w < 1021" for h w
    using that by (auto simp: s7)
  ultimately show ?thesis
    using m(1) s7 s5 lay(1,9) by (intro exI [of _ ?t] exI [of _ g]) simp
qed

text \<open>C12. \<open>init_system_task\<close> puts the system task alone on the queue, makes it the current process and enters
  \<open>kernel_system_task\<close> with interrupts on; but the stack pointer it sets is the lowest address of the kernel
  stack. What \<open>scheduler_bootstrap_thread\<close> pushes goes below the stack, over the last three entries of the
  kernel's page table, which lies there.\<close>

theorem system_task_stack_in_page_table:
  fixes s :: "'a scheduler_scheme"
  assumes "boot_layout img tbl f b k s" and "process_queue s = 0" and "kernel_tasks img \<noteq> 0"
  shows "\<exists>t. init_system_task img flags fuel s = Inr (kernel_system_task_entry img, g_kernel_stack_bottom img, t) \<and>
    g_current_process t = task_addr img SYSTEM \<and> queued t [task_addr img SYSTEM] \<and> if_flag t \<and>
    p_quantum (processes t (task_addr img SYSTEM)) = DEFAULT_QUANTUM \<and>
    pmem t f 1023 = flags OR 0x200 \<and> pmem t f 1022 = 8 \<and> pmem t f 1021 = kernel_system_task_entry img"
proof -
  from init_system_task_spec [OF assms, of flags fuel] show ?thesis by blast
qed

section \<open>The tasks take turns\<close>

text \<open>A round of the current task, then the next timer tick and the end of its interrupt.\<close>

definition task_turn :: "string \<Rightarrow> u32 \<Rightarrow> u32 \<Rightarrow> u32 \<Rightarrow> 'a scheduler_scheme \<Rightarrow> (u32 \<times> 'a scheduler_scheme) kres" where
  "task_turn text sp ra context s =
     kbind (task_round text sp s) (\<lambda>s1. kbind (scheduler_tick s1) (interrupt_exit ra context))"

lemma printf_task:
  "text \<in> {''system task: '', ''idle task: ''} \<Longrightarrow>
    \<exists>msg. printf text [] s = Inr (s\<lparr>con_log := con_log s @ [Printed msg]\<rparr>)"
  "\<exists>msg. printf (''esp = %p'' @ [CHR 0x0A]) [VInt a] s = Inr (s\<lparr>con_log := con_log s @ [Printed msg]\<rparr>)"
  by (rule printf_prints; auto simp: conversion_width_def)+

lemma round_step:
  assumes "text \<in> {''system task: '', ''idle task: ''}" "g_current_process s \<noteq> 0"
  shows "\<exists>t. task_round text sp s = Inr t \<and> process_queue t = process_queue s \<and>
    g_current_process t = g_current_process s \<and> threads t = threads s \<and>
    g_preemption_enabled t = g_preemption_enabled s \<and>
    processes t = (processes s)(g_current_process s := (processes s (g_current_process s))
      \<lparr>p_flags := p_flags (processes s (g_current_process s)) OR PROC_DEBUG_YIELD\<rparr>)"
proof -
  obtain m1 where m1: "printf text [] s = Inr (s\<lparr>con_log := con_log s @ [Printed m1]\<rparr>)"
    using printf_task(1) [OF assms(1)] by blast
  define s1 where "s1 = s\<lparr>con_log := con_log s @ [Printed m1]\<rparr>"
  obtain m2 where m2: "printf (''esp = %p'' @ [CHR 0x0A]) [VInt sp] s1 = Inr (s1\<lparr>con_log := con_log s1 @ [Printed m2]\<rparr>)"
    using printf_task(2) by blast
  show ?thesis
    using yield_runs [of "s1\<lparr>con_log := con_log s1 @ [Printed m2]\<rparr>"] assms(2)
    unfolding task_round_def m1 kbind_Inr s1_def [symmetric] m2 by (simp add: s1_def)
qed

lemma yield_bit: "(w OR PROC_DEBUG_YIELD) AND PROC_DEBUG_YIELD \<noteq> 0" "(w AND NOT PROC_DEBUG_YIELD) AND PROC_DEBUG_YIELD = 0"
proof -
  have "bit ((w OR PROC_DEBUG_YIELD) AND PROC_DEBUG_YIELD) 1" by (simp add: proc_flags bit_simps)
  then show "(w OR PROC_DEBUG_YIELD) AND PROC_DEBUG_YIELD \<noteq> 0" by (metis bit_0_eq bot_apply bot_bool_def)
  show "(w AND NOT PROC_DEBUG_YIELD) AND PROC_DEBUG_YIELD = 0"
    by (rule bit_word_eqI) (auto simp: bit_simps)
qed

lemma task_turn_spec:
  assumes "queued s xs" "i < length xs" "2 \<le> length xs" "g_current_process s = xs ! i"
    and "g_preemption_enabled s" "\<And>x. x \<in> set xs \<Longrightarrow> keeps_context s x" "text \<in> {''system task: '', ''idle task: ''}"
    and "p_thread (processes s (xs ! i)) \<noteq> p_thread (processes s (xs ! (Suc i mod length xs)))"
  shows "\<exists>t. task_turn text sp ra context s =
      Inr (th_context (threads s (p_thread (processes s (xs ! (Suc i mod length xs))))), t) \<and>
    queued t xs \<and> g_current_process t = xs ! (Suc i mod length xs) \<and> \<not> halts (xs ! i) t \<and>
    th_context (threads t (p_thread (processes t (xs ! i)))) = context \<and>
    g_preemption_enabled t \<and> \<not> g_switch_processes t \<and> (\<forall>x \<in> set xs. keeps_context t x) \<and>
    (\<forall>q. p_thread (processes t q) = p_thread (processes s q))"
proof -
  let ?p = "xs ! i"
  have chain: "chain (queue_next s) (process_queue s) xs" using assms(1) by (simp add: queued_def)
  have p: "?p \<noteq> 0" using chain_nth [OF chain assms(2)] by simp
  have "xs \<noteq> []" using assms(3) by auto
  then have second: "queue_next s (process_queue s) \<noteq> 0"
    using chain_nth [OF chain, of 0] chain_nth [OF chain, of 1] chain_first [OF chain] assms(3) by auto
  obtain s1 where s1: "task_round text sp s = Inr s1" "process_queue s1 = process_queue s"
      "g_current_process s1 = ?p" "threads s1 = threads s" "g_preemption_enabled s1"
      "processes s1 = (processes s)(?p := (processes s ?p)\<lparr>p_flags := p_flags (processes s ?p) OR PROC_DEBUG_YIELD\<rparr>)"
    using round_step [OF assms(7), of s sp] p assms(4,5) by auto
  have next1: "queue_next s1 = queue_next s" by (auto simp: s1)
  have wants: "wants_switch (processes s1 ?p)" using yield_bit(1) by (simp only: wants_switch_def s1 fun_upd_same process.simps) simp
  have "queue_next s1 (process_queue s1) \<noteq> 0"
    using second fun_cong [OF next1, of "process_queue s1"] by (simp add: s1(2))
  moreover from this have "process_queue s \<noteq> 0" using chain chain_first [OF chain \<open>xs \<noteq> []\<close>] chain_nth [OF chain, of 0] assms(3) by auto
  ultimately obtain s2 where s2: "scheduler_tick s1 = Inr s2" "process_queue s2 = process_queue s" "threads s2 = threads s"
      "g_current_process s2 = ?p" "g_preemption_enabled s2" "g_switch_processes s2"
      "processes s2 = (processes s1)(?p := (processes s1 ?p)\<lparr>p_quantum := p_quantum (processes s1 ?p) - 1\<rparr>)"
    using tick_runs [of s1] wants p s1(2-5) by (simp add: tick_result_sel)
  have next2: "queue_next s2 = queue_next s" using next1 by (auto simp: s2 fun_eq_iff)
  have keeps: "keeps_context s2 ?p" using assms(2) assms(6) [of ?p] by (simp add: keeps_context_def s2 s1 flag_bits)
  have nxt: "next_process s2 = xs ! (Suc i mod length xs)"
    using next_process_nth [OF assms(1,2,4)] fun_cong [OF next2, of ?p]
    unfolding next_process_def s2(2,4) assms(4) by (simp split: if_splits)
  obtain s3 where s3: "scheduler_advance_stage1 ra context s2 = Inr s3" "process_queue s3 = process_queue s"
      "g_current_process s3 = xs ! (Suc i mod length xs)" "g_preemption_enabled s3"
      "processes s3 = (processes s2)(?p := (processes s2 ?p)\<lparr>p_flags := p_flags (processes s2 ?p) AND NOT PROC_DEBUG_YIELD\<rparr>)"
      "threads s3 = (threads s)(p_thread (processes s2 ?p) := (threads s (p_thread (processes s2 ?p)))\<lparr>th_context := context\<rparr>)"
    using stage1_step [of s2 ra "context"] p keeps nxt s2 by auto
  have thr: "p_thread (processes s3 q) = p_thread (processes s q)" "p_thread (processes s2 q) = p_thread (processes s q)" for q
    by (simp_all add: s3 s2 s1)
  have "queue_next s3 = queue_next s" using next2 by (auto simp: s3 fun_eq_iff)
  then have "queued (s3\<lparr>g_switch_processes := False\<rparr>) xs" using chain s3(2) by (simp add: queued_def)
  moreover have "task_turn text sp ra context s =
      Inr (th_context (threads s (p_thread (processes s (xs ! (Suc i mod length xs))))), s3\<lparr>g_switch_processes := False\<rparr>)"
    using assms(8) by (simp add: task_turn_def s1(1) s2(1,5,6) interrupt_exit_def s3(1,3) thr) (simp add: s3 thr)
  moreover have "keeps_context s3 x" if "x \<in> set xs" for x
    using assms(6) [OF that] by (auto simp: keeps_context_def s3 s2 s1 flag_bits)
  ultimately show ?thesis
    using s3 by (simp add: halts_def yield_bit thr keeps_context_def)
qed

text \<open>A turn with its inputs: the text of the task, its stack pointer, the return address and the address of
  the context that the interrupt pushes. The state in which the tasks of a queue take turns.\<close>

definition turn :: "string \<times> u32 \<times> u32 \<times> u32 \<Rightarrow> 'a scheduler_scheme \<Rightarrow> ('a scheduler_scheme) kres" where
  "turn = (\<lambda>(text, sp, ra, context) s. kbind (task_turn text sp ra context s) (\<lambda>(_, t). Inr t))"

definition taking_turns :: "'a scheduler_scheme \<Rightarrow> u32 list \<Rightarrow> bool" where
  "taking_turns s xs \<longleftrightarrow> queued s xs \<and> 2 \<le> length xs \<and> g_preemption_enabled s \<and> (\<forall>x \<in> set xs. keeps_context s x) \<and>
     distinct (map (\<lambda>x. p_thread (processes s x)) xs)"

lemma next_index: "i < n \<Longrightarrow> 2 \<le> n \<Longrightarrow> Suc i mod n < n \<and> Suc i mod n \<noteq> (i :: nat)"
  by (auto simp: mod_Suc)

lemma turn_rotates:
  assumes "taking_turns s xs" "i < length xs" "g_current_process s = xs ! i" "fst c \<in> {''system task: '', ''idle task: ''}"
  shows "\<exists>t. turn c s = Inr t \<and> taking_turns t xs \<and> g_current_process t = xs ! (Suc i mod length xs)"
proof -
  obtain msg sp ra ctx where c: "c = (msg, sp, ra, ctx)" by (cases c) auto
  have s: "queued s xs" "2 \<le> length xs" "g_preemption_enabled s" "\<And>x. x \<in> set xs \<Longrightarrow> keeps_context s x"
    "distinct (map (\<lambda>x. p_thread (processes s x)) xs)" using assms(1) by (auto simp: taking_turns_def)
  have "p_thread (processes s (xs ! i)) \<noteq> p_thread (processes s (xs ! (Suc i mod length xs)))"
    using nth_eq_iff_index_eq [OF s(5), of i "Suc i mod length xs"] next_index [OF assms(2) s(2)] assms(2) by auto
  from task_turn_spec [OF s(1) assms(2) s(2) assms(3) s(3,4) _ this, of msg sp ra ctx] assms(4)
  show ?thesis using s(2,5) by (auto simp: c turn_def taking_turns_def)
qed

interpretation turns: rotation taking_turns g_current_process "\<lambda>c. fst c \<in> {''system task: '', ''idle task: ''}" turn
  by unfold_locales (rule turn_rotates)

text \<open>C7. When a task has printed its line and yielded, the next timer tick asks for a switch and the end of
  that interrupt performs it: the following process of the queue becomes current and resumes at the context
  saved for it, the context of the task is saved, and its yield flag is cleared, so that its inner loop ends
  when its turn comes again. So the tasks run in the cyclic order of the queue for ever.\<close>

theorem tasks_take_turns:
  assumes "taking_turns s xs" and "i < length xs" and "g_current_process s = xs ! i"
    and "text \<in> {''system task: '', ''idle task: ''}"
  shows "(\<exists>t. task_turn text sp ra context s =
        Inr (th_context (threads s (p_thread (processes s (xs ! (Suc i mod length xs))))), t) \<and>
      g_current_process t = xs ! (Suc i mod length xs) \<and> \<not> halts (xs ! i) t \<and>
      th_context (threads t (p_thread (processes t (xs ! i)))) = context) \<and>
    (\<forall>inputs. (\<forall>c \<in> set inputs. fst c \<in> {''system task: '', ''idle task: ''}) \<longrightarrow>
      (\<exists>t. run_all turn inputs s = Inr t \<and> g_current_process t = xs ! ((i + length inputs) mod length xs)))"
proof (intro conjI allI impI)
  have s: "queued s xs" "2 \<le> length xs" "g_preemption_enabled s" "\<And>x. x \<in> set xs \<Longrightarrow> keeps_context s x"
    "distinct (map (\<lambda>x. p_thread (processes s x)) xs)" using assms(1) by (auto simp: taking_turns_def)
  have "p_thread (processes s (xs ! i)) \<noteq> p_thread (processes s (xs ! (Suc i mod length xs)))"
    using nth_eq_iff_index_eq [OF s(5), of i "Suc i mod length xs"] next_index [OF assms(2) s(2)] assms(2) by auto
  from task_turn_spec [OF s(1) assms(2) s(2) assms(3) s(3,4) assms(4) this, of sp ra "context"]
  show "\<exists>t. task_turn text sp ra context s =
        Inr (th_context (threads s (p_thread (processes s (xs ! (Suc i mod length xs))))), t) \<and>
      g_current_process t = xs ! (Suc i mod length xs) \<and> \<not> halts (xs ! i) t \<and>
      th_context (threads t (p_thread (processes t (xs ! i)))) = context" by blast
qed (use turns.run_all_rotates [OF assms(1-3)] in \<open>auto simp: list_all_iff\<close>)

section \<open>Examples\<close>

definition image_zero :: image where
  "image_zero = \<lparr>kernel_tasks = 0x40, kernel_threads = 0x80, g_kernel_stack_bottom = 0xC0003000,
     g_kernel_stack_top = 0xC0007000, g_kernel_page_dir = 0xFFFFF000, kernel_start = 0xC0100000,
     kernel_end = 0xC0110000, high_offset = 0xC0000000, gdt_addr = 0, idt_addr = 0, tss_addr = 0, heap_addr = 0xA0,
     isr_addrs = (\<lambda>_. 0), kernel_system_task_entry = 0xC0101000, kernel_idle_task_entry = 0xC0102000,
     local_context = 0xC0006FA0, caller = 0\<rparr>"

lemma window_index: "pd_index 0xFFFFF000 = 1023" "pt_index 0xFFFFF000 = 1023"
  by (simp_all add: pd_index_def pt_index_def drop_bit_eq_div)

definition boot_stack :: scheduler where
  "boot_stack = sched_zero\<lparr>process_queue := 0, cr3 := 256, pmem := (\<lambda>f i.
     if f = 256 \<and> i = 768 then 0x102003
     else if f = 0x102 \<and> i = 2 then 0x102003 else if f = 0x102 \<and> i = 6 then 0x106003 else 0)\<rparr>"

lemma boot_stack_translate:
  "translate 0xC0002000 boot_stack = Inr 0x102" "translate 0xC0006000 boot_stack = Inr 0x106"
  "frame_of (pmem boot_stack 256 (pd_index 0xC0002000)) = 0x102"
  "frame_of (pmem boot_stack 256 (pd_index 0xC0006000)) = 0x102" "cr3 boot_stack = 256"
  "pt_index 0xC0002000 = 2" "pt_index 0xC0006000 = 6"
  by (simp_all add: translate_def boot_stack_def pd_index_def pt_index_def drop_bit_eq_div frame_of_def bit_numeral_rec)

theorem system_task_stack_in_page_table_witness:
  "\<exists>t. init_system_task image_zero 0x2 0 boot_stack = Inr (0xC0101000, 0xC0003000, t) \<and>
     pmem t 0x102 1023 = 0x202 \<and> pmem boot_stack 0x102 1023 = 0"
proof -
  have "boot_layout image_zero 0xC0002000 0x102 0xC0006000 1000 boot_stack"
    by (simp add: boot_layout_def clear_of_def boot_stack_translate image_zero_def aligned_nat)
  from system_task_stack_in_page_table [OF this, of 2 0] show ?thesis
    by (auto simp: image_zero_def boot_stack_def)
qed

definition two_tasks :: scheduler where
  "two_tasks = sched_zero\<lparr>processes := (processes sched_zero)(0x10 := zero_process\<lparr>p_next := 0x20, p_thread := 0x80\<rparr>),
     threads := (\<lambda>_. \<lparr>th_context = 0xC0005000, th_owner = 0, th_next = 0\<rparr>)\<rparr>"

lemma two_tasks_sel [simp]:
  "processes two_tasks 0x10 = zero_process\<lparr>p_next := 0x20, p_thread := 0x80\<rparr>" "processes two_tasks 0x20 = zero_process"
  "threads two_tasks p = \<lparr>th_context = 0xC0005000, th_owner = 0, th_next = 0\<rparr>" "g_current_process two_tasks = 0x10"
  "process_queue two_tasks = 0x10" "g_preemption_enabled two_tasks"
  by (simp_all add: two_tasks_def sched_zero_def timer.defs)

theorem tasks_take_turns_witness:
  "\<exists>t. task_turn ''system task: '' 0xC0003000 0 0xC0002F00 two_tasks = Inr (0xC0005000, t) \<and>
     g_current_process t = 0x20 \<and> \<not> halts 0x10 t \<and> th_context (threads t (p_thread (processes t 0x10))) = 0xC0002F00"
proof -
  have "taking_turns two_tasks [0x10, 0x20]" by (simp add: taking_turns_def queued_def keeps_context_def zero_process_def)
  from tasks_take_turns [OF this, of 0 "''system task: ''" "0xC0003000" 0 "0xC0002F00"] show ?thesis
    by (auto simp: zero_process_def keeps_context_def)
qed

end
