(* ===== verification/Spawn.thy ===== *)
theory Spawn
  imports Interleave KernelMain
begin

text \<open>
  What \<open>spawn_init\<close> of \<open>kernel/kernel/kernel.c\<close> does to the whole system: the address space, the physical pages,
  the process and its context in memory, and the queue of the scheduler.
\<close>

section \<open>What the operations on memory leave alone\<close>

text \<open>Only memory, its bitmap, the TLB and the placement heap differ.\<close>

definition memory_only :: "'a paging_scheme \<Rightarrow> 'a paging_scheme \<Rightarrow> bool" where
  "memory_only s t \<longleftrightarrow>
     (\<exists>b m l h. t = s\<lparr>page_bitmap := b, pmem := m, tlb_flushes := l, placement_heap := h\<rparr>)"

lemma memory_onlyI: "t = s\<lparr>page_bitmap := b, pmem := m, tlb_flushes := l, placement_heap := h\<rparr> \<Longrightarrow> memory_only s t"
  unfolding memory_only_def by blast

lemma memory_only_refl [simp]: "memory_only s s"
  by (rule memory_onlyI [where b = "page_bitmap s" and m = "pmem s" and l = "tlb_flushes s" and h = "placement_heap s"]) simp

lemma memory_only_trans: "memory_only s t \<Longrightarrow> memory_only t u \<Longrightarrow> memory_only s u"
  unfolding memory_only_def by force

lemma memory_only_poke: "memory_only s (poke f i v s)"
  by (rule memory_onlyI [where b = "page_bitmap s" and l = "tlb_flushes s" and h = "placement_heap s"]) (simp add: poke_def)

lemma memory_only_sched:
  fixes s t :: "'a scheduler_scheme"
  assumes "memory_only s t"
  shows "processes t = processes s" "threads t = threads s" "process_queue t = process_queue s"
    "g_current_process t = g_current_process s" "g_preemption_enabled t = g_preemption_enabled s"
    "g_switch_processes t = g_switch_processes s" "irq_mask t = irq_mask s" "if_flag t = if_flag s"
    "cr3 t = cr3 s" "out_log t = out_log s" "con_log t = con_log s"
  using assms unfolding memory_only_def by auto

text \<open>An operation with a result of its own, or without one.\<close>

definition on_memory :: "'a paging_scheme \<Rightarrow> ('a paging_scheme) kres \<Rightarrow> bool" where
  "on_memory s m \<longleftrightarrow> (\<forall>t. m = Inr t \<longrightarrow> memory_only s t)"

definition on_memory2 :: "'a paging_scheme \<Rightarrow> ('b \<times> 'a paging_scheme) kres \<Rightarrow> bool" where
  "on_memory2 s m \<longleftrightarrow> (\<forall>r t. m = Inr (r, t) \<longrightarrow> memory_only s t)"

lemma on_memory_kbind:
  "on_memory s m \<Longrightarrow> (\<And>t. m = Inr t \<Longrightarrow> on_memory t (f t)) \<Longrightarrow> on_memory s (kbind m f)"
  "on_memory2 s n \<Longrightarrow> (\<And>r t. n = Inr (r, t) \<Longrightarrow> on_memory t (g r t)) \<Longrightarrow> on_memory s (kbind n (\<lambda>(r, t). g r t))"
  "on_memory s m \<Longrightarrow> (\<And>t. m = Inr t \<Longrightarrow> on_memory2 t (h t)) \<Longrightarrow> on_memory2 s (kbind m h)"
  "on_memory2 s n \<Longrightarrow> (\<And>r t. n = Inr (r, t) \<Longrightarrow> on_memory2 t (k r t)) \<Longrightarrow> on_memory2 s (kbind n (\<lambda>(r, t). k r t))"
  unfolding on_memory_def on_memory2_def by (fastforce simp: kbind_eq_Inr intro: memory_only_trans)+

text \<open>Reading leaves the state as it is.\<close>

lemma on_memory_read: "(\<And>x. m = Inr x \<Longrightarrow> on_memory s (f x)) \<Longrightarrow> on_memory s (kbind m f)"
  "(\<And>x. m = Inr x \<Longrightarrow> on_memory2 s (g x)) \<Longrightarrow> on_memory2 s (kbind m g)"
  unfolding on_memory_def on_memory2_def by (auto simp: kbind_eq_Inr)

lemmas on_memory_reads =
  on_memory_read [where m = "read32 va t" for va t] on_memory_read [where m = "virt_to_phys va t" for va t]
  on_memory_read [where m = "translate va t" for va t] on_memory_read [where m = "kassert b msg" for b msg]
  on_memory_read [where m = "panic_if b msg" for b msg] on_memory_read [where m = "sprintf fmt args" for fmt args]
  on_memory_read [where m = "bitmap_test_bit i b" for i b]

lemma on_memory_Inr [simp]:
  "on_memory s (Inl e)" "on_memory2 s (Inl e)" "on_memory s (Inr t) = memory_only s t"
  "on_memory2 s (Inr (r, t)) = memory_only s t"
  unfolding on_memory_def on_memory2_def by simp_all

lemma on_memory_write32: "on_memory s (write32 va v s)"
  by (simp add: write32_def on_memory_reads memory_only_poke)

lemma on_memory_update32: "on_memory s (update32 va f s)"
  by (simp add: update32_def on_memory_reads on_memory_write32)

lemma on_memory_page_alloc: "on_memory2 s (page_alloc p s)"
proof -
  have "memory_only s (s\<lparr>page_bitmap := b\<rparr>)" for b
    by (rule memory_onlyI [where b = b and m = "pmem s" and l = "tlb_flushes s" and h = "placement_heap s"]) simp
  then show ?thesis
    unfolding page_alloc_def on_memory2_def by (auto simp: kbind_eq_Inr split: if_splits)
qed

lemma on_memory_zero_words: "on_memory s (zero_words n va s)"
  by (induction n arbitrary: va s) (auto intro!: on_memory_kbind(1) on_memory_write32)

lemma on_memory_copy_words: "on_memory s (copy_words n dst src s)"
  by (induction n arbitrary: dst src s) (auto intro!: on_memory_kbind(1) on_memory_reads on_memory_write32)

lemma on_memory_write_words: "on_memory s (write_words va ws s)"
  by (induction ws arbitrary: va s) (auto intro!: on_memory_kbind(1) on_memory_write32)

lemma memory_only_placement: "memory_only s (s\<lparr>placement_heap := h\<rparr>)"
  by (rule memory_onlyI [where b = "page_bitmap s" and m = "pmem s" and l = "tlb_flushes s" and h = h]) simp

lemma memory_only_flush: "memory_only s (flush_tlb a s)"
  by (rule memory_onlyI [where b = "page_bitmap s" and m = "pmem s" and h = "placement_heap s"]) (simp add: flush_tlb_def)

lemma on_memory_structure_alloc:
  assumes "\<And>pa va t. on_memory t (mapper pa va True False t)"
  shows "on_memory2 s (structure_alloc_with mapper s)"
  unfolding structure_alloc_with_def
  by (auto split: option.split intro!: on_memory_reads on_memory_kbind(3,4) on_memory_page_alloc assms
      on_memory_zero_words memory_only_placement)

lemma on_memory_page_map_with:
  assumes "\<And>t. on_memory2 t (alloc t)"
  shows "on_memory s (page_map_with alloc pa va rw user s)"
  unfolding page_map_with_def
  by (auto intro!: on_memory_kbind(1,2) on_memory_reads assms on_memory_update32 memory_only_flush)

lemma on_memory_nested: "on_memory s (page_map_nested n pa va rw user s)"
  by (induction n arbitrary: s pa va rw user) (simp_all add: on_memory_page_map_with on_memory_structure_alloc)

lemma on_memory_copy_kernel_entries: "on_memory s (copy_kernel_entries img dir s)"
  unfolding copy_kernel_entries_def copy_bytes_def Let_def
  by (auto intro!: on_memory_kbind(1) on_memory_reads on_memory_copy_words on_memory_update32)

lemma memory_only_page_map: "page_map pa va rw user s = Inr t \<Longrightarrow> memory_only s t"
  using on_memory_nested [of s] by (simp add: page_map_def on_memory_def)

lemma memory_only_structure_alloc: "paging_structure_alloc s = Inr (r, t) \<Longrightarrow> memory_only s t"
proof -
  have "on_memory2 s (structure_alloc_with page_map s)"
    by (rule on_memory_structure_alloc) (simp add: page_map_def on_memory_nested)
  then show "paging_structure_alloc s = Inr (r, t) \<Longrightarrow> memory_only s t"
    by (simp add: paging_structure_alloc_def on_memory2_def)
qed

lemma memory_only_page_alloc: "page_alloc p s = Inr (r, t) \<Longrightarrow> memory_only s t"
  using on_memory_page_alloc [of s p] by (simp add: on_memory2_def)

lemma memory_only_copy_kernel_entries: "copy_kernel_entries img d s = Inr t \<Longrightarrow> memory_only s t"
  using on_memory_copy_kernel_entries [of s img d] by (simp add: on_memory_def)

lemma memory_only_write_words: "write_words va ws s = Inr t \<Longrightarrow> memory_only s t"
  using on_memory_write_words [of s va ws] by (simp add: on_memory_def)

section \<open>Words written into a page\<close>

definition filled :: "20 word \<Rightarrow> nat \<Rightarrow> u32 list \<Rightarrow> 'a paging_scheme \<Rightarrow> 'a paging_scheme" where
  "filled f i ws s = s\<lparr>pmem := (pmem s)(f := \<lambda>w. if i \<le> unat w \<and> unat w < i + length ws
     then ws ! (unat w - i) else pmem s f w)\<rparr>"

lemma filled_step:
  assumes "i < 1024"
  shows "filled f (Suc i) ws (poke f (of_nat i) x s) = filled f i (x # ws) s"
proof -
  have "w = of_nat i \<longleftrightarrow> unat w = i" for w :: "10 word"
    using assms by (auto simp: word_unat_eq_iff unat_of_nat)
  then have "(\<lambda>w. if Suc i \<le> unat w \<and> unat w < Suc i + length ws then ws ! (unat w - Suc i) else
        if w = of_nat i then x else pmem s f w) =
      (\<lambda>w. if i \<le> unat w \<and> unat w < i + length (x # ws) then (x # ws) ! (unat w - i) else pmem s f w)"
    by (intro ext) (auto simp: nth_Cons')
  then show ?thesis by (simp add: filled_def poke_def fun_upd_def cong: if_cong)
qed

lemma write_words_spec:
  assumes "IS_PAGE_ALIGNED d"
  shows "translate d s = Inr f \<Longrightarrow> f \<notin> {cr3 s, table_of s d} \<Longrightarrow> i + length ws \<le> 1024 \<Longrightarrow>
    write_words (d + of_nat (4 * i)) ws s = Inr (filled f i ws s)"
proof (induction ws arbitrary: i s)
  case Nil
  have "(\<lambda>w. if i \<le> unat w \<and> unat w < i then [] ! (unat w - i) else pmem s f w) = pmem s f"
    by (intro ext) auto
  then show ?case by (simp add: filled_def)
next
  case (Cons x ws)
  then have i: "i < 1024" by simp
  let ?s = "poke f (of_nat i) x s"
  have rest: "write_words (d + of_nat (4 * Suc i)) ws ?s = Inr (filled f (Suc i) ws ?s)"
    using Cons.prems by (intro Cons.IH) (auto simp: translate_poke_table)
  have addr: "d + of_nat (4 * i) + 4 = d + of_nat (4 * Suc i)" by simp
  have first: "write32 (d + of_nat (4 * i)) x s = Inr ?s" by (rule page_access(3) [OF assms i Cons.prems(1)])
  show ?case unfolding write_words.simps first kbind_Inr addr rest filled_step [OF i] by (rule refl)
qed

lemma translate_filled:
  "f \<notin> {cr3 s, table_of s va} \<Longrightarrow> translate va (filled f i ws s) = translate va s"
  by (auto simp: filled_def translate_def Let_def)

section \<open>Adding a process\<close>

text \<open>Adding a process changes links only.\<close>

definition links_only :: "'a scheduler_scheme \<Rightarrow> 'a scheduler_scheme \<Rightarrow> bool" where
  "links_only s t \<longleftrightarrow> threads t = threads s \<and> g_preemption_enabled t = g_preemption_enabled s \<and>
     g_switch_processes t = g_switch_processes s \<and> irq_mask t = irq_mask s \<and>
     pmem t = pmem s \<and> cr3 t = cr3 s \<and> page_bitmap t = page_bitmap s \<and> placement_heap t = placement_heap s \<and>
     (\<forall>q. p_thread (processes t q) = p_thread (processes s q) \<and> p_pgdir (processes t q) = p_pgdir (processes s q) \<and>
       p_quantum (processes t q) = p_quantum (processes s q) \<and> p_flags (processes t q) = p_flags (processes s q))"

lemma add_process_links:
  assumes "scheduler_add_process n p s = Inr (r, t)" "queue_next s p = 0"
  shows "links_only s t"
proof -
  obtain u where u: "add_body n p (locked s) = Inr (r, u)" "int_unlock_region (irq_enabled IRQ_PIT s) u = Inr t"
    using assms by (auto simp: scheduler_add_process_locked worry_if_def add_locked_def int_lock_region_eq kbind_eq_Inr)
  have "links_only s t" if "t = unlocked (irq_enabled IRQ_PIT s) u" "irq_mask t = irq_mask s"
    using u(1) that
    by (auto simp: links_only_def add_body_def add_walked_def kbind_eq_Inr split: if_splits option.splits)
  then show ?thesis using region_mask_restored [OF add_body_mask [OF u(1)]] u(2) by simp
qed

section \<open>The stack of the init task\<close>

definition init_stack :: u32 where "init_stack = KHEAP_START - PAGE_SIZE - PAGE_SIZE"

lemma init_stack: "init_stack = 0xCFFFE000" "IS_PAGE_ALIGNED init_stack" "pd_index init_stack = 831"
  "pt_index init_stack = 1022"
  by (simp_all add: init_stack_def KHEAP_START_def PAGE_SIZE_eq aligned_nat pd_index_def pt_index_def drop_bit_eq_div)

text \<open>
  What \<open>spawn_init\<close> finds: the address space in order, the kernel's directory at its address, two unused pages at the
  placement heap, three free physical pages, and no table yet for the page of the new stack.
\<close>

definition room_for_init :: "image \<Rightarrow> 'a paging_scheme \<Rightarrow> bool" where
  "room_for_init img s \<longleftrightarrow> vm_ok s \<and> IS_PAGE_ALIGNED (placement_heap s) \<and> slot_free (placement_heap s) s \<and>
     pd_index (placement_heap s + PAGE_SIZE) = pd_index (placement_heap s) \<and>
     slot_free (placement_heap s + PAGE_SIZE) s \<and> 3 \<le> card ({..<page_limit s} - in_use s) \<and>
     IS_PAGE_ALIGNED (g_kernel_page_dir img) \<and> translate (g_kernel_page_dir img) s = Inr (cr3 s) \<and>
     other_entry s (g_kernel_page_dir img) (placement_heap s) \<and> \<not> bit (pde_of s init_stack) 0"

lemma free_page_left:
  assumes "Suc n \<le> card ({..<l} - U)"
  shows "\<not> {..<l :: nat} \<subseteq> U" "n \<le> card ({..<l} - insert x U)"
proof -
  show "\<not> {..<l} \<subseteq> U"
  proof
    assume "{..<l} \<subseteq> U"
    then have none: "{..<l} - U = {}" by auto
    show False using assms unfolding none by simp
  qed
  have "{..<l} - insert x U = ({..<l} - U) - {x}" by auto
  then show "n \<le> card ({..<l} - insert x U)" using assms by (cases "x \<in> {..<l} - U") (simp_all add: card_Diff_singleton)
qed

lemma next_page_slot:
  assumes "IS_PAGE_ALIGNED va"
  shows "IS_PAGE_ALIGNED (va + PAGE_SIZE)" "pt_index (va + PAGE_SIZE) = pt_index va + 1"
proof -
  have p: "unat va mod 4096 = 0" using assms by (simp add: aligned_nat)
  have u: "unat (va + PAGE_SIZE) = (unat va + 4096) mod 4294967296" by (simp add: PAGE_SIZE_eq unat_word_ariths)
  have "(unat va + 4096) mod 4294967296 mod 4096 = (unat va + 4096) mod 4096" by (rule mod_mod_cancel) simp
  then show "IS_PAGE_ALIGNED (va + PAGE_SIZE)" using p by (simp add: aligned_nat u)
  obtain q where q: "unat va = 4096 * q" using mod_0_imp_dvd [OF p] by (rule dvdE)
  have nx: "4096 * q + 4096 = 4096 * Suc q" and size: "(4294967296 :: nat) = 4096 * 1048576" by simp_all
  have "(4096 * q + 4096) mod 4294967296 = 4096 * (Suc q mod 1048576)"
    unfolding nx size by (rule mult_mod_right [symmetric])
  then have "unat (va + PAGE_SIZE) div 4096 = Suc q mod 1048576" by (simp only: u q)
  moreover have "unat va div 4096 = q" by (simp add: q)
  moreover have "(of_nat (Suc q mod 1048576) :: 10 word) = of_nat (Suc q)"
    by (simp only: of_nat_10) (simp add: mod_mod_cancel)
  ultimately show "pt_index (va + PAGE_SIZE) = pt_index va + 1" by (simp only: pt_index_nat) simp
qed

text \<open>The memory that \<open>spawn_init\<close> leaves: three pages more are in use, for the directory (\<open>F\<close>), the stack (\<open>G\<close>)
  and the page table of the stack (\<open>T\<close>); \<open>ws\<close> are the last words of the stack.\<close>

definition init_space :: "'a paging_scheme \<Rightarrow> 20 word \<Rightarrow> 20 word \<Rightarrow> 20 word \<Rightarrow> u32 list \<Rightarrow> 'a paging_scheme \<Rightarrow> bool" where
  "init_space s F G T ws t \<longleftrightarrow> vm_ok t \<and> cr3 t = cr3 s \<and> placement_heap t = placement_heap s + 2 * PAGE_SIZE \<and>
     distinct [F, G, T] \<and> unat ` {F, G, T} \<inter> in_use s = {} \<and> in_use t = unat ` {F, G, T} \<union> in_use s \<and>
     translate (placement_heap s) t = Inr F \<and> translate init_stack t = Inr G \<and>
     (\<forall>w. pmem t F w = (if w = 1023 then set_address (ucast F) 3 else if 768 \<le> w \<and> w < 831 then pmem s (cr3 s) w
        else if w = 831 then pmem s (cr3 s) 831 AND 0xFFFFFF else 0)) \<and>
     (\<forall>j<length ws. read32 (init_stack + 0x1000 - of_nat (4 * (length ws - j))) t = Inr (ws ! j)) \<and>
     (\<forall>f w. unat f \<in> in_use s \<and> f \<noteq> table_of s (placement_heap s) \<and> (f \<noteq> cr3 s \<or> w \<noteq> 831) \<longrightarrow>
        pmem t f w = pmem s f w)"

lemma init_space_cong: "same_memory t u \<Longrightarrow> init_space s F G T ws u = init_space s F G T ws t"
  by (simp add: init_space_def same_memory_vm read32_def)

lemma stack_page:
  assumes room: "room_for_init img s" and dir: "directory_made s F v" and ws: "length ws \<le> 1024"
  shows "\<exists>G T v1 v2 v3. page_alloc pte_zero v = Inr (Some (pte_zero\<lparr>pte_address := G\<rparr>), v1) \<and>
    page_map (push_bit 12 (ucast G)) init_stack True False v1 = Inr v2 \<and>
    write_words (init_stack + 0x1000 - of_nat (4 * length ws)) ws v2 = Inr v3 \<and> init_space s F G T ws v3"
proof -
  let ?ph = "placement_heap s" and ?ph' = "placement_heap s + PAGE_SIZE"
  have r: "vm_ok s" "IS_PAGE_ALIGNED ?ph" "slot_free ?ph s" "pd_index ?ph' = pd_index ?ph" "slot_free ?ph' s"
    "3 \<le> card ({..<page_limit s} - in_use s)" "\<not> bit (pde_of s init_stack) 0"
    using room by (simp_all add: room_for_init_def)
  have d: "unat F \<notin> in_use s" "in_use v = insert (unat F) (in_use s)" "vm_ok v" "cr3 v = cr3 s"
    "translate ?ph v = Inr F" "placement_heap v = ?ph'" "page_limit v = page_limit s"
    "\<And>f w. f \<noteq> F \<Longrightarrow> f \<noteq> table_of s ?ph \<or> w \<noteq> pt_index ?ph \<Longrightarrow> pmem v f w = pmem s f w"
    using dir by (simp_all add: directory_made_def)
  have fresh: "F \<noteq> cr3 s" "\<And>a. table_of s a \<noteq> F" using d(1) r(1) by (auto simp: vm_ok_def)
  have tbl: "table_of s ?ph' = table_of s ?ph" "table_of s ?ph \<noteq> cr3 s" using r(3,4) by (simp_all add: slot_free_def)
  have dir_same: "pmem v (cr3 s) w = pmem s (cr3 s) w" for w using d(8) fresh(1) tbl(2) by simp
  have slots: "pt_index ?ph' \<noteq> pt_index ?ph" using next_page_slot(2) [OF r(2)] by simp
  have slot: "slot_free ?ph' v"
    using r(5) dir_same d(8) [of "table_of s ?ph" "pt_index ?ph'"] slots fresh(2) tbl by (simp add: slot_free_def d(4))
  have apart: "pd_index ?ph \<noteq> pd_index init_stack" using r(3,7) by (auto simp: slot_free_def)
  note room1 = free_page_left(2) [OF r(6) [unfolded numeral_3_eq_3], of "unat F"]
  from page_alloc_some [of v pte_zero] d(3) free_page_left(1) [OF room1] obtain m v1 where
    a: "page_alloc pte_zero v = Inr (Some (pte_zero\<lparr>pte_address := of_nat m\<rparr>), v1)" "m < page_limit s" "m \<notin> in_use v"
      "in_use v1 = insert m (in_use v)" "pages_ok v1" "page_limit v1 = page_limit s" "\<exists>b. v1 = v\<lparr>page_bitmap := b\<rparr>"
    by (auto simp: d(2,7) vm_ok_def)
  from a(7) have v1: "pmem v1 = pmem v" "cr3 v1 = cr3 s" "placement_heap v1 = ?ph'" using d(4,6) by auto
  define G where "G = (of_nat m :: 20 word)"
  have m: "unat G = m"
    unfolding G_def using a(2) page_limit_le [of s] r(1) by (intro unat_frame) (simp add: vm_ok_def)
  have ok1: "vm_ok v1" using d(3,4) a(4,5) v1 by (auto simp: vm_ok_def recursive_def)
  have taken: "page_taken (push_bit 12 (ucast G)) v1" by (simp add: page_taken_def frame_addr(3) a(4) m)
  have ready: "Paging.heap_ready init_stack v1"
    using slot apart r(4) next_page_slot(1) [OF r(2)] free_page_left(1) [OF free_page_left(2) [OF room1, of m]]
    by (simp add: Paging.heap_ready_def v1 slot_free_def d(2,4) a(4,6))
  have absent: "\<not> bit (pde_of v1 init_stack) 0" using r(7) dir_same by (simp add: v1)
  have window: "pd_index init_stack \<noteq> 1023" by (simp add: init_stack(3))
  obtain v2 where v2: "page_map (push_bit 12 (ucast G)) init_stack True False v1 = Inr v2"
      "translate init_stack v2 = Inr G" "vm_ok v2" "placement_heap v2 = ?ph' + PAGE_SIZE" "cr3 v2 = cr3 s"
      "unat (table_of v2 init_stack) \<notin> in_use v1" "in_use v2 = insert (unat (table_of v2 init_stack)) (in_use v1)"
      "\<And>x. away v1 init_stack x \<Longrightarrow> translate x v2 = translate x v1"
      "\<And>f w. unat f \<in> in_use v1 \<Longrightarrow> f \<noteq> table_of v1 ?ph' \<Longrightarrow> f \<noteq> cr3 s \<or> w \<noteq> 831 \<Longrightarrow> pmem v2 f w = pmem v1 f w"
    using page_map_new_frames [OF ok1 frame_addr(1) init_stack(2) taken window absent ready, of 1 True False]
    unfolding v1(2,3) init_stack(3) frame_addr(2) page_map_def numeral_3_eq_3 One_nat_def by metis
  let ?T = "table_of v2 init_stack" and ?i = "1024 - length ws"
  have used: "unat (cr3 s) \<in> in_use s" "\<And>x. unat (table_of s x) \<in> in_use s" using r(1) by (simp_all add: vm_ok_def)
  have G: "unat G \<notin> insert (unat F) (in_use s)" using a(3) d(2) m by simp
  moreover have T: "unat ?T \<notin> insert (unat G) (insert (unat F) (in_use s))" using v2(6) by (simp add: a(4) d(2) m)
  ultimately have ne: "G \<noteq> F" "G \<noteq> cr3 s" "\<And>x. table_of s x \<noteq> G" "?T \<noteq> F" "?T \<noteq> G" "?T \<noteq> cr3 s" "\<And>x. table_of s x \<noteq> ?T"
    using used by (metis insert_iff)+
  have tables: "table_of v2 x = table_of s x" if "pd_index x \<noteq> 831" for x
    using v2(9) [of "cr3 s" "pd_index x"] that tbl used(1) dir_same by (simp add: v1 v2(5) a(4) d(2))
  have addr: "init_stack + 0x1000 - of_nat (4 * (length ws - j)) = init_stack + of_nat (4 * (?i + j))" if "j \<le> length ws" for j
    using ws that by (simp add: of_nat_diff algebra_simps)
  let ?v3 = "filled G ?i ws v2"
  have wr: "write_words (init_stack + 0x1000 - of_nat (4 * length ws)) ws v2 = Inr ?v3"
    using write_words_spec [OF init_stack(2) v2(2), of ?i ws] ne ws
    unfolding addr [of 0, simplified diff_zero add_0_right, OF le0] by (simp add: v2(5))
  have stack: "translate init_stack ?v3 = Inr G" using v2(2,5) ne by (simp add: translate_filled)
  have "away v1 init_stack ?ph"
    using slots apart tbl dir_same by (simp add: away_def other_entry_def v1)
  moreover have "translate ?ph v1 = translate ?ph v" by (rule translate_cong) (simp_all add: v1 d(4))
  ultimately have "translate ?ph v2 = Inr F" using v2(8) [of ?ph] d(5) by simp
  then have dir3: "translate ?ph ?v3 = Inr F"
    using tables [of ?ph] apart ne(2) ne(3) [of ?ph] by (subst translate_filled) (auto simp: v2(5) init_stack(3))
  have keep: "pmem ?v3 f w = pmem v f w" if "unat f \<in> insert (unat F) (in_use s)" "f \<noteq> table_of s ?ph" "f \<noteq> cr3 s \<or> w \<noteq> 831" for f w
    using v2(9) [of f w] that G tbl dir_same by (auto simp: filled_def v1 a(4) d(2))
  have "read32 (init_stack + 0x1000 - of_nat (4 * (length ws - j))) ?v3 = Inr (ws ! j)" if "j < length ws" for j
  proof -
    have small: "unat (of_nat k :: 10 word) = k" if "k < 1024" for k using that by (simp add: unat_of_nat)
    have "unat (of_nat (?i + j) :: 10 word) = ?i + j" by (rule small) (use that ws in simp)
    then have val: "pmem ?v3 G (of_nat (?i + j)) = ws ! j" using that by (simp add: filled_def)
    have lt: "?i + j < 1024" using that ws by simp
    show ?thesis by (simp only: addr [OF less_imp_le [OF that]] page_access(2) [OF init_stack(2) lt stack] val)
  qed
  moreover have room3: "pmem ?v3 F w = (if w = 1023 then set_address (ucast F) 3 else if 768 \<le> w \<and> w < 831 then pmem s (cr3 s) w
        else if w = 831 then pmem s (cr3 s) 831 AND 0xFFFFFF else 0)" for w
  proof -
    have "F \<noteq> table_of s ?ph" using fresh(2) [of ?ph] by simp
    then have "pmem ?v3 F w = pmem v F w" using fresh(1) by (intro keep) simp_all
    then show ?thesis using dir unfolding directory_made_def by presburger
  qed
  moreover have "pmem ?v3 f w = pmem s f w"
    if "unat f \<in> in_use s" "f \<noteq> table_of s ?ph" "f \<noteq> cr3 s \<or> w \<noteq> 831" for f w
  proof -
    have "f \<noteq> F" using that(1) d(1) by auto
    then show ?thesis using keep [of f w] that d(8) [of f w] by simp
  qed
  moreover have "vm_ok ?v3" "in_use ?v3 = in_use v2" "placement_heap ?v3 = placement_heap v2" "cr3 ?v3 = cr3 s"
    using v2(3,5) ne by (simp_all add: vm_ok_def filled_def pages_ok_def recursive_def in_use_def)
  ultimately have "init_space s F G ?T ws ?v3"
    unfolding init_space_def using dir3 stack keep ne G T v2(4,7) room3 d(1)
    by (simp add: a(4) d(2) m PAGE_SIZE_eq insert_commute)
  then show ?thesis using a(1) v2(1) wr G_def by blast
qed

section \<open>The whole of \<open>spawn_init\<close>\<close>

text \<open>The state of the tasks when the system task runs: it is alone on the queue, and the init task is still zero.\<close>

definition system_task_runs :: "image \<Rightarrow> 'a scheduler_scheme \<Rightarrow> bool" where
  "system_task_runs img s \<longleftrightarrow> queued s [task_addr img SYSTEM] \<and> g_current_process s = task_addr img SYSTEM \<and>
     g_preemption_enabled s \<and> keeps_context s (task_addr img SYSTEM) \<and>
     p_thread (processes s (task_addr img SYSTEM)) = thread_addr img SYSTEM \<and>
     processes s (task_addr img INIT) = zero_process \<and> task_addr img INIT \<noteq> 0"

definition init_esp :: u32 where "init_esp = init_stack + 0x1000 - of_nat (4 * 17)"

lemma task_addrs: "task_addr img INIT \<noteq> task_addr img SYSTEM" "thread_addr img INIT \<noteq> thread_addr img SYSTEM"
  "task_addr img SYSTEM \<noteq> task_addr img INIT" "thread_addr img SYSTEM \<noteq> thread_addr img INIT"
  by (simp_all add: task_addr_def thread_addr_def INIT_def SYSTEM_def)

lemma same_memory_sched:
  "same_memory s (locked s)" "same_memory s (unlocked l s)" "same_memory s (upd_process p f s)" "same_memory s (upd_thread p g s)"
  by (simp_all add: same_memory_def)

lemma same_memory_trans: "same_memory s t \<Longrightarrow> same_memory t u \<Longrightarrow> same_memory s u"
  by (simp add: same_memory_def)

lemma directory_made_cong:
  assumes "same_memory t u"
  shows "directory_made s F u = directory_made s F t" "directory_made t F s = directory_made u F s"
  unfolding directory_made_def same_memory_vm [OF assms] by (rule refl)+

text \<open>The operations of \<open>spawn_init\<close> on memory, with the changes to the tasks in between.\<close>

lemma spawn_init_memory:
  fixes s :: "'a scheduler_scheme"
  defines "task \<equiv> \<lambda>i. task_addr i INIT" and "th \<equiv> \<lambda>i. thread_addr i INIT"
  assumes room: "room_for_init img s"
  shows "\<exists>F G T t. init_space s F G T (init_context img flags init_esp) t \<and> irq_mask t = irq_mask (locked s) \<and>
    process_queue t = process_queue s \<and> g_current_process t = g_current_process s \<and>
    g_preemption_enabled t = g_preemption_enabled s \<and>
    processes t = (processes s)(task img := (processes s (task img))
      \<lparr>p_pgdir := placement_heap s, p_quantum := DEFAULT_QUANTUM, p_thread := th img\<rparr>) \<and>
    threads t = (threads s)(th img := (threads s (th img))\<lparr>th_owner := task img, th_context := init_esp\<rparr>) \<and>
    spawn_init img flags fuel s = kbind (int_unlock_region (irq_enabled IRQ_PIT s) t) (scheduler_add_process fuel (task img))"
proof -
  have r: "vm_ok s" "IS_PAGE_ALIGNED (placement_heap s)" "slot_free (placement_heap s) s"
    "3 \<le> card ({..<page_limit s} - in_use s)" "IS_PAGE_ALIGNED (g_kernel_page_dir img)"
    "translate (g_kernel_page_dir img) s = Inr (cr3 s)" "other_entry s (g_kernel_page_dir img) (placement_heap s)"
    using room by (simp_all add: room_for_init_def)
  note lk = same_memory_vm [OF same_memory_sched(1) [of s]]
  obtain F s2 where s2: "paging_structure_alloc (locked s) = Inr (placement_heap s, s2)"
      "\<And>u. same_memory s2 u \<Longrightarrow> \<exists>t. copy_kernel_entries img (placement_heap s) u = Inr t \<and> directory_made s F t"
    using new_directory [of "locked s" img] r free_page_left(1) [OF r(4) [unfolded numeral_3_eq_3]]
    by (auto simp: lk slot_free_def other_entry_def directory_made_cong(2) [OF same_memory_sched(1), symmetric])
  let ?u = "upd_process (task img) (\<lambda>p. p\<lparr>p_pgdir := placement_heap s\<rparr>) s2"
  obtain s3 where s3: "copy_kernel_entries img (placement_heap s) ?u = Inr s3" "directory_made s F s3"
    using s2(2) [OF same_memory_sched(3)] by blast
  let ?v = "upd_thread (th img) (\<lambda>t. t\<lparr>th_owner := task img\<rparr>)
    (upd_process (task img) (\<lambda>p. p\<lparr>p_quantum := DEFAULT_QUANTUM, p_thread := th img\<rparr>) s3)"
  have v: "directory_made s F ?v"
    using s3(2) directory_made_cong(1) [OF same_memory_trans [OF same_memory_sched(3,4)]] by blast
  have len: "length (init_context img flags init_esp) = 17" by (simp add: init_context_def)
  obtain G T v1 v2 v3 where v3: "page_alloc pte_zero ?v = Inr (Some (pte_zero\<lparr>pte_address := G\<rparr>), v1)"
      "page_map (push_bit 12 (ucast G)) init_stack True False v1 = Inr v2"
      "write_words init_esp (init_context img flags init_esp) v2 = Inr v3"
      "init_space s F G T (init_context img flags init_esp) v3"
    using stack_page [OF room v, of "init_context img flags init_esp"] len unfolding init_esp_def by auto
  let ?t = "upd_thread (th img) (\<lambda>t. t\<lparr>th_context := init_esp\<rparr>) v3"
  have "memory_only ?v v3"
    using memory_only_page_alloc [OF v3(1)] memory_only_page_map [OF v3(2)] memory_only_write_words [OF v3(3)]
    by (blast intro: memory_only_trans)
  note rest = memory_only_sched [OF memory_only_structure_alloc [OF s2(1)]]
    memory_only_sched [OF memory_only_copy_kernel_entries [OF s3(1)]] memory_only_sched [OF this]
  have top: "KHEAP_START - PAGE_SIZE - PAGE_SIZE = init_stack" "KHEAP_START - PAGE_SIZE - (76 - 8) = init_esp"
    by (simp_all add: init_esp_def init_stack_def KHEAP_START_def PAGE_SIZE_eq)
  have "spawn_init img flags fuel s = kbind (int_unlock_region (irq_enabled IRQ_PIT s) ?t) (scheduler_add_process fuel (task img))"
    unfolding spawn_init_def Let_def top int_lock_region_eq kbind_Inr prod.case s2(1)
    using s3(1) v3(1-3) by (simp add: task_def th_def)
  moreover have "init_space s F G T (init_context img flags init_esp) ?t"
    using v3(4) init_space_cong [OF same_memory_sched(4)] by blast
  ultimately show ?thesis
    by (intro exI conjI) (assumption | simp add: rest)+
qed

lemma same_memory_links: "links_only s t \<Longrightarrow> same_memory s t"
  by (simp add: links_only_def same_memory_def)

lemma spawn_init_spec:
  assumes room: "room_for_init img s" and run: "system_task_runs img s" and fuel: "1 \<le> fuel"
  shows "\<exists>F G T t. spawn_init img flags fuel s = Inr (True, t) \<and>
    init_space s F G T (init_context img flags init_esp) t \<and>
    taking_turns t [task_addr img SYSTEM, task_addr img INIT] \<and> g_current_process t = task_addr img SYSTEM \<and>
    irq_mask t = irq_mask s \<and> p_thread (processes t (task_addr img INIT)) = thread_addr img INIT \<and>
    p_pgdir (processes t (task_addr img INIT)) = placement_heap s \<and>
    p_quantum (processes t (task_addr img INIT)) = DEFAULT_QUANTUM \<and>
    threads t (thread_addr img INIT) = (threads s (thread_addr img INIT))
      \<lparr>th_owner := task_addr img INIT, th_context := init_esp\<rparr>"
proof -
  let ?sys = "task_addr img SYSTEM" and ?init = "task_addr img INIT" and ?th = "thread_addr img INIT"
  have r: "queued s [?sys]" "g_current_process s = ?sys" "g_preemption_enabled s" "keeps_context s ?sys"
    "p_thread (processes s ?sys) = thread_addr img SYSTEM" "processes s ?init = zero_process" "?init \<noteq> 0"
    using run by (simp_all add: system_task_runs_def)
  obtain F G T u where u: "init_space s F G T (init_context img flags init_esp) u" "irq_mask u = irq_mask (locked s)"
      "process_queue u = process_queue s" "g_current_process u = ?sys" "g_preemption_enabled u"
      "processes u = (processes s)(?init := zero_process
        \<lparr>p_pgdir := placement_heap s, p_quantum := DEFAULT_QUANTUM, p_thread := ?th\<rparr>)"
      "threads u = (threads s)(?th := (threads s ?th)\<lparr>th_owner := ?init, th_context := init_esp\<rparr>)"
      "spawn_init img flags fuel s = kbind (int_unlock_region (irq_enabled IRQ_PIT s) u) (scheduler_add_process fuel ?init)"
    using spawn_init_memory [OF room, of flags fuel] r by auto
  define v where "v = unlocked (irq_enabled IRQ_PIT s) u"
  have v: "int_unlock_region (irq_enabled IRQ_PIT s) u = Inr v" "irq_mask v = irq_mask s" "same_memory u v"
    "process_queue v = process_queue s" "processes v = processes u" "threads v = threads u"
    "g_current_process v = ?sys" "g_preemption_enabled v"
    using region_mask_restored [OF u(2)] u(3-5) by (simp_all add: v_def same_memory_sched)
  have init: "queue_next v ?init = 0" by (simp add: v(5) u(6) zero_process_def)
  have "queued v [?sys]" using r(1) by (simp add: queued_def v(4,5) u(6) zero_process_def)
  then obtain t where t: "scheduler_add_process fuel ?init v = Inr (True, t)" "queued t [?sys, ?init]"
      "g_current_process t = ?sys" "\<And>q. p_flags (processes t q) = p_flags (processes v q)"
    using add_process_spec [of v "[?sys]" ?init fuel] r(7) init fuel task_addrs v(7) by auto
  have links: "links_only v t" by (rule add_process_links [OF t(1) init])
  have "init_space s F G T (init_context img flags init_esp) t"
    using u(1) init_space_cong [OF same_memory_trans [OF v(3) same_memory_links [OF links]]] by blast
  moreover have "spawn_init img flags fuel s = Inr (True, t)" using u(8) v(1) t(1) by simp
  moreover have "taking_turns t [?sys, ?init]"
    using t(2,4) links r(4,5) v(5,8) u(6) task_addrs
    by (simp add: taking_turns_def keeps_context_def links_only_def zero_process_def)
  ultimately show ?thesis
    using links t(3) v(2,5,6) u(6,7) by (intro exI [of _ F] exI [of _ G] exI [of _ T] exI [of _ t]) (simp add: links_only_def)
qed

section \<open>From the start of the system task to the first switch\<close>

text \<open>The addresses that \<open>spawn_init\<close> uses are not translated through what \<open>init_system_task\<close> writes: the page
  of its local context and the last three entries of the page table below the kernel stack.\<close>

definition apart_from_boot :: "image \<Rightarrow> 20 word \<Rightarrow> u32 \<Rightarrow> 'a paging_scheme \<Rightarrow> bool" where
  "apart_from_boot img f b s \<longleftrightarrow> list_all (\<lambda>va. clear_of s f va \<and> translate b s \<noteq> Inr (table_of s va))
     [placement_heap s, placement_heap s + PAGE_SIZE, g_kernel_page_dir img]"

lemma translate_away:
  assumes "cr3 t = cr3 s" "pmem t (cr3 s) = pmem s (cr3 s)"
    and "pmem t (table_of s va) (pt_index va) = pmem s (table_of s va) (pt_index va)"
  shows "translate va t = translate va s"
  using assms by (simp add: translate_def Let_def)

lemma room_after_boot:
  assumes room: "room_for_init img s" and apart: "apart_from_boot img f b s" and b: "translate b s = Inr g"
    "g \<noteq> cr3 s" "f \<noteq> cr3 s"
    and t: "cr3 t = cr3 s" "page_bitmap t = page_bitmap s" "placement_heap t = placement_heap s"
    and mem: "\<And>h w. h \<noteq> g \<Longrightarrow> h \<noteq> f \<or> w < 1021 \<Longrightarrow> pmem t h w = pmem s h w"
  shows "room_for_init img t"
proof -
  have dir: "pmem t (cr3 s) = pmem s (cr3 s)" using mem b(2,3) by (intro ext) simp
  have pte: "pmem t (table_of s va) (pt_index va) = pmem s (table_of s va) (pt_index va)"
    if "va \<in> {placement_heap s, placement_heap s + PAGE_SIZE, g_kernel_page_dir img}" for va
    using apart that b(1) by (intro mem) (auto simp: apart_from_boot_def clear_of_def)
  have "vm_ok t = vm_ok s" "in_use t = in_use s" "page_limit t = page_limit s"
    by (simp_all add: vm_ok_def pages_ok_def recursive_def in_use_def page_limit_def t dir)
  moreover have "translate (g_kernel_page_dir img) t = translate (g_kernel_page_dir img) s"
    by (rule translate_away) (simp_all add: t dir pte)
  moreover have table: "pd_index (placement_heap s + PAGE_SIZE) = pd_index (placement_heap s)"
    using room by (simp add: room_for_init_def)
  ultimately show ?thesis
    using room pte [of "placement_heap s + PAGE_SIZE"]
    by (simp add: room_for_init_def slot_free_def other_entry_def t dir pte table)
qed

text \<open>The turn of the first of two tasks ends at the saved context of the second.\<close>

lemma turn_rotates_to:
  assumes "taking_turns s [p, q]" "g_current_process s = p"
  shows "\<exists>t. task_turn ''system task: '' sp ra context s = Inr (th_context (threads s (p_thread (processes s q))), t) \<and>
    g_current_process t = q"
  using task_turn_spec [of s "[p, q]" 0 "''system task: ''" sp ra "context"] assms
  by (auto simp: taking_turns_def)

section \<open>Properties\<close>

text \<open>C11. From the start of the system task to the first switch. When \<open>init_system_task\<close> has entered
  \<open>kernel_system_task\<close> and that one has called \<open>spawn_init\<close>, two tasks are on the queue, three physical pages more are
  in use, and nothing that was in use has been handed out again: the pages are a page directory, the stack of the init
  task and the page table that maps it. The top of that stack has the context of a thread about to run
  \<open>kernel_idle_task\<close>, and the next timer tick after the first round of the system task resumes exactly there, with
  the init task as the current process. The new directory, the \<open>pgdir\<close> of the init task, maps itself and has the
  kernel's entries up to 830; but it does not map this stack.\<close>

theorem system_starts_init:
  fixes s :: "'a scheduler_scheme"
  assumes "boot_layout img tbl f b k s" and "apart_from_boot img f b s" and "room_for_init img s"
    and "process_queue s = 0" and "kernel_tasks img \<noteq> 0" and "task_addr img INIT \<noteq> 0"
    and "g_preemption_enabled s" and "1 \<le> fuel"
  shows "\<exists>s1 t F G T. init_system_task img flags fuel s = Inr (kernel_system_task_entry img, g_kernel_stack_bottom img, s1) \<and>
    spawn_init img flags' fuel s1 = Inr (True, t) \<and>
    taking_turns t [task_addr img SYSTEM, task_addr img INIT] \<and> irq_mask t = irq_mask s1 \<and>
    distinct [F, G, T] \<and> unat ` {F, G, T} \<inter> in_use s = {} \<and> in_use t = unat ` {F, G, T} \<union> in_use s \<and> vm_ok t \<and>
    translate init_stack t = Inr G \<and>
    (\<forall>j<17. read32 (init_esp + of_nat (4 * j)) t = Inr (init_context img flags' init_esp ! j)) \<and>
    (\<forall>sp ra context. \<exists>u. task_turn ''system task: '' sp ra context t = Inr (init_esp, u) \<and>
      g_current_process u = task_addr img INIT) \<and>
    p_pgdir (processes t (task_addr img INIT)) = placement_heap s \<and> translate (placement_heap s) t = Inr F \<and>
    pmem t F 1023 = set_address (ucast F) 3 \<and> (\<forall>w. 768 \<le> w \<and> w < 831 \<longrightarrow> pmem t F w = pmem s (cr3 s) w) \<and>
    translate init_stack (t\<lparr>cr3 := F\<rparr>) = Inl (Page_Fault init_stack)"
proof -
  let ?sys = "task_addr img SYSTEM" and ?init = "task_addr img INIT"
  obtain s1 g where s1: "init_system_task img flags fuel s = Inr (kernel_system_task_entry img, g_kernel_stack_bottom img, s1)"
      "translate b s = Inr g" "g_current_process s1 = ?sys" "queued s1 [?sys]"
      "p_thread (processes s1 ?sys) = thread_addr img SYSTEM" "p_flags (processes s1 ?sys) = 0"
      "processes s1 ?init = zero_process" "g_preemption_enabled s1"
      "cr3 s1 = cr3 s" "page_bitmap s1 = page_bitmap s" "placement_heap s1 = placement_heap s"
      "\<And>h w. h \<noteq> g \<Longrightarrow> h \<noteq> f \<or> w < 1021 \<Longrightarrow> pmem s1 h w = pmem s h w"
    using init_system_task_spec [OF assms(1,4,5), of flags fuel] assms(7) by auto
  have "g \<noteq> cr3 s" "f \<noteq> cr3 s" using assms(1) s1(2) by (auto simp: boot_layout_def clear_of_def)
  then have room: "room_for_init img s1" by (rule room_after_boot [OF assms(3,2) s1(2) _ _ s1(9-12)])
  have runs: "system_task_runs img s1"
    using s1(3-8) assms(6) by (simp add: system_task_runs_def keeps_context_def)
  obtain F G T t where t: "spawn_init img flags' fuel s1 = Inr (True, t)"
      "init_space s1 F G T (init_context img flags' init_esp) t" "taking_turns t [?sys, ?init]"
      "g_current_process t = ?sys" "irq_mask t = irq_mask s1" "p_thread (processes t ?init) = thread_addr img INIT"
      "p_pgdir (processes t ?init) = placement_heap s"
      "th_context (threads t (thread_addr img INIT)) = init_esp"
    using spawn_init_spec [OF room runs assms(8), of flags'] by (auto simp: s1(11))
  have "\<exists>u. task_turn ''system task: '' sp ra context t = Inr (init_esp, u) \<and> g_current_process u = ?init" for sp ra "context"
    using turn_rotates_to [OF t(3)] t(4,6,8) by simp
  moreover have "\<not> bit (pde_of s1 init_stack) 0" using room by (simp add: room_for_init_def)
  then have "translate init_stack (t\<lparr>cr3 := F\<rparr>) = Inl (Page_Fault init_stack)"
    using t(2) by (simp add: init_space_def translate_def Let_def init_stack(3) bit_and_iff)
  moreover have "read32 (init_esp + of_nat (4 * j)) t = Inr (init_context img flags' init_esp ! j)" if "j < 17" for j
    using t(2) that by (simp add: init_space_def init_context_def init_esp_def of_nat_diff algebra_simps)
  moreover have "in_use s1 = in_use s" using s1(10) by (simp add: in_use_def)
  moreover have "distinct [F, G, T]" "unat ` {F, G, T} \<inter> in_use s1 = {}" "in_use t = unat ` {F, G, T} \<union> in_use s1"
    "vm_ok t" "translate init_stack t = Inr G" "translate (placement_heap s) t = Inr F"
    using t(2) unfolding init_space_def s1(11) by blast+
  moreover have "pmem t F 1023 = set_address (ucast F) 3" using t(2) by (simp add: init_space_def)
  moreover have "pmem t F w = pmem s (cr3 s) w" if "768 \<le> w" "w < 831" for w
  proof -
    have "w \<noteq> 1023" using that by auto
    then have "pmem t F w = pmem s1 (cr3 s1) w" using t(2) that by (simp add: init_space_def)
    then show ?thesis using s1(9) s1(12) [of "cr3 s" w] \<open>g \<noteq> cr3 s\<close> \<open>f \<noteq> cr3 s\<close> by simp
  qed
  ultimately show ?thesis
    using s1(1) t(1,3,5,7) by (intro exI [of _ s1] exI [of _ t] exI [of _ F] exI [of _ G] exI [of _ T] conjI) simp_all
qed

definition boot_state :: scheduler where
  "boot_state = boot_stack\<lparr>page_bitmap := page_bitmap vm_zero, placement_heap := 0xC0200000,
     pmem := (pmem boot_stack)(256 := (pmem boot_stack 256)(1023 := 0x100003)), processes := (\<lambda>_. zero_process)\<rparr>"

lemma boot_state_pmem:
  "pmem boot_state 256 768 = 0x102003" "pmem boot_state 256 1023 = 0x100003" "pmem boot_state 256 831 = 0"
  "pmem boot_state 256 i \<in> {0x102003, 0x100003, 0}" "pmem boot_state 0x102 2 = 0x102003" "pmem boot_state 0x102 6 = 0x106003"
  "pmem boot_state 0x102 512 = 0" "pmem boot_state 0x102 513 = 0" "cr3 boot_state = 256" "placement_heap boot_state = 0xC0200000"
  "page_bitmap boot_state = page_bitmap vm_zero" "process_queue boot_state = 0" "g_preemption_enabled boot_state"
  by (simp_all add: boot_state_def boot_stack_def sched_zero_def timer.defs)

lemma boot_state_index:
  "pd_index 0xC0200000 = 768" "pt_index 0xC0200000 = 512" "pd_index 0xC0201000 = 768" "pt_index 0xC0201000 = 513"
  "pd_index 0xC0002000 = 768" "pt_index 0xC0002000 = 2" "pd_index 0xC0006000 = 768" "pt_index 0xC0006000 = 6"
  "frame_of 0x102003 = 0x102" "frame_of 0x100003 = 0x100" "frame_of 0x106003 = 0x106" "frame_of 0 = 0"
  by (simp_all add: pd_index_def pt_index_def frame_of_def drop_bit_eq_div)

lemma boot_state_translate:
  "translate 0xC0002000 boot_state = Inr 0x102" "translate 0xC0006000 boot_state = Inr 0x106"
  "translate 0xFFFFF000 boot_state = Inr 0x100"
  by (simp_all add: translate_def boot_state_pmem boot_state_index window_index bit_numeral_rec)

lemma boot_state_room: "room_for_init image_zero boot_state"
proof -
  have used: "in_use boot_state = {..<8192}" "page_limit boot_state = 16384" "pages_ok boot_state"
    using vm_zero_pages by (simp_all add: in_use_def page_limit_def pages_ok_def boot_state_pmem)
  have "unat (frame_of (pmem boot_state 256 i)) < 8192" for i
    using boot_state_pmem(4) [of i] by (auto simp: boot_state_index)
  then have "vm_ok boot_state"
    using used by (simp add: vm_ok_def recursive_def boot_state_pmem boot_state_index bit_numeral_rec)
  moreover have "{..<16384} - {..<8192} = {8192..<16384 :: nat}" by auto
  ultimately show ?thesis
    using used
    by (simp add: room_for_init_def slot_free_def other_entry_def boot_state_pmem boot_state_index window_index
      boot_state_translate image_zero_def aligned_nat PAGE_SIZE_eq init_stack(3) bit_numeral_rec)
qed

theorem system_starts_init_witness:
  "\<exists>s1 t u F. init_system_task image_zero 0x2 1 boot_state = Inr (0xC0101000, 0xC0003000, s1) \<and>
     spawn_init image_zero 0x2 1 s1 = Inr (True, t) \<and>
     read32 (init_esp + 56) t = Inr 0xC0102000 \<and> task_turn ''system task: '' 0 0 0 t = Inr (init_esp, u) \<and>
     g_current_process u = 0x54 \<and> translate init_stack (t\<lparr>cr3 := F\<rparr>) = Inl (Page_Fault init_stack)"
proof -
  have "boot_layout image_zero 0xC0002000 0x102 0xC0006000 1000 boot_state"
    by (simp add: boot_layout_def clear_of_def boot_state_translate boot_state_pmem boot_state_index image_zero_def aligned_nat)
  moreover have "apart_from_boot image_zero 0x102 0xC0006000 boot_state"
    by (simp add: apart_from_boot_def clear_of_def boot_state_translate boot_state_pmem boot_state_index image_zero_def
      PAGE_SIZE_eq window_index)
  moreover have tasks: "task_addr image_zero INIT = 0x54" "kernel_tasks image_zero = 0x40"
    by (simp_all add: task_addr_def image_zero_def INIT_def)
  ultimately obtain s1 t F where t: "init_system_task image_zero 0x2 1 boot_state =
        Inr (kernel_system_task_entry image_zero, g_kernel_stack_bottom image_zero, s1)"
      "spawn_init image_zero 0x2 1 s1 = Inr (True, t)"
      "\<forall>j<17. read32 (init_esp + of_nat (4 * j)) t = Inr (init_context image_zero 0x2 init_esp ! j)"
      "\<forall>sp ra context. \<exists>u. task_turn ''system task: '' sp ra context t = Inr (init_esp, u) \<and> g_current_process u = 0x54"
      "translate init_stack (t\<lparr>cr3 := F\<rparr>) = Inl (Page_Fault init_stack)"
    using system_starts_init [of image_zero "0xC0002000" "0x102" "0xC0006000" 1000 boot_state 1 2 2] boot_state_room
      boot_state_pmem(12,13) by auto
  moreover have "read32 (init_esp + 56) t = Inr 0xC0102000"
    using t(3) [rule_format, of 14] by (simp add: init_context_def image_zero_def)
  moreover obtain u where "task_turn ''system task: '' 0 0 0 t = Inr (init_esp, u)" "g_current_process u = 0x54"
    using t(4) by blast
  moreover have "kernel_system_task_entry image_zero = 0xC0101000" "g_kernel_stack_bottom image_zero = 0xC0003000"
    by (simp_all add: image_zero_def)
  ultimately show ?thesis by metis
qed

end
