(* ===== verification/Spec2Isabelle.thy ===== *)
theory Spec2Isabelle
  imports BitmapHeap Entry HeapContent Spawn
begin

text \<open>
  A model of the treeos kernel for i386 (directories \<open>kernel\<close> and \<open>klibc\<close> of the repository), and what is
  proved of it.

  \<^bold>\<open>The program.\<close> A Multiboot loader enters \<open>kinit\<close>, which sets up the console, and then \<open>kmain\<close>, which
  builds the processor tables, the interrupt handlers, the physical page bitmap, the table of boot modules,
  the timer and the scheduler, and starts the system task; that one creates the init task. From then on
  the timer interrupt drives everything: its handlers count ticks and use up the quantum of the current
  process, and the end of the interrupt switches to another process when one of them asked for it. Memory
  comes in three layers: the bitmap hands out physical pages, \<open>page_map\<close> makes them visible and builds the
  tables this needs, the kernel heap grows by such pages, and liballoc divides them.

  \<^bold>\<open>State.\<close> Each file with static variables extends the record of the file below it, from \<open>machine\<close> (port
  output, console, interrupt flag) over \<open>pic\<close>, \<open>tty\<close>, \<open>pages\<close>, \<open>paging\<close>, \<open>kernel_heap\<close>, \<open>lalloc\<close>, \<open>cpu\<close>,
  \<open>interrupts\<close>, \<open>serial\<close>, \<open>timer\<close>, \<open>scheduler\<close>, \<open>boot\<close>, \<open>modules\<close> and \<open>elf\<close> to \<open>kernel\<close>. Every operation is
  polymorphic in the later extensions, so it acts on the whole state and is composed as the C code composes
  it. Integers are machine words and wrap. Objects that the code reaches through pointers are stores indexed
  by address (headers of liballoc, payload bytes, processes, threads, IRQ handler nodes, Multiboot records); the paging
  structures, the stacks and page directories of the tasks and the strings of system calls are words of physical frames
  behind the two-level walk of the MMU. Where a client gives a pointer to \<open>kfree\<close> or \<open>krealloc\<close>, the alignment byte and
  the headers found through it are looked up in the walk first, so that a pointer into a released block is a page fault
  (\<open>kfree_frees\<close>). The accesses of liballoc to the headers of its own lists are not: that the pages of all live blocks are mapped is
  proved (\<open>heap_memory_is_private\<close>), not checked at each access.

  \<^bold>\<open>Errors and loops.\<close> An operation returns \<open>kerror + 'a\<close>: a panic with its message, an access outside an
  object, a page fault, or \<open>Nesting\<close>, the end of the fuel of a loop that C does not bound. The texts that the components print are kept
  in a log, \<open>con_log\<close>; \<open>printf_displays\<close> says what a \<open>printf\<close> shows on the terminal. A text that is too long for the buffer
  of \<open>vprintf\<close> is an access outside an object, as is one through the null pointer. Loops with a
  computed number of rounds are structural; loops that depend on memory or on a device have fuel:
  \<^item> the mutual recursion of \<open>page_map\<close> and \<open>paging_structure_alloc\<close>: three calls, always enough
    (\<open>page_map_recursion_bounded\<close>);
  \<^item> lists of liballoc: three more than twice the number of live allocations, or 515 for any run within the
    1 MiB of the heap, is enough (\<open>kmalloc_serves\<close>, \<open>allocations_never_overlap\<close>);
  \<^item> lists of IRQ handlers and processes: one more than the length of the list is enough
    (\<open>int_register_irq_handler_keeps_last\<close>, \<open>scheduler_add_process_appends\<close>);
  \<^item> waits for the serial port: the number of status reads after which it is ready (\<open>serio_puts_delivers\<close>);
    \<open>timer_sleep\<close>: one more than the polls until the ticks have passed (\<open>timer_sleep_waits\<close>); the string of a
    system call: one more than its length (\<open>exceptions_panic_syscalls_print\<close>);
  \<^item> the memory map, whose entries give their own sizes, has no bound in the code.

  \<^bold>\<open>Theories.\<close>
  \<^item> \<open>Prelude\<close>: integer types, results, pointer chains, lemmas on words.
  \<^item> \<open>CString\<close> (\<open>klibc/string\<close>) and \<open>Printf\<close> (\<open>klibc/stdio/vsprintf.c\<close>): byte memory, the string routines against
    C strings, the format interpreter against a list of pieces, the number conversions read back.
  \<^item> \<open>Machine\<close>, \<open>IrqMask\<close>: ports and console; the cached IRQ mask, which stays equal to what the controllers
    hold, and the critical regions, a locale whose instance restores the timer IRQ.
  \<^item> \<open>Tty\<close> (\<open>kernel/arch/i386/tty.c\<close>): refinement of an abstract screen of 24 lines.
  \<^item> \<open>Bitmap\<close>, \<open>BitmapHeap\<close> (\<open>kernel/kernel/util/bitmap.c\<close>): the locale \<open>number_pool\<close> and its instance.
  \<^item> \<open>PhysPages\<close> (\<open>pmm/paging.c\<close>): \<open>page_alloc\<close> refines a set of free pages, no page is handed out twice, and
    what freeing and reserving a region does to the bitmap.
  \<^item> \<open>Paging\<close> (\<open>pmm/paging.c\<close>, \<open>pmm/allocator.c\<close>, \<open>vmm/addr.c\<close>): the effect of mapping and unmapping on the walk
    of every address; \<open>virt_to_phys\<close> agrees with the walk.
  \<^item> \<open>KernelHeap\<close> (\<open>vmm/heap.c\<close>, \<open>vmm/kernel_heap.c\<close>): pages go round. \<open>Liballoc\<close> (\<open>klibc/liballoc\<close>): the
    operations. \<open>HeapBlock\<close>: the layout invariant of one block, which serving a request and freeing keep.
    \<open>Majors\<close>: the doubly linked list of the blocks and the pages behind them; a request is served from a block
    with room or from a new one, and an empty block is given back. \<open>HeapClient\<close>: the calls as a client sees
    them, with the list of live allocations; the locale \<open>allocator\<close> and its instance, any sequence of calls
    within the pages of the heap. \<open>HeapContent\<close>: what \<open>kcalloc\<close> and \<open>krealloc\<close> promise of the contents.
  \<^item> \<open>Cpu\<close>, \<open>Interrupt\<close>: descriptors decoded the way the processor reads them; registration and dispatch.
  \<^item> \<open>Serial\<close>, \<open>Timer\<close>: the serial driver with the panic reports, the PIT and sleeping.
  \<^item> \<open>Scheduler\<close> (\<open>kernel/kernel/proc\<close>): the queue, the locale \<open>rotation\<close>, the step relation \<open>sched_step\<close> of all
    events and its invariant.
  \<^item> \<open>Clock\<close> (\<open>timer.c\<close>, \<open>scheduler.c\<close>, \<open>interrupt.c\<close> and liballoc together): what \<open>timer_init\<close> and
    \<open>scheduler_init\<close> leave on IRQ 0, and what every timer interrupt then does.
  \<^item> \<open>Interleave\<close> (\<open>scheduler_add_process\<close> and \<open>process_yield\<close> statement by statement, with \<open>int_lock_region\<close>):
    the timer may interrupt between any two statements and other processes may run before the next one; the locale
    \<open>masked_region\<close> shows that a region is atomic, and its instances are the two operations.
  \<^item> \<open>Entry\<close> (\<open>int_handler_stub\<close> of \<open>interrupt_asm.S\<close>): the way of an interrupt from its vector through the handler
    table, the handlers of all components and the switch; exceptions, system calls and preemption as a whole; and
    what \<open>printf\<close> shows on the terminal.
  \<^item> \<open>PhysInit\<close> (\<open>pmm/pmm.c\<close>), \<open>Modules\<close> (\<open>module.c\<close>), \<open>Elf\<close> (\<open>elf/elf32.c\<close>): what the loader passes. \<open>AreaMap\<close>: the
    invariant under which mapping page after page into an area does not fail, page tables included; \<open>Modules\<close> uses it for the
    pages of the modules.
  \<^item> \<open>KernelMain\<close> (\<open>kernel.c\<close>): the entry points, the start of the tasks, and the second instance of
    \<open>rotation\<close>, for whole turns of the tasks.
  \<^item> \<open>Spawn\<close> (\<open>spawn_init\<close> of \<open>kernel.c\<close>): what it does to the address space, the physical pages, the tasks and the
    queue together, and the way from \<open>init_system_task\<close> to the first switch to the init task.

  \<^bold>\<open>Where the code does not do what it means to.\<close> Such behaviour is proved as it is: \<open>strcat_keeps_dest\<close>,
  \<open>memcmp_sign_reversed\<close>, \<open>memmove_upward_only\<close>, \<open>high_char_loses_color\<close>, \<open>init_bitmap_marks_32MiB\<close>,
  \<open>init_region_frees\<close>, \<open>parse_memory_map_ignores_lengths\<close>, \<open>kmalloc_size_wraps\<close>, \<open>idt_init_installs_gates\<close>,
  \<open>int_register_irq_handler_keeps_last\<close>, \<open>exhausted_quantum_wraps\<close>, \<open>timer_sleep_waits\<close>, \<open>pit_init_divisor\<close>,
  \<open>clone_page_dir_loses_heap\<close>, \<open>system_task_stack_in_page_table\<close>, \<open>system_starts_init\<close>, \<open>elf32_load_unfinished\<close>,
  \<open>kcalloc_zeroes\<close> (the product of the arguments may wrap around), \<open>exceptions_panic_syscalls_print\<close> (a null pointer or
  an unmapped string of a system call ends the kernel), \<open>printf_displays\<close> (a long text overruns the buffer).

  \<^bold>\<open>Parameters.\<close> Link-time addresses and the entry points of the interrupt stubs are the record \<open>image\<close> or
  arguments; the handlers an interrupt calls are an argument of the dispatcher; the bytes a port delivers are
  part of the state.

  \<^bold>\<open>Not modelled.\<close> The bootstrap in assembly; of the other assembly the common interrupt stub and the two
  routines of \<open>scheduler_asm.S\<close> are modelled, without the pushes and pops of registers; the unused C variants of the port
  instructions; code the preprocessor removes (\<open>reinit_paging\<close>, \<open>tasks/system.c\<close>, the debug output of
  liballoc); the user program \<open>init\<close>, which nothing loads yet. The C stack: what the compiled functions push, also
  those that run on the wrong stack of \<open>system_task_stack_in_page_table\<close>, except the three pushes of the bootstrap and the
  contexts that the interrupts save. The width of \<open>bool\<close>: the assembly reads and writes four bytes of the flags
  \<open>g_preemption_enabled\<close> and \<open>g_switch_processes\<close>, which are one byte each; the model has two booleans. The negation of
  the smallest integer in \<open>ltoa\<close>, which C leaves undefined, wraps around. A string that overlaps video memory while it is
  printed. In the runs of the scheduler only processes whose link is null are added; the code warns about others. Interrupts occur inside of
  \<open>scheduler_add_process\<close> and \<open>process_yield\<close> (\<open>Interleave\<close>) and between whole operations, but not inside of any
  other operation.

  \<^bold>\<open>What could follow.\<close> The critical regions of the terminal and of liballoc statement by statement; the TLB as
  a cache of the walk; the execution of user code, once the program loads any.
\<close>

end
